(* ===== verification/Prelude.thy ===== *)
theory Prelude
  imports Main "HOL-Library.Word" "HOL-Library.Monad_Syntax" "HOL-Library.Sublist" "HOL-Library.Multiset"
    "HOL-Library.Code_Target_Nat"
begin

text \<open>
  Shared vocabulary of the development: the machine integers of the Rust sources, byte
  strings, the operations of the Rust standard library on slices, strings and integers
  that several components use, and the generic lemmas about them.

  \<^item> \<open>u8\<close>, \<open>u16\<close>, \<open>u32\<close>, \<open>u64\<close> are words of that width; \<open>usize\<close> values (lengths and
    offsets of buffers in memory) are \<open>nat\<close>;
  \<^item> a Rust \<open>String\<close> or \<open>&str\<close> is the list of its UTF-8 bytes, as in memory, and \<open>str\<close>
    turns a literal into it; \<open>utf8_valid\<close> is the check of \<open>str::from_utf8\<close>;
  \<^item> \<open>position\<close>, \<open>find_sub\<close> (\<open>windows(n).position(..)\<close>), \<open>split_on\<close>, \<open>chunks2\<close>
    (\<open>chunks_exact(2)\<close>), \<open>strip_prefix\<close>, \<open>min_by_key\<close> are the iterator and slice methods;
  \<^item> \<open>sat_add\<close>, \<open>sat_sub\<close>, \<open>sat_mul\<close> are the saturating operations on unsigned words.
\<close>

unbundle bit_operations_syntax

type_synonym u8 = "8 word"
type_synonym u16 = "16 word"
type_synonym u32 = "32 word"
type_synonym u64 = "64 word"
type_synonym bytes = "u8 list"

named_theorems bytes_simps \<open>evaluation of literals and byte conversions\<close>
named_theorems word_bounds \<open>bounds of unsigned word values\<close>

section \<open>Definitions\<close>

subsection \<open>Literals and strings\<close>

definition str :: "string \<Rightarrow> bytes" where
  "str s = map (\<lambda>c. of_nat (of_char c)) s"

definition utf8_cont :: "u8 \<Rightarrow> bool" where
  "utf8_cont b \<longleftrightarrow> 0x80 \<le> b \<and> b \<le> 0xBF"

definition utf8_second3 :: "u8 \<Rightarrow> u8 \<Rightarrow> bool" where
  "utf8_second3 b c \<longleftrightarrow>
     b = 0xE0 \<and> 0xA0 \<le> c \<and> c \<le> 0xBF \<or>
     (0xE1 \<le> b \<and> b \<le> 0xEC \<or> 0xEE \<le> b \<and> b \<le> 0xEF) \<and> utf8_cont c \<or>
     b = 0xED \<and> 0x80 \<le> c \<and> c \<le> 0x9F"

definition utf8_second4 :: "u8 \<Rightarrow> u8 \<Rightarrow> bool" where
  "utf8_second4 b c \<longleftrightarrow>
     b = 0xF0 \<and> 0x90 \<le> c \<and> c \<le> 0xBF \<or>
     0xF1 \<le> b \<and> b \<le> 0xF3 \<and> utf8_cont c \<or>
     b = 0xF4 \<and> 0x80 \<le> c \<and> c \<le> 0x8F"

text \<open>One scalar value off the front of a byte string, or \<open>None\<close> when the bytes there are
  not well-formed UTF-8 (the table of the Unicode standard that \<open>core::str\<close> follows).\<close>

fun utf8_step :: "bytes \<Rightarrow> bytes option" where
  "utf8_step [] = None"
| "utf8_step (b # bs) =
     (if b < 0x80 then Some bs
      else case bs of
        [] \<Rightarrow> None
      | c # cs \<Rightarrow>
          (if 0xC2 \<le> b \<and> b \<le> 0xDF then (if utf8_cont c then Some cs else None)
           else case cs of
             [] \<Rightarrow> None
           | d # ds \<Rightarrow>
               (if utf8_second3 b c then (if utf8_cont d then Some ds else None)
                else case ds of
                  [] \<Rightarrow> None
                | e # es \<Rightarrow>
                    (if utf8_second4 b c \<and> utf8_cont d \<and> utf8_cont e then Some es else None))))"

fun utf8_run :: "nat \<Rightarrow> bytes \<Rightarrow> bool" where
  "utf8_run _ [] = True"
| "utf8_run 0 (_ # _) = False"
| "utf8_run (Suc n) (b # bs) =
     (case utf8_step (b # bs) of None \<Rightarrow> False | Some rest \<Rightarrow> utf8_run n rest)"

text \<open>Every step removes at least one byte, so \<open>length bs\<close> steps are always enough.\<close>

definition utf8_valid :: "bytes \<Rightarrow> bool" where
  "utf8_valid bs = utf8_run (length bs) bs"

definition is_ascii_digit :: "u8 \<Rightarrow> bool" where
  "is_ascii_digit b \<longleftrightarrow> 0x30 \<le> b \<and> b \<le> 0x39"

definition is_ascii_upper :: "u8 \<Rightarrow> bool" where
  "is_ascii_upper b \<longleftrightarrow> 0x41 \<le> b \<and> b \<le> 0x5A"

definition is_ascii_lower :: "u8 \<Rightarrow> bool" where
  "is_ascii_lower b \<longleftrightarrow> 0x61 \<le> b \<and> b \<le> 0x7A"

definition is_ascii_alphanumeric :: "u8 \<Rightarrow> bool" where
  "is_ascii_alphanumeric b \<longleftrightarrow> is_ascii_digit b \<or> is_ascii_upper b \<or> is_ascii_lower b"

definition is_ascii_hexdigit :: "u8 \<Rightarrow> bool" where
  "is_ascii_hexdigit b \<longleftrightarrow>
     is_ascii_digit b \<or> 0x41 \<le> b \<and> b \<le> 0x46 \<or> 0x61 \<le> b \<and> b \<le> 0x66"

definition is_ascii_whitespace :: "u8 \<Rightarrow> bool" where
  "is_ascii_whitespace b \<longleftrightarrow> b = 0x20 \<or> b = 0x09 \<or> b = 0x0A \<or> b = 0x0C \<or> b = 0x0D"

definition to_ascii_lowercase :: "u8 \<Rightarrow> u8" where
  "to_ascii_lowercase b = (if is_ascii_upper b then b + 0x20 else b)"

definition eq_ignore_ascii_case :: "bytes \<Rightarrow> bytes \<Rightarrow> bool" where
  "eq_ignore_ascii_case xs ys \<longleftrightarrow> map to_ascii_lowercase xs = map to_ascii_lowercase ys"

subsection \<open>Big-endian integers\<close>

definition u16_be :: "u8 \<Rightarrow> u8 \<Rightarrow> u16" where
  "u16_be hi lo = of_nat (256 * unat hi + unat lo)"

definition u16_to_be :: "u16 \<Rightarrow> bytes" where
  "u16_to_be v = [of_nat (unat v div 256), of_nat (unat v mod 256)]"

definition u24_be :: "u8 \<Rightarrow> u8 \<Rightarrow> u8 \<Rightarrow> nat" where
  "u24_be a b c = 65536 * unat a + 256 * unat b + unat c"

definition u24_to_be :: "nat \<Rightarrow> bytes" where
  "u24_to_be n = [of_nat (n div 65536), of_nat (n div 256 mod 256), of_nat (n mod 256)]"

definition u32_to_be :: "u32 \<Rightarrow> bytes" where
  "u32_to_be v = [of_nat (unat v div 16777216), of_nat (unat v div 65536 mod 256),
                  of_nat (unat v div 256 mod 256), of_nat (unat v mod 256)]"

subsection \<open>Printing integers\<close>

fun dec :: "nat \<Rightarrow> bytes" where
  "dec n = (if n < 10 then [of_nat (48 + n)] else dec (n div 10) @ [of_nat (48 + n mod 10)])"

text \<open>\<open>{:02}\<close> and \<open>char::from_digit(_, 16)\<close>.\<close>

definition dec02 :: "nat \<Rightarrow> bytes" where
  "dec02 n = (if n < 10 then 0x30 # dec n else dec n)"

definition hex_digit :: "nat \<Rightarrow> u8" where
  "hex_digit n = (if n < 10 then of_nat (48 + n) else of_nat (87 + n))"

text \<open>\<open>{:04x}\<close> of a \<open>u16\<close>.\<close>

definition hex4 :: "u16 \<Rightarrow> bytes" where
  "hex4 v = [hex_digit (unat v div 4096), hex_digit (unat v div 256 mod 16),
             hex_digit (unat v div 16 mod 16), hex_digit (unat v mod 16)]"

fun join :: "bytes \<Rightarrow> bytes list \<Rightarrow> bytes" where
  "join sep [] = []"
| "join sep [x] = x"
| "join sep (x # y # ys) = x @ sep @ join sep (y # ys)"

subsection \<open>Slices and iterators\<close>

definition slice :: "'a list \<Rightarrow> nat \<Rightarrow> nat \<Rightarrow> 'a list" where
  "slice xs a b = take (b - a) (drop a xs)"

fun position :: "('a \<Rightarrow> bool) \<Rightarrow> 'a list \<Rightarrow> nat option" where
  "position P [] = None"
| "position P (x # xs) = (if P x then Some 0 else map_option Suc (position P xs))"

fun find_sub :: "'a list \<Rightarrow> 'a list \<Rightarrow> nat option" where
  "find_sub p [] = None"
| "find_sub p (x # xs) =
     (if take (length p) (x # xs) = p then Some 0 else map_option Suc (find_sub p xs))"

fun split_on :: "('a \<Rightarrow> bool) \<Rightarrow> 'a list \<Rightarrow> 'a list list" where
  "split_on P [] = [[]]"
| "split_on P (x # xs) =
     (if P x then [] # split_on P xs
      else case split_on P xs of [] \<Rightarrow> [[x]] | s # ss \<Rightarrow> (x # s) # ss)"

fun chunks2 :: "'a list \<Rightarrow> ('a \<times> 'a) list" where
  "chunks2 (a # b # xs) = (a, b) # chunks2 xs"
| "chunks2 _ = []"

fun strip_prefix :: "'a list \<Rightarrow> 'a list \<Rightarrow> 'a list option" where
  "strip_prefix [] xs = Some xs"
| "strip_prefix (p # ps) [] = None"
| "strip_prefix (p # ps) (x # xs) = (if p = x then strip_prefix ps xs else None)"

definition starts_with :: "'a list \<Rightarrow> 'a list \<Rightarrow> bool" where
  "starts_with p xs \<longleftrightarrow> take (length p) xs = p"

fun trim_end_matches :: "'a \<Rightarrow> 'a list \<Rightarrow> 'a list" where
  "trim_end_matches c [] = []"
| "trim_end_matches c (x # xs) =
     (case trim_end_matches c xs of
        [] \<Rightarrow> (if x = c then [] else [x])
      | ys \<Rightarrow> x # ys)"

text \<open>\<open>Iterator::min_by_key\<close> returns the first of several minima.\<close>

fun min_by_key :: "('a \<Rightarrow> 'k::linorder) \<Rightarrow> 'a list \<Rightarrow> 'a option" where
  "min_by_key f [] = None"
| "min_by_key f (x # xs) =
     (case min_by_key f xs of
        None \<Rightarrow> Some x
      | Some y \<Rightarrow> Some (if f y < f x then y else x))"

subsection \<open>Saturating arithmetic\<close>

definition sat_add :: "'a::len word \<Rightarrow> 'a word \<Rightarrow> 'a word" where
  "sat_add a b = (if unat a + unat b < 2 ^ LENGTH('a) then a + b else - 1)"

definition sat_sub :: "'a::len word \<Rightarrow> 'a word \<Rightarrow> 'a word" where
  "sat_sub a b = (if b \<le> a then a - b else 0)"

definition sat_mul :: "'a::len word \<Rightarrow> 'a word \<Rightarrow> 'a word" where
  "sat_mul a b = (if unat a * unat b < 2 ^ LENGTH('a) then a * b else - 1)"

section \<open>Lemmas\<close>

declare dec.simps [simp del] of_nat_unat [simp del]

lemma word_of_nat_unat [simp]: "word_of_nat (unat w) = w"
  by (simp add: of_nat_unat)

lemma unat_u8_lt [word_bounds]: "unat (b :: u8) < 256"
  using unsigned_less [of b, where ?'a = nat] by simp

lemma unat_u16_lt [word_bounds]: "unat (v :: u16) < 65536"
  using unsigned_less [of v, where ?'a = nat] by simp

lemma unat_u32_lt [word_bounds]: "unat (v :: u32) < 4294967296"
  using unsigned_less [of v, where ?'a = nat] by simp

lemma unat_of_nat_u8 [simp]: "n < 256 \<Longrightarrow> unat (of_nat n :: u8) = n"
  by (simp add: unat_of_nat)

lemma unat_of_nat_u16 [simp]: "n < 65536 \<Longrightarrow> unat (of_nat n :: u16) = n"
  by (simp add: unat_of_nat)

lemma unat_u16_be [simp]: "unat (u16_be hi lo) = 256 * unat hi + unat lo"
proof -
  have "256 * unat hi + unat lo < 65536"
    using unat_u8_lt [of hi] unat_u8_lt [of lo] by linarith
  then show ?thesis by (simp only: u16_be_def unat_of_nat_u16)
qed

lemma length_u16_to_be [simp]: "length (u16_to_be v) = 2"
  by (simp add: u16_to_be_def)

lemma u16_be_to_be [simp]: "u16_to_be v = [hi, lo] \<Longrightarrow> u16_be hi lo = v"
proof -
  assume "u16_to_be v = [hi, lo]"
  then have hi: "hi = of_nat (unat v div 256)" and lo: "lo = of_nat (unat v mod 256)"
    by (simp_all add: u16_to_be_def)
  have "unat v div 256 < 256" using unat_u16_lt [of v] by linarith
  then have "256 * unat hi + unat lo = unat v" by (simp add: hi lo)
  then show ?thesis by (simp add: u16_be_def)
qed

lemma u16_to_be_cases: obtains hi lo where "u16_to_be v = [hi, lo]" "u16_be hi lo = v"
  by (rule that) (simp add: u16_to_be_def, rule u16_be_to_be, simp add: u16_to_be_def)

lemma length_str [simp]: "length (str s) = length s"
  by (simp add: str_def)

lemma length_slice: "b \<le> length xs \<Longrightarrow> a \<le> b \<Longrightarrow> length (slice xs a b) = b - a"
  by (simp add: slice_def)

lemma slice_append_mid: "a = length xs \<Longrightarrow> b = length xs + length ys \<Longrightarrow> slice (xs @ ys @ zs) a b = ys"
  by (simp add: slice_def)

lemma strip_prefix_Some_iff: "strip_prefix p xs = Some ys \<longleftrightarrow> xs = p @ ys"
  by (induction p xs rule: strip_prefix.induct) auto

lemma strip_prefix_append [simp]: "strip_prefix p (p @ ys) = Some ys"
  by (simp add: strip_prefix_Some_iff)

lemma starts_with_iff: "starts_with p xs \<longleftrightarrow> (\<exists>ys. xs = p @ ys)"
  unfolding starts_with_def by (metis append_eq_conv_conj append_take_drop_id)

lemma position_Some: "position P xs = Some i \<Longrightarrow> i < length xs \<and> P (xs ! i) \<and> (\<forall>j<i. \<not> P (xs ! j))"
proof (induction xs arbitrary: i)
  case Nil
  then show ?case by simp
next
  case (Cons x xs)
  show ?case
  proof (cases "P x")
    case True
    with Cons.prems show ?thesis by simp
  next
    case False
    with Cons.prems obtain k where k: "position P xs = Some k" "i = Suc k" by auto
    with Cons.IH [OF k(1)] False show ?thesis by (auto simp: less_Suc_eq_0_disj nth_Cons')
  qed
qed

lemma position_None: "position P xs = None \<longleftrightarrow> (\<forall>x\<in>set xs. \<not> P x)"
  by (induction xs) auto

lemma utf8_step_shorter: "utf8_step bs = Some rest \<Longrightarrow> length rest < length bs"
  by (cases bs) (auto split: if_splits list.splits)

lemma trim_end_matches_last: "trim_end_matches c xs \<noteq> [] \<Longrightarrow> last (trim_end_matches c xs) \<noteq> c"
  by (induction xs) (auto split: list.splits if_splits)

lemma length_trim_end_matches: "length (trim_end_matches c xs) \<le> length xs"
  by (induction xs) (auto split: list.splits)

lemma set_trim_end_matches: "set (trim_end_matches c xs) \<subseteq> set xs"
  by (induction xs) (auto split: list.splits if_splits)

lemma min_by_key_None [simp]: "min_by_key f xs = None \<longleftrightarrow> xs = []"
  by (cases xs) (auto split: option.splits)

lemma min_by_key_in: "min_by_key f xs = Some x \<Longrightarrow> x \<in> set xs"
  by (induction xs arbitrary: x) (auto split: option.splits if_splits)

lemma min_by_key_least: "min_by_key f xs = Some x \<Longrightarrow> y \<in> set xs \<Longrightarrow> f x \<le> f y"
proof (induction xs arbitrary: x y)
  case Nil
  then show ?case by simp
next
  case (Cons z zs)
  show ?case
  proof (cases "min_by_key f zs")
    case None
    with Cons.prems show ?thesis by auto
  next
    case (Some w)
    then have w: "\<And>v. v \<in> set zs \<Longrightarrow> f w \<le> f v" using Cons.IH by blast
    show ?thesis
    proof (cases "f w < f z")
      case True
      with Some Cons.prems w show ?thesis by (auto intro: less_imp_le)
    next
      case False
      with Some Cons.prems w show ?thesis by (auto simp: not_less intro: order_trans)
    qed
  qed
qed

lemma unat_minus_one_eq: "unat (- 1 :: 'a::len word) = 2 ^ LENGTH('a) - 1"
  by (simp add: unsigned_minus_1_eq_mask mask_eq_exp_minus_1)

lemma unat_sat_add: "unat (sat_add a b :: 'a::len word) = min (unat a + unat b) (2 ^ LENGTH('a) - 1)"
proof (cases "unat a + unat b < 2 ^ LENGTH('a)")
  case True
  then have "unat (a + b) = unat a + unat b" by (simp add: unat_word_ariths)
  with True show ?thesis by (simp add: sat_add_def)
next
  case False
  have "unat (- 1 :: 'a word) = 2 ^ LENGTH('a) - 1" by (rule unat_minus_one_eq)
  with False show ?thesis by (simp add: sat_add_def)
qed

lemma unat_sat_sub: "unat (sat_sub a b) = unat a - unat b"
  by (auto simp: sat_sub_def unat_sub word_le_nat_alt)

lemma unat_sat_mul: "unat (sat_mul a b :: 'a::len word) = min (unat a * unat b) (2 ^ LENGTH('a) - 1)"
proof (cases "unat a * unat b < 2 ^ LENGTH('a)")
  case True
  then have "unat (a * b) = unat a * unat b" by (simp add: unat_word_ariths)
  with True show ?thesis by (simp add: sat_mul_def)
next
  case False
  have "unat (- 1 :: 'a word) = 2 ^ LENGTH('a) - 1" by (rule unat_minus_one_eq)
  with False show ?thesis by (simp add: sat_mul_def)
qed

lemma sat_add_ge: "a \<le> sat_add a (b :: 'a::len word)"
proof -
  have "unat a < 2 ^ LENGTH('a)" by simp
  then show ?thesis unfolding word_le_nat_alt unat_sat_add by linarith
qed

lemma hex_digit_hexdigit: "n < 16 \<Longrightarrow> is_ascii_hexdigit (hex_digit n)"
proof -
  assume "n < 16"
  then have "n \<in> set [0..<16]" by simp
  moreover have "\<forall>n \<in> set [0..<16]. is_ascii_hexdigit (hex_digit n)" by code_simp
  ultimately show ?thesis by blast
qed

lemma length_dec_lt100: "10 \<le> n \<Longrightarrow> n < 100 \<Longrightarrow> length (dec n) = 2"
proof -
  assume "10 \<le> n" and "n < 100"
  then have "n div 10 < 10" by linarith
  with \<open>10 \<le> n\<close> show ?thesis by (simp add: dec.simps [of n] dec.simps [of "n div 10"])
qed

lemma slice_append_left: "b \<le> length xs \<Longrightarrow> slice (xs @ ys) a b = slice xs a b"
  by (cases "a \<le> length xs") (auto simp: slice_def)

lemma slice_take: "b \<le> k \<Longrightarrow> slice (take k xs) a b = slice xs a b"
  by (simp add: slice_def drop_take min_def)

lemma u16_to_be_be: "u16_to_be (u16_be a b) = [a, b]"
  using unat_u8_lt [of b] by (simp add: u16_to_be_def)

lemma u16_be_split [simp]: "u16_be (of_nat (unat v div 256)) (of_nat (unat v mod 256)) = v"
  using u16_be_to_be [of v] by (simp add: u16_to_be_def)

lemma u16_to_be_Cons: "u16_to_be v @ xs = of_nat (unat v div 256) # of_nat (unat v mod 256) # xs"
  by (simp add: u16_to_be_def)

lemma take_of_prefix: "prefix xs ys \<Longrightarrow> take n xs = take (min n (length xs)) ys"
  by (auto simp: prefix_def min_def)

lemma utf8_step_snoc:
  "utf8_step ((x # xs) @ [b]) = Some rest \<Longrightarrow> b < 0x80 \<Longrightarrow>
   \<exists>ys. utf8_step (x # xs) = Some ys \<and> rest = ys @ [b]"
proof -
  assume s: "utf8_step ((x # xs) @ [b]) = Some rest" and b: "b < 0x80"
  have nb: "\<not> utf8_cont b" using b by (auto simp: utf8_cont_def)
  show ?thesis
    using s nb by (auto split: if_splits list.splits simp: Cons_eq_append_conv append_eq_Cons_conv)
qed

lemma utf8_run_fuel: "length xs \<le> n \<Longrightarrow> length xs \<le> m \<Longrightarrow> utf8_run n xs = utf8_run m xs"
proof (induction n arbitrary: m xs)
  case (Suc n)
  show ?case
  proof (cases xs)
    case (Cons x ys)
    then obtain m' where m: "m = Suc m'" using Suc(3) by (cases m) auto
    show ?thesis
    proof (cases "utf8_step xs")
      case (Some rest)
      then have "length rest < length xs" by (rule utf8_step_shorter)
      then show ?thesis using Some Suc(1) [of rest m'] Suc(2,3) by (simp add: Cons m)
    qed (simp add: Cons m)
  qed simp
qed simp

lemma utf8_run_snoc: "utf8_run n (xs @ [b]) \<Longrightarrow> b < 0x80 \<Longrightarrow> utf8_run n xs"
proof (induction n arbitrary: xs)
  case (Suc n)
  show ?case
  proof (cases xs)
    case (Cons x ys)
    then obtain rest where rest: "utf8_step ((x # ys) @ [b]) = Some rest" "utf8_run n rest"
      using Suc(2) by (auto split: option.splits)
    then obtain zs where "utf8_step (x # ys) = Some zs" "rest = zs @ [b]"
      using utf8_step_snoc Suc(3) by blast
    then show ?thesis using Suc(1) [of zs] rest(2) Suc(3) by (simp add: Cons)
  qed simp
next
  case 0
  then show ?case by (cases xs) auto
qed

lemma utf8_valid_snoc: "utf8_valid (xs @ [b]) \<Longrightarrow> b < 0x80 \<Longrightarrow> utf8_valid xs"
  unfolding utf8_valid_def using utf8_run_snoc utf8_run_fuel
  by (metis length_append_singleton le_SucI order_refl)

lemma trim_end_matches_split: "\<exists>k. trim_end_matches c xs @ replicate k c = xs"
proof (induction xs)
  case (Cons x xs)
  then obtain k where k: "trim_end_matches c xs @ replicate k c = xs" ..
  show ?case
  proof (cases "trim_end_matches c xs")
    case Nil
    then show ?thesis using k by (cases "x = c") (auto intro: exI [of _ k] exI [of _ "Suc k"])
  next
    case (Cons y ys)
    then show ?thesis using k by (auto intro: exI [of _ k])
  qed
qed simp

lemma trim_end_matches_id: "xs \<noteq> [] \<Longrightarrow> last xs \<noteq> c \<Longrightarrow> trim_end_matches c xs = xs"
  by (induction xs) (auto split: list.splits if_splits)

lemma utf8_valid_append_replicate:
  "utf8_valid (xs @ replicate k c) \<Longrightarrow> c < 0x80 \<Longrightarrow> utf8_valid xs"
proof (induction k)
  case (Suc k)
  have "xs @ replicate (Suc k) c = (xs @ replicate k c) @ [c]"
    by (simp add: replicate_append_same)
  with Suc(2) have "utf8_valid ((xs @ replicate k c) @ [c])" by (simp only:)
  from utf8_valid_snoc [OF this Suc(3)] show ?case by (rule Suc(1)) (rule Suc(3))
qed simp

lemma utf8_valid_trim:
  assumes "utf8_valid xs" "c < 0x80"
  shows "utf8_valid (trim_end_matches c xs)"
proof -
  obtain k where k: "trim_end_matches c xs @ replicate k c = xs"
    using trim_end_matches_split [of c xs] ..
  show ?thesis
    by (rule utf8_valid_append_replicate [of _ k c]) (simp_all only: k assms)
qed

lemma sort_cong_mset: "mset xs = mset ys \<Longrightarrow> sort xs = sort (ys :: 'a :: linorder list)"
  by (metis sorted_list_of_multiset_mset)

lemma mset_eq_short: "mset xs = mset ys \<Longrightarrow> length xs \<le> 1 \<Longrightarrow> xs = ys"
  by (cases xs) auto

lemma u24_split: "n = 65536 * (n div 65536) + (256 * (n div 256 mod 256) + n mod 256)" for n :: nat
proof -
  have "n div 65536 = n div 256 div 256" by (simp flip: div_mult2_eq)
  moreover have "256 * (n div 256 div 256) + n div 256 mod 256 = n div 256" "256 * (n div 256) + n mod 256 = n"
    by (rule mult_div_mod_eq)+
  ultimately show ?thesis by linarith
qed

section \<open>Incremental decoders\<close>

text \<open>Several readers look at a growing buffer until they can decide: \<open>decide\<close> answers
  \<open>None\<close> while more bytes are needed. Its contract is that a decision never changes when
  more bytes arrive; then the chunks in which a stream arrives cannot change the decision.\<close>

locale incremental_decoder =
  fixes decide :: "'a list \<Rightarrow> 'r option"
  assumes stable: "decide xs = Some r \<Longrightarrow> decide (xs @ ys) = Some r"
begin

lemma decide_prefix: "prefix xs ys \<Longrightarrow> decide xs = Some r \<Longrightarrow> decide ys = Some r"
  by (auto simp: prefix_def stable)

lemma decide_agree:
  "prefix xs stream \<Longrightarrow> prefix ys stream \<Longrightarrow> decide xs = Some r \<Longrightarrow> decide ys = Some s \<Longrightarrow> r = s"
  using decide_prefix by (metis option.inject)

lemma undecided_prefix: "prefix xs ys \<Longrightarrow> decide ys = None \<Longrightarrow> decide xs = None"
  using decide_prefix by (cases "decide xs") auto

end

lemma unat_min: "unat (min a b :: 'a::len word) = min (unat a) (unat b)"
  by (simp add: min_def word_le_nat_alt)

lemma unat_max: "unat (max a b :: 'a::len word) = max (unat a) (unat b)"
  by (simp add: max_def word_le_nat_alt)

lemma unat_ucast_u32: "unat (ucast (x :: u32) :: u64) = unat x"
  using unsigned_less [of x, where ?'a = nat] by (simp add: unsigned_ucast_eq take_bit_nat_eq_self)

lemma ucast_ucast_u32: "ucast (ucast (x :: u32) :: u64) = x"
  by (rule bit_word_eqI) (simp add: bit_simps)

lemma unat_power_u64: "k < 64 \<Longrightarrow> unat (2 ^ k :: u64) = 2 ^ k"
  using power_strict_increasing [of k 64 "2 :: nat"] unsigned_of_nat [of "2 ^ k", where ?'a = nat and ?'b = 64]
  by (simp add: take_bit_nat_eq_self)

end
