(* ===== verification/Sni.thy ===== *)
theory Sni
  imports Prelude
begin

text \<open>
  The ClientHello reader of \<open>src/src/sni.rs\<close>: reassembly of the handshake message from TLS
  records (\<open>scan_handshake_records\<close>), the bounds-checked \<open>Parser\<close>, the extraction of SNI and
  of the ALPN offer, and the JA3 and JA4 fingerprints.

  The digests are third-party code (crates \<open>md-5\<close> and \<open>sha2\<close>), so \<open>md5\<close> and \<open>sha256\<close> are
  parameters of the definitions that hash. A socket is seen through the results of its
  successive \<open>peek\<close> calls: a list of \<open>peek_result\<close>s, whose end is the expiry of the
  surrounding \<open>tokio::time::timeout\<close>.
\<close>

section \<open>Definitions\<close>

subsection \<open>Reassembling the handshake message\<close>

definition MAX_CLIENT_HELLO :: nat where
  "MAX_CLIENT_HELLO = 16 * 1024"

definition INITIAL_PEEK :: nat where
  "INITIAL_PEEK = 4096"

record peek_info =
  sni :: "bytes option"
  ja3 :: bytes
  ja4 :: bytes
  complete :: bool
  hello_len :: nat
  offers_h2 :: bool

definition peek_info_default :: peek_info where
  "peek_info_default =
     \<lparr>sni = None, ja3 = [], ja4 = [], complete = False, hello_len = 0, offers_h2 = False\<rparr>"

datatype record_scan =
    Invalid
  | NeedMoreRaw nat
  | Complete bytes nat

text \<open>The check on the handshake header after a record's payload was appended: \<open>None\<close> is the
  early return of \<open>Invalid\<close>, \<open>Some d\<close> the new value of \<open>declared_hs_len\<close>.\<close>

definition learn_declared :: "nat option \<Rightarrow> bytes \<Rightarrow> nat option option" where
  "learn_declared declared hs_buf =
     (if declared = None \<and> hs_buf \<noteq> [] then
        (if hs_buf ! 0 \<noteq> 0x01 then None
         else if 4 \<le> length hs_buf then
           Some (Some (4 + u24_be (hs_buf ! 1) (hs_buf ! 2) (hs_buf ! 3)))
         else Some None)
      else Some declared)"

definition all_declared :: "nat option \<Rightarrow> bytes \<Rightarrow> bool" where
  "all_declared declared hs_buf = (case declared of Some tot \<Rightarrow> tot \<le> length hs_buf | None \<Rightarrow> False)"

function scan_loop :: "bytes \<Rightarrow> nat \<Rightarrow> bytes \<Rightarrow> nat option \<Rightarrow> record_scan" where
  "scan_loop raw offset hs_buf declared =
     (if all_declared declared hs_buf then Complete (take (the declared) hs_buf) offset
      else if offset < length raw \<and> raw ! offset \<noteq> 0x16 then Invalid
      else if length raw < offset + 5 then NeedMoreRaw (offset + 5)
      else
        let record_len = unat (u16_be (raw ! (offset + 3)) (raw ! (offset + 4)));
            record_end = offset + 5 + record_len
        in if length raw < record_end then NeedMoreRaw record_end
           else
             let hs_buf' = hs_buf @ slice raw (offset + 5) record_end
             in case learn_declared declared hs_buf' of
                  None \<Rightarrow> Invalid
                | Some declared' \<Rightarrow> scan_loop raw record_end hs_buf' declared')"
  by pat_completeness auto
termination
  by (relation "measure (\<lambda>(raw, offset, _, _). length raw - offset)") auto

declare scan_loop.simps [simp del]

definition scan_handshake_records :: "bytes \<Rightarrow> record_scan" where
  "scan_handshake_records raw = scan_loop raw 0 [] None"

definition wrap_as_record :: "bytes \<Rightarrow> bytes" where
  "wrap_as_record hs_bytes = [0x16, 0x03, 0x01] @ u16_to_be (of_nat (length hs_bytes)) @ hs_bytes"

subsection \<open>The parser\<close>

record parser =
  buf :: bytes
  pos :: nat

definition parser_new :: "bytes \<Rightarrow> parser" where
  "parser_new b = \<lparr>buf = b, pos = 0\<rparr>"

definition remaining :: "parser \<Rightarrow> nat" where
  "remaining p = length (buf p) - pos p"

definition read_u8 :: "parser \<Rightarrow> (u8 \<times> parser) option" where
  "read_u8 p =
     (if remaining p < 1 then None
      else Some (buf p ! pos p, p\<lparr>pos := pos p + 1\<rparr>))"

definition read_u16 :: "parser \<Rightarrow> (u16 \<times> parser) option" where
  "read_u16 p =
     (if remaining p < 2 then None
      else Some (u16_be (buf p ! pos p) (buf p ! (pos p + 1)), p\<lparr>pos := pos p + 2\<rparr>))"

definition read_u24 :: "parser \<Rightarrow> (u32 \<times> parser) option" where
  "read_u24 p =
     (if remaining p < 3 then None
      else Some (of_nat (u24_be (buf p ! pos p) (buf p ! (pos p + 1)) (buf p ! (pos p + 2))),
                 p\<lparr>pos := pos p + 3\<rparr>))"

definition read_bytes :: "nat \<Rightarrow> parser \<Rightarrow> (bytes \<times> parser) option" where
  "read_bytes n p =
     (if remaining p < n then None
      else Some (slice (buf p) (pos p) (pos p + n), p\<lparr>pos := pos p + n\<rparr>))"

definition skip :: "nat \<Rightarrow> parser \<Rightarrow> parser option" where
  "skip n p = (if remaining p < n then None else Some (p\<lparr>pos := pos p + n\<rparr>))"

record client_hello =
  legacy_version :: u16
  cipher_suites :: bytes
  extensions :: bytes

definition parser_parse_client_hello :: "parser \<Rightarrow> (client_hello \<times> parser) option" where
  "parser_parse_client_hello p0 = do {
     (content_type, p1) \<leftarrow> read_u8 p0;
     if content_type \<noteq> 0x16 then None else do {
     p2 \<leftarrow> skip 2 p1;
     (_, p3) \<leftarrow> read_u16 p2;
     (msg_type, p4) \<leftarrow> read_u8 p3;
     if msg_type \<noteq> 0x01 then None else do {
     (_, p5) \<leftarrow> read_u24 p4;
     (version, p6) \<leftarrow> read_u16 p5;
     p7 \<leftarrow> skip 32 p6;
     (session_id_len, p8) \<leftarrow> read_u8 p7;
     p9 \<leftarrow> skip (unat session_id_len) p8;
     (cs_len, p10) \<leftarrow> read_u16 p9;
     (suites, p11) \<leftarrow> read_bytes (unat cs_len) p10;
     (cm_len, p12) \<leftarrow> read_u8 p11;
     p13 \<leftarrow> skip (unat cm_len) p12;
     if remaining p13 < 2 then
       Some (\<lparr>legacy_version = version, cipher_suites = suites, extensions = []\<rparr>, p13)
     else do {
     (ext_len, p14) \<leftarrow> read_u16 p13;
     (exts, p15) \<leftarrow> read_bytes (min (unat ext_len) (remaining p14)) p14;
     Some (\<lparr>legacy_version = version, cipher_suites = suites, extensions = exts\<rparr>, p15)
     }}}}"

text \<open>The type, length and data of the next extension: the three reads every extension loop
  starts with.\<close>

definition read_ext :: "parser \<Rightarrow> (u16 \<times> bytes \<times> parser) option" where
  "read_ext p = do {
     (ext_type, p1) \<leftarrow> read_u16 p;
     (ext_len, p2) \<leftarrow> read_u16 p1;
     (ext_data, p3) \<leftarrow> read_bytes (unat ext_len) p2;
     Some (ext_type, ext_data, p3)
   }"

subsection \<open>ALPN offer\<close>

lemma read_u8_remaining: "read_u8 p = Some (v, q) \<Longrightarrow> remaining q < remaining p"
  by (auto simp: read_u8_def remaining_def split: if_splits)

lemma read_u16_remaining: "read_u16 p = Some (v, q) \<Longrightarrow> remaining q + 2 = remaining p"
  by (auto simp: read_u16_def remaining_def split: if_splits)

lemma read_bytes_remaining: "read_bytes n p = Some (v, q) \<Longrightarrow> remaining q + n = remaining p"
  by (auto simp: read_bytes_def remaining_def split: if_splits)

lemma read_ext_remaining: "read_ext p = Some (t, d, q) \<Longrightarrow> remaining q < remaining p"
  by (auto simp: read_ext_def dest!: read_u16_remaining read_bytes_remaining
      split: Option.bind_splits prod.splits)

function alpn_protocols_loop :: "parser \<Rightarrow> bool" where
  "alpn_protocols_loop protocols =
     (case read_u8 protocols of
        None \<Rightarrow> False
      | Some (len, protocols1) \<Rightarrow>
          (case read_bytes (unat len) protocols1 of
             None \<Rightarrow> False
           | Some (name, protocols2) \<Rightarrow>
               (if name = str ''h2'' then True else alpn_protocols_loop protocols2)))"
  by pat_completeness auto
termination
  by (relation "measure remaining") (auto dest!: read_u8_remaining read_bytes_remaining)

declare alpn_protocols_loop.simps [simp del]

definition alpn_extension_offers_h2 :: "bytes \<Rightarrow> bool" where
  "alpn_extension_offers_h2 ext_data =
     (case do { (list_len, data) \<leftarrow> read_u16 (parser_new ext_data);
                (lst, _) \<leftarrow> read_bytes (unat list_len) data;
                Some lst } of
        None \<Rightarrow> False
      | Some lst \<Rightarrow> alpn_protocols_loop (parser_new lst))"

function alpn_loop :: "parser \<Rightarrow> bool" where
  "alpn_loop p =
     (case read_ext p of
        None \<Rightarrow> False
      | Some (ext_type, ext_data, p') \<Rightarrow>
          (if ext_type \<noteq> 0x0010 then alpn_loop p' else alpn_extension_offers_h2 ext_data))"
  by pat_completeness auto
termination
  by (relation "measure remaining") (auto dest: read_ext_remaining)

declare alpn_loop.simps [simp del]

definition alpn_offers_h2 :: "bytes \<Rightarrow> bool" where
  "alpn_offers_h2 exts = alpn_loop (parser_new exts)"

subsection \<open>SNI\<close>

text \<open>The validation of a host name entry of the SNI extension.\<close>

definition sni_of_name :: "bytes \<Rightarrow> bytes option" where
  "sni_of_name name_data =
     (if \<not> utf8_valid name_data then None
      else let s = trim_end_matches 0x2E name_data
           in if s = [] \<or> 253 < length s \<or> 0x3A \<in> set s \<or> 0x2F \<in> set s then None else Some s)"

text \<open>The loop over the entries of one SNI extension. \<open>Some r\<close> is \<open>return r\<close> (a \<open>?\<close> on a
  failed read included); \<open>None\<close> is the end of the loop, after which the outer loop goes on.\<close>

function sni_names_loop :: "parser \<Rightarrow> bytes option option" where
  "sni_names_loop sp =
     (if remaining sp < 3 then None
      else case read_u8 sp of
        None \<Rightarrow> Some None
      | Some (name_type, sp1) \<Rightarrow>
          (case read_u16 sp1 of
             None \<Rightarrow> Some None
           | Some (name_len, sp2) \<Rightarrow>
               (case read_bytes (unat name_len) sp2 of
                  None \<Rightarrow> Some None
                | Some (name_data, sp3) \<Rightarrow>
                    (if name_type = 0x00 then Some (sni_of_name name_data)
                     else sni_names_loop sp3))))"
  by pat_completeness auto
termination
  by (relation "measure remaining")
    (auto dest!: read_u8_remaining read_u16_remaining read_bytes_remaining)

declare sni_names_loop.simps [simp del]

function sni_loop :: "parser \<Rightarrow> bytes option" where
  "sni_loop p =
     (if remaining p < 4 then None
      else case read_ext p of
        None \<Rightarrow> None
      | Some (ext_type, ext_data, p') \<Rightarrow>
          (if ext_type \<noteq> 0x0000 then sni_loop p'
           else case read_u16 (parser_new ext_data) of
             None \<Rightarrow> None
           | Some (_, sp) \<Rightarrow>
               (case sni_names_loop sp of
                  Some r \<Rightarrow> r
                | None \<Rightarrow> sni_loop p')))"
  by pat_completeness auto
termination
  by (relation "measure remaining") (auto dest: read_ext_remaining)

declare sni_loop.simps [simp del]

definition extract_sni :: "bytes \<Rightarrow> bytes option" where
  "extract_sni exts = sni_loop (parser_new exts)"

subsection \<open>Fingerprint helpers\<close>

definition is_grease :: "u16 \<Rightarrow> bool" where
  "is_grease v =
     (let lo = (ucast (v AND 0x00FF) :: u8);
          hi = (ucast (drop_bit 8 v AND 0xFF) :: u8)
      in hi = lo \<and> lo AND 0x0F = 0x0A)"

definition bytes_to_hex :: "bytes \<Rightarrow> bytes" where
  "bytes_to_hex bs = concat (map (\<lambda>b. [hex_digit (unat b div 16), hex_digit (unat b mod 16)]) bs)"

definition md5_hex :: "(bytes \<Rightarrow> bytes) \<Rightarrow> bytes \<Rightarrow> bytes" where
  "md5_hex md5 data = bytes_to_hex (md5 data)"

definition sha256_hex12 :: "(bytes \<Rightarrow> bytes) \<Rightarrow> bytes \<Rightarrow> bytes" where
  "sha256_hex12 sha256 data = bytes_to_hex (take 6 (sha256 data))"

definition join_hex4 :: "u16 list \<Rightarrow> bytes" where
  "join_hex4 values = join (str '','') (map hex4 values)"

definition join_u16 :: "u16 list \<Rightarrow> bytes" where
  "join_u16 vals = join (str ''-'') (map (\<lambda>v. dec (unat v)) vals)"

definition join_u8 :: "u8 list \<Rightarrow> bytes" where
  "join_u8 vals = join (str ''-'') (map (\<lambda>v. dec (unat v)) vals)"

text \<open>The \<open>u16\<close> values of a byte list, GREASE values left out (\<open>chunks_exact(2)\<close>, \<open>map\<close>,
  \<open>filter\<close>).\<close>

definition u16s_no_grease :: "bytes \<Rightarrow> u16 list" where
  "u16s_no_grease bs = filter (\<lambda>v. \<not> is_grease v) (map (\<lambda>(a, b). u16_be a b) (chunks2 bs))"

text \<open>The list behind a two-byte length, cut at the end of the data.\<close>

definition counted_list :: "bytes \<Rightarrow> bytes" where
  "counted_list ext_data =
     (if 2 \<le> length ext_data
      then take (unat (u16_be (ext_data ! 0) (ext_data ! 1))) (drop 2 ext_data)
      else [])"

subsection \<open>JA3\<close>

record ja3_acc =
  ext_types :: "u16 list"
  elliptic_curves :: "u16 list"
  ec_point_formats :: "u8 list"

definition ja3_step :: "ja3_acc \<Rightarrow> u16 \<Rightarrow> bytes \<Rightarrow> ja3_acc" where
  "ja3_step acc ext_type ext_data =
     (if is_grease ext_type then acc
      else
        let acc1 = acc\<lparr>ext_types := ext_types acc @ [ext_type]\<rparr>
        in if ext_type = 0x000A then
             acc1\<lparr>elliptic_curves := elliptic_curves acc1 @ u16s_no_grease (counted_list ext_data)\<rparr>
           else if ext_type = 0x000B \<and> ext_data \<noteq> [] then
             acc1\<lparr>ec_point_formats :=
                    ec_point_formats acc1 @ take (unat (ext_data ! 0)) (drop 1 ext_data)\<rparr>
           else acc1)"

function ja3_loop :: "parser \<Rightarrow> ja3_acc \<Rightarrow> ja3_acc" where
  "ja3_loop p acc =
     (if remaining p < 4 then acc
      else case read_ext p of
        None \<Rightarrow> acc
      | Some (ext_type, ext_data, p') \<Rightarrow> ja3_loop p' (ja3_step acc ext_type ext_data))"
  by pat_completeness auto
termination
  by (relation "measure (\<lambda>(p, _). remaining p)") (auto dest: read_ext_remaining)

declare ja3_loop.simps [simp del]

definition ja3_string :: "u16 \<Rightarrow> bytes \<Rightarrow> bytes \<Rightarrow> bytes" where
  "ja3_string version suites exts =
     (let acc = ja3_loop (parser_new exts) \<lparr>ext_types = [], elliptic_curves = [], ec_point_formats = []\<rparr>
      in join (str '','')
           [dec (unat version), join_u16 (u16s_no_grease suites), join_u16 (ext_types acc),
            join_u16 (elliptic_curves acc), join_u8 (ec_point_formats acc)])"

definition compute_ja3 :: "(bytes \<Rightarrow> bytes) \<Rightarrow> u16 \<Rightarrow> bytes \<Rightarrow> bytes \<Rightarrow> bytes" where
  "compute_ja3 md5 version suites exts = md5_hex md5 (ja3_string version suites exts)"

subsection \<open>JA4\<close>

record ja4_acc =
  ext_ids :: "u16 list"
  supported_versions :: "u16 list"
  alpn_first :: "bytes option"
  sig_algs :: "u16 list"

definition ja4_step :: "ja4_acc \<Rightarrow> u16 \<Rightarrow> bytes \<Rightarrow> ja4_acc" where
  "ja4_step acc ext_type ext_data =
     (if is_grease ext_type then acc
      else
        let acc1 = acc\<lparr>ext_ids := ext_ids acc @ [ext_type]\<rparr>
        in if ext_type = 0x002B then
             (case ext_data of
                [] \<Rightarrow> acc1
              | list_len # rest \<Rightarrow>
                  acc1\<lparr>supported_versions :=
                         supported_versions acc1 @ u16s_no_grease (take (unat list_len) rest)\<rparr>)
           else if ext_type = 0x0010 then
             (case counted_list ext_data of
                [] \<Rightarrow> acc1
              | proto_len # rest \<Rightarrow>
                  (if 0 < unat proto_len \<and> unat proto_len < length (proto_len # rest)
                   then acc1\<lparr>alpn_first := Some (take (unat proto_len) rest)\<rparr>
                   else acc1))
           else if ext_type = 0x000D then
             acc1\<lparr>sig_algs := sig_algs acc1 @ u16s_no_grease (counted_list ext_data)\<rparr>
           else acc1)"

function ja4_loop :: "parser \<Rightarrow> ja4_acc \<Rightarrow> ja4_acc" where
  "ja4_loop p acc =
     (if remaining p < 4 then acc
      else case read_ext p of
        None \<Rightarrow> acc
      | Some (ext_type, ext_data, p') \<Rightarrow> ja4_loop p' (ja4_step acc ext_type ext_data))"
  by pat_completeness auto
termination
  by (relation "measure (\<lambda>(p, _). remaining p)") (auto dest: read_ext_remaining)

declare ja4_loop.simps [simp del]

definition ja4_acc_empty :: ja4_acc where
  "ja4_acc_empty = \<lparr>ext_ids = [], supported_versions = [], alpn_first = None, sig_algs = []\<rparr>"

fun max_list :: "u16 list \<Rightarrow> u16 option" where
  "max_list [] = None"
| "max_list (v # vs) = (case max_list vs of None \<Rightarrow> Some v | Some w \<Rightarrow> Some (max v w))"

definition ver_str :: "u16 \<Rightarrow> u16 list \<Rightarrow> bytes" where
  "ver_str version versions =
     (let tls_version = (case max_list versions of Some v \<Rightarrow> v | None \<Rightarrow> version)
      in if tls_version = 0x0304 then str ''13''
         else if tls_version = 0x0303 then str ''12''
         else if tls_version = 0x0302 then str ''11''
         else if tls_version = 0x0301 then str ''10''
         else str ''00'')"

definition alpn_chars :: "bytes option \<Rightarrow> bytes" where
  "alpn_chars proto_first =
     (case proto_first of
        None \<Rightarrow> str ''00''
      | Some proto \<Rightarrow>
          (if proto = [] then str ''00''
           else if is_ascii_alphanumeric (hd proto) \<and> is_ascii_alphanumeric (last proto)
           then [to_ascii_lowercase (hd proto), to_ascii_lowercase (last proto)]
           else let hex = bytes_to_hex proto in [hd hex, last hex]))"

definition ja4_part_a :: "u16 \<Rightarrow> bytes \<Rightarrow> ja4_acc \<Rightarrow> bytes" where
  "ja4_part_a version suites acc =
     str ''t'' @ ver_str version (supported_versions acc) @
     (if 0x0000 \<in> set (ext_ids acc) then str ''d'' else str ''i'') @
     dec02 (min (length (u16s_no_grease suites)) 99) @
     dec02 (min (length (ext_ids acc)) 99) @
     alpn_chars (alpn_first acc)"

definition ja4_part_b :: "(bytes \<Rightarrow> bytes) \<Rightarrow> bytes \<Rightarrow> bytes" where
  "ja4_part_b sha256 suites =
     (let ciphers = sort (u16s_no_grease suites)
      in if ciphers = [] then str ''000000000000'' else sha256_hex12 sha256 (join_hex4 ciphers))"

definition ja4_part_c :: "(bytes \<Rightarrow> bytes) \<Rightarrow> ja4_acc \<Rightarrow> bytes" where
  "ja4_part_c sha256 acc =
     (let ext_for_hash = sort (filter (\<lambda>t. t \<noteq> 0x0000 \<and> t \<noteq> 0x0010) (ext_ids acc));
          ext_str = join_hex4 ext_for_hash;
          hash_input = (if sig_algs acc \<noteq> [] then ext_str @ str ''_'' @ join_hex4 (sig_algs acc)
                        else ext_str)
      in if hash_input = [] then str ''000000000000'' else sha256_hex12 sha256 hash_input)"

definition compute_ja4 :: "(bytes \<Rightarrow> bytes) \<Rightarrow> u16 \<Rightarrow> bytes \<Rightarrow> bytes \<Rightarrow> bytes" where
  "compute_ja4 sha256 version suites exts =
     (let acc = ja4_loop (parser_new exts) ja4_acc_empty
      in ja4_part_a version suites acc @ str ''_'' @ ja4_part_b sha256 suites @ str ''_'' @
         ja4_part_c sha256 acc)"

subsection \<open>Peeking\<close>

definition parse_client_hello :: "(bytes \<Rightarrow> bytes) \<Rightarrow> (bytes \<Rightarrow> bytes) \<Rightarrow> bytes \<Rightarrow> peek_info" where
  "parse_client_hello md5 sha256 b =
     (case parser_parse_client_hello (parser_new b) of
        None \<Rightarrow> peek_info_default
      | Some (hello, _) \<Rightarrow>
          \<lparr>sni = extract_sni (extensions hello),
           ja3 = compute_ja3 md5 (legacy_version hello) (cipher_suites hello) (extensions hello),
           ja4 = compute_ja4 sha256 (legacy_version hello) (cipher_suites hello) (extensions hello),
           complete = False,
           hello_len = 0,
           offers_h2 = alpn_offers_h2 (extensions hello)\<rparr>)"

text \<open>What one \<open>stream.peek\<close> finds: everything the client has sent so far, or an error. The
  call copies at most as many bytes as the buffer holds.\<close>

datatype peek_result = Available bytes | PeekError

datatype reassembly =
    Reassembled "(bytes \<times> nat option) option"
  | TimedOut

fun peek_reassemble :: "nat \<Rightarrow> peek_result list \<Rightarrow> reassembly" where
  "peek_reassemble buf_len [] = TimedOut"
| "peek_reassemble buf_len (PeekError # rest) = Reassembled None"
| "peek_reassemble buf_len (Available sent # rest) =
     (let seen = take buf_len sent
      in if seen = [] then Reassembled None
         else case scan_handshake_records seen of
           Invalid \<Rightarrow> Reassembled None
         | Complete hs wire_len \<Rightarrow> Reassembled (Some (wrap_as_record hs, Some wire_len))
         | NeedMoreRaw target \<Rightarrow>
             (if MAX_CLIENT_HELLO < target then Reassembled (Some (seen, None))
              else peek_reassemble (max buf_len target) rest))"

definition peek_with_timeout ::
    "(bytes \<Rightarrow> bytes) \<Rightarrow> (bytes \<Rightarrow> bytes) \<Rightarrow> peek_result list \<Rightarrow> peek_info" where
  "peek_with_timeout md5 sha256 peeks =
     (case peek_reassemble INITIAL_PEEK peeks of
        Reassembled (Some (b, wire_len)) \<Rightarrow>
          (parse_client_hello md5 sha256 b)
            \<lparr>complete := (wire_len \<noteq> None),
             hello_len := (case wire_len of Some n \<Rightarrow> n | None \<Rightarrow> 0)\<rparr>
      | Reassembled None \<Rightarrow> peek_info_default
      | TimedOut \<Rightarrow> peek_info_default)"

subsection \<open>The wire format the reader is judged against\<close>

text \<open>\<open>record_end\<close> and \<open>next_hs\<close> name two intermediate values of the scan loop.\<close>

definition record_end :: "bytes \<Rightarrow> nat \<Rightarrow> nat" where
  "record_end raw offset = offset + 5 + unat (u16_be (raw ! (offset + 3)) (raw ! (offset + 4)))"

definition next_hs :: "bytes \<Rightarrow> nat \<Rightarrow> bytes \<Rightarrow> bytes" where
  "next_hs raw offset hs_buf = hs_buf @ slice raw (offset + 5) (record_end raw offset)"

text \<open>A TLS handshake record is its two version bytes and its payload; \<open>wire\<close> is the byte stream
  of a record list. \<open>is_hello hs\<close>: \<open>hs\<close> is one ClientHello message of exactly its declared
  length. \<open>fragments recs hs\<close>: \<open>recs\<close> is a shortest record list whose payloads start with \<open>hs\<close>,
  however the message is cut.\<close>

definition scan_decision :: "bytes \<Rightarrow> record_scan option" where
  "scan_decision raw =
     (case scan_handshake_records raw of NeedMoreRaw _ \<Rightarrow> None | r \<Rightarrow> Some r)"

type_synonym tls_record = "u8 \<times> u8 \<times> bytes"

definition record_bytes :: "tls_record \<Rightarrow> bytes" where
  "record_bytes = (\<lambda>(major, minor, payload).
     [0x16, major, minor] @ u16_to_be (of_nat (length payload)) @ payload)"

definition wire :: "tls_record list \<Rightarrow> bytes" where
  "wire recs = concat (map record_bytes recs)"

definition payloads :: "tls_record list \<Rightarrow> bytes" where
  "payloads recs = concat (map (\<lambda>(_, _, payload). payload) recs)"

definition hs_total :: "bytes \<Rightarrow> nat" where
  "hs_total hs = 4 + u24_be (hs ! 1) (hs ! 2) (hs ! 3)"

definition is_hello :: "bytes \<Rightarrow> bool" where
  "is_hello hs \<longleftrightarrow> 4 \<le> length hs \<and> hs ! 0 = 0x01 \<and> length hs = hs_total hs"

definition fragments_after :: "bytes \<Rightarrow> tls_record list \<Rightarrow> bytes \<Rightarrow> bool" where
  "fragments_after sofar recs hs \<longleftrightarrow>
     (\<forall>(_, _, payload) \<in> set recs. length payload < 65536) \<and>
     length hs \<le> length (sofar @ payloads recs) \<and> take (length hs) (sofar @ payloads recs) = hs \<and>
     (recs \<noteq> [] \<longrightarrow> length (sofar @ payloads (butlast recs)) < length hs)"

abbreviation fragments :: "tls_record list \<Rightarrow> bytes \<Rightarrow> bool" where
  "fragments \<equiv> fragments_after []"

text \<open>The loop invariant of \<open>scan_loop\<close> on \<open>hs_buf\<close> and \<open>declared_hs_len\<close>.\<close>

definition header_inv :: "nat option \<Rightarrow> bytes \<Rightarrow> bool" where
  "header_inv declared hs_buf \<longleftrightarrow> (hs_buf \<noteq> [] \<longrightarrow> hs_buf ! 0 = 0x01) \<and>
     declared = (if 4 \<le> length hs_buf then Some (hs_total hs_buf) else None)"

text \<open>What a \<open>peek\<close> may find on a socket whose client sends \<open>stream\<close>: a prefix of it, or an error;
  \<open>data_snapshot_of\<close>: a non-empty prefix.\<close>

definition snapshot_of :: "bytes \<Rightarrow> peek_result \<Rightarrow> bool" where
  "snapshot_of stream p = (case p of Available sent \<Rightarrow> prefix sent stream | PeekError \<Rightarrow> True)"

definition data_snapshot_of :: "bytes \<Rightarrow> peek_result \<Rightarrow> bool" where
  "data_snapshot_of stream p =
     (case p of Available sent \<Rightarrow> sent \<noteq> [] \<and> prefix sent stream | PeekError \<Rightarrow> False)"

definition holds_bytes :: "nat \<Rightarrow> peek_result \<Rightarrow> bool" where
  "holds_bytes n p = (case p of Available sent \<Rightarrow> n \<le> length sent | PeekError \<Rightarrow> False)"

text \<open>A parser between the bytes it has read and those it has not.\<close>

definition cursor :: "bytes \<Rightarrow> bytes \<Rightarrow> parser" where
  "cursor pre suf = \<lparr>buf = pre @ suf, pos = length pre\<rparr>"

text \<open>The extensions that can be read off a byte string, up to the first that cannot.\<close>

function ext_list :: "parser \<Rightarrow> (u16 \<times> bytes) list" where
  "ext_list p = (case read_ext p of None \<Rightarrow> [] | Some (t, d, q) \<Rightarrow> (t, d) # ext_list q)"
  by pat_completeness auto
termination
  by (relation "measure remaining") (auto dest: read_ext_remaining)

declare ext_list.simps [simp del]

definition exts_of :: "bytes \<Rightarrow> (u16 \<times> bytes) list" where
  "exts_of b = ext_list (parser_new b)"

fun sni_of_exts :: "(u16 \<times> bytes) list \<Rightarrow> bytes option" where
  "sni_of_exts [] = None"
| "sni_of_exts ((t, d) # exts) =
     (if t \<noteq> 0x0000 then sni_of_exts exts
      else case read_u16 (parser_new d) of
        None \<Rightarrow> None
      | Some (_, sp) \<Rightarrow> (case sni_names_loop sp of Some r \<Rightarrow> r | None \<Rightarrow> sni_of_exts exts))"

text \<open>The encoding of a ClientHello (RFC 8446, section 4.1.2).\<close>

definition encode_ext :: "u16 \<times> bytes \<Rightarrow> bytes" where
  "encode_ext = (\<lambda>(t, d). u16_to_be t @ u16_to_be (of_nat (length d)) @ d)"

definition encode_exts :: "(u16 \<times> bytes) list \<Rightarrow> bytes" where
  "encode_exts exts = concat (map encode_ext exts)"

record hello_fields =
  h_version :: u16
  h_random :: bytes
  h_session_id :: bytes
  h_suites :: bytes
  h_compression :: bytes
  h_exts :: "(u16 \<times> bytes) list"

definition encode_hello_body :: "hello_fields \<Rightarrow> bytes" where
  "encode_hello_body h =
     u16_to_be (h_version h) @ h_random h @ of_nat (length (h_session_id h)) # h_session_id h @
     u16_to_be (of_nat (length (h_suites h))) @ h_suites h @
     of_nat (length (h_compression h)) # h_compression h @
     u16_to_be (of_nat (length (encode_exts (h_exts h)))) @ encode_exts (h_exts h)"

definition encode_hello :: "hello_fields \<Rightarrow> bytes" where
  "encode_hello h = 0x01 # u24_to_be (length (encode_hello_body h)) @ encode_hello_body h"

definition hello_fields_ok :: "hello_fields \<Rightarrow> bool" where
  "hello_fields_ok h \<longleftrightarrow>
     length (h_random h) = 32 \<and> length (h_session_id h) < 256 \<and> length (h_suites h) < 65536 \<and>
     length (h_compression h) < 256 \<and> length (encode_exts (h_exts h)) < 65536"

text \<open>The parts of the extension list the fingerprints depend on.\<close>

definition nongrease :: "(u16 \<times> bytes) list \<Rightarrow> (u16 \<times> bytes) list" where
  "nongrease es = filter (\<lambda>(t, _). \<not> is_grease t) es"

definition data_of :: "u16 \<Rightarrow> (u16 \<times> bytes) list \<Rightarrow> bytes list" where
  "data_of k es = map snd (filter (\<lambda>(t, _). t = k) es)"

definition versions_in :: "bytes \<Rightarrow> u16 list" where
  "versions_in d = (case d of [] \<Rightarrow> [] | n # rest \<Rightarrow> u16s_no_grease (take (unat n) rest))"

definition first_protocol :: "bytes option \<Rightarrow> bytes \<Rightarrow> bytes option" where
  "first_protocol prev d = (case counted_list d of
      [] \<Rightarrow> prev
    | n # rest \<Rightarrow> (if 0 < unat n \<and> unat n < length (n # rest) then Some (take (unat n) rest) else prev))"

definition point_formats :: "bytes \<Rightarrow> u8 list" where
  "point_formats d = (case d of [] \<Rightarrow> [] | n # rest \<Rightarrow> take (unat n) rest)"

definition valid_sni :: "bytes \<Rightarrow> bool" where
  "valid_sni s \<longleftrightarrow> s \<noteq> [] \<and> length s \<le> 253 \<and> 0x3A \<notin> set s \<and> 0x2F \<notin> set s \<and> last s \<noteq> 0x2E \<and> utf8_valid s"

definition encode_sni :: "bytes \<Rightarrow> u16 \<times> bytes" where
  "encode_sni name = (0x0000, u16_to_be (of_nat (length name + 3)) @ 0x00 # u16_to_be (of_nat (length name)) @ name)"

definition canonical_info :: "(bytes \<Rightarrow> bytes) \<Rightarrow> (bytes \<Rightarrow> bytes) \<Rightarrow> bytes \<Rightarrow> nat \<Rightarrow> peek_info" where
  "canonical_info md5 sha256 hs n =
     (parse_client_hello md5 sha256 (wrap_as_record hs))\<lparr>complete := True, hello_len := n\<rparr>"

section \<open>Lemmas\<close>

subsection \<open>Scanning records\<close>

lemma record_end_gt: "offset + 5 \<le> record_end raw offset"
  by (simp add: record_end_def)

lemma scan_loop_cases:
  obtains (fin) "all_declared declared hs_buf"
      "scan_loop raw offset hs_buf declared = Complete (take (the declared) hs_buf) offset"
    | (bad_type) "\<not> all_declared declared hs_buf" "offset < length raw" "raw ! offset \<noteq> 0x16"
      "scan_loop raw offset hs_buf declared = Invalid"
    | (short_header) "\<not> all_declared declared hs_buf" "offset < length raw \<Longrightarrow> raw ! offset = 0x16"
      "length raw < offset + 5"
      "scan_loop raw offset hs_buf declared = NeedMoreRaw (offset + 5)"
    | (short_payload) "\<not> all_declared declared hs_buf" "raw ! offset = 0x16"
      "offset + 5 \<le> length raw" "length raw < record_end raw offset"
      "scan_loop raw offset hs_buf declared = NeedMoreRaw (record_end raw offset)"
    | (bad_msg) "\<not> all_declared declared hs_buf" "raw ! offset = 0x16"
      "record_end raw offset \<le> length raw" "learn_declared declared (next_hs raw offset hs_buf) = None"
      "scan_loop raw offset hs_buf declared = Invalid"
    | (rec) d where "\<not> all_declared declared hs_buf" "raw ! offset = 0x16"
      "record_end raw offset \<le> length raw"
      "learn_declared declared (next_hs raw offset hs_buf) = Some d"
      "scan_loop raw offset hs_buf declared =
         scan_loop raw (record_end raw offset) (next_hs raw offset hs_buf) d"
proof -
  note u = scan_loop.simps [of raw offset hs_buf declared]
  show thesis
  proof (cases "all_declared declared hs_buf")
    case True
    then show ?thesis by (intro fin) (simp_all add: u)
  next
    case nd: False
    show ?thesis
    proof (cases "record_end raw offset \<le> length raw \<and> raw ! offset = 0x16")
      case True
      then have "offset + 5 \<le> length raw" using record_end_gt [of offset raw] by simp
      then have "scan_loop raw offset hs_buf declared =
          (case learn_declared declared (next_hs raw offset hs_buf) of None \<Rightarrow> Invalid
           | Some d \<Rightarrow> scan_loop raw (record_end raw offset) (next_hs raw offset hs_buf) d)"
        using True nd by (simp add: u Let_def record_end_def next_hs_def split: option.split)
      then show ?thesis using nd True
        by (cases "learn_declared declared (next_hs raw offset hs_buf)") (auto intro: bad_msg rec)
    next
      case False
      then show ?thesis using nd
        by (cases "offset < length raw \<and> raw ! offset \<noteq> 0x16"; cases "length raw < offset + 5")
          (auto simp: u Let_def record_end_def intro: bad_type short_header short_payload)
    qed
  qed
qed

lemma scan_loop_records_induct [case_names step]:
  assumes "\<And>offset hs_buf declared.
     (\<And>d. record_end raw offset \<le> length raw \<Longrightarrow>
        P (record_end raw offset) (next_hs raw offset hs_buf) d) \<Longrightarrow> P offset hs_buf declared"
  shows "P offset hs_buf declared"
proof (induction "length raw - offset" arbitrary: offset hs_buf declared rule: less_induct)
  case less
  show ?case
  proof (rule assms)
    fix d assume "record_end raw offset \<le> length raw"
    then have "length raw - record_end raw offset < length raw - offset"
      using record_end_gt [of offset raw] by simp
    then show "P (record_end raw offset) (next_hs raw offset hs_buf) d" by (rule less)
  qed
qed

lemma record_end_append: "offset + 5 \<le> length raw \<Longrightarrow> record_end (raw @ ys) offset = record_end raw offset"
  by (simp add: record_end_def nth_append)

lemma record_end_take: "offset + 5 \<le> k \<Longrightarrow> k \<le> length raw \<Longrightarrow> record_end (take k raw) offset = record_end raw offset"
  by (simp add: record_end_def)

lemma next_hs_append:
  "record_end raw offset \<le> length raw \<Longrightarrow> next_hs (raw @ ys) offset hs_buf = next_hs raw offset hs_buf"
  using record_end_gt [of offset raw] by (simp add: next_hs_def record_end_append slice_append_left)

lemma scan_loop_append:
  "(\<And>t. scan_loop raw offset hs_buf declared \<noteq> NeedMoreRaw t) \<Longrightarrow>
   scan_loop (raw @ ys) offset hs_buf declared = scan_loop raw offset hs_buf declared"
proof (induction offset hs_buf declared rule: scan_loop_records_induct [where raw = raw])
  case (step offset hs_buf declared)
  have e: "offset + 5 \<le> record_end raw offset" by (rule record_end_gt)
  show ?case
  proof (cases rule: scan_loop_cases [of declared hs_buf raw offset])
    case fin
    then show ?thesis by (simp add: scan_loop.simps [of "raw @ ys" offset])
  next
    case bad_type
    then show ?thesis by (simp add: scan_loop.simps [of "raw @ ys" offset] nth_append)
  next
    case bad_msg
    then show ?thesis using e
      by (cases rule: scan_loop_cases [of declared hs_buf "raw @ ys" offset])
        (auto simp: nth_append record_end_append next_hs_append)
  next
    case (rec d)
    then have "scan_loop (raw @ ys) (record_end raw offset) (next_hs raw offset hs_buf) d =
        scan_loop raw (record_end raw offset) (next_hs raw offset hs_buf) d"
      using step by simp
    then show ?thesis using rec e
      by (cases rule: scan_loop_cases [of declared hs_buf "raw @ ys" offset])
        (auto simp: nth_append record_end_append next_hs_append)
  qed (use step in auto)
qed

text \<open>The scanner is an incremental decoder: neither \<open>Complete\<close> nor \<open>Invalid\<close> is ever revised.\<close>

interpretation scan: incremental_decoder scan_decision
proof unfold_locales
  fix raw r ys
  assume "scan_decision raw = Some r"
  then show "scan_decision (raw @ ys) = Some r"
    using scan_loop_append [of raw 0 "[]" None ys]
    by (auto simp: scan_decision_def scan_handshake_records_def split: record_scan.splits)
qed

lemma scan_loop_NeedMoreRaw:
  "scan_loop raw offset hs_buf declared = NeedMoreRaw t \<Longrightarrow> length raw < t"
proof (induction offset hs_buf declared rule: scan_loop_records_induct [where raw = raw])
  case (step offset hs_buf declared)
  then show ?case by (cases rule: scan_loop_cases [of declared hs_buf raw offset]) auto
qed

lemma scan_loop_Complete_ge:
  "scan_loop raw offset hs_buf declared = Complete hs n \<Longrightarrow> offset \<le> n"
proof (induction offset hs_buf declared rule: scan_loop_records_induct [where raw = raw])
  case (step offset hs_buf declared)
  then show ?case
  proof (cases rule: scan_loop_cases [of declared hs_buf raw offset])
    case (rec d)
    then have "record_end raw offset \<le> n" using step by metis
    then show ?thesis using record_end_gt [of offset raw] by simp
  qed auto
qed

lemma scan_loop_take:
  assumes "k \<le> length raw"
  shows "scan_loop raw offset hs_buf declared = Complete hs n \<Longrightarrow> offset \<le> k \<Longrightarrow> k < n \<Longrightarrow>
   \<exists>t. scan_loop (take k raw) offset hs_buf declared = NeedMoreRaw t \<and> k < t \<and> t \<le> n"
proof (induction offset hs_buf declared rule: scan_loop_records_induct [where raw = raw])
  case (step offset hs_buf declared)
  show ?case
  proof (cases rule: scan_loop_cases [of declared hs_buf raw offset])
    case (rec d)
    have len: "length (take k raw) = k" using assms by simp
    have e: "offset + 5 \<le> record_end raw offset" by (rule record_end_gt)
    have n: "record_end raw offset \<le> n"
      using rec(5) step(2) scan_loop_Complete_ge by metis
    show ?thesis
    proof (cases "record_end raw offset \<le> k")
      case True
      have re: "record_end (take k raw) offset = record_end raw offset"
        using True e assms by (simp add: record_end_take)
      have nh: "next_hs (take k raw) offset hs_buf = next_hs raw offset hs_buf"
        using True by (simp add: next_hs_def re slice_take)
      have "scan_loop (take k raw) offset hs_buf declared =
          scan_loop (take k raw) (record_end raw offset) (next_hs raw offset hs_buf) d"
        by (rule scan_loop_cases [of declared hs_buf "take k raw" offset])
          (use rec True e in \<open>auto simp: re nh len\<close>)
      then show ?thesis using step(1) [OF rec(3)] step(2-) rec(5) True by simp
    next
      case False
      then have "\<not> record_end (take k raw) offset \<le> k"
        using record_end_take [of offset k raw] record_end_gt [of offset "take k raw"] assms by linarith
      then show ?thesis
        by (cases rule: scan_loop_cases [of declared hs_buf "take k raw" offset])
          (use rec e n step(3) assms in \<open>auto simp: len record_end_take\<close>)
    qed
  qed (use step in auto)
qed

lemma wire_simps [simp]: "wire [] = []" "wire (r # rs) = record_bytes r @ wire rs"
  "payloads [] = []" "payloads ((a, b, p) # rs) = p @ payloads rs"
  by (simp_all add: wire_def payloads_def)

lemma hs_total_append: "4 \<le> length xs \<Longrightarrow> hs_total (xs @ ys) = hs_total xs"
  by (simp add: hs_total_def nth_append)

lemma hs_total_take: "4 \<le> n \<Longrightarrow> 4 \<le> length xs \<Longrightarrow> hs_total (take n xs) = hs_total xs"
  by (simp add: hs_total_def)

lemma header_inv_empty: "header_inv None []"
  by (simp add: header_inv_def)

lemma learn_declared_inv:
  assumes "header_inv declared hs_buf"
  shows "learn_declared declared (hs_buf @ p) = Some d \<Longrightarrow> header_inv d (hs_buf @ p)"
    and "learn_declared declared (hs_buf @ p) = None \<longleftrightarrow> hs_buf = [] \<and> p \<noteq> [] \<and> p ! 0 \<noteq> 0x01"
  using assms
  by (auto simp: header_inv_def learn_declared_def hs_total_append nth_append hs_total_def
      split: if_splits)

lemma length_record_bytes: "length (record_bytes (a, b, p)) = 5 + length p"
  by (simp add: record_bytes_def)

lemma record_end_record:
  "length p < 65536 \<Longrightarrow> record_end (pre @ record_bytes (a, b, p) @ rest) (length pre) = length pre + 5 + length p"
  by (simp add: record_end_def record_bytes_def nth_append u16_to_be_def unat_of_nat)

lemma next_hs_record:
  "length p < 65536 \<Longrightarrow> next_hs (pre @ record_bytes (a, b, p) @ rest) (length pre) hs_buf = hs_buf @ p"
  by (simp add: next_hs_def record_end_record slice_def) (simp add: record_bytes_def u16_to_be_def)

lemma all_declared_iff:
  "header_inv declared hs_buf \<Longrightarrow>
   all_declared declared hs_buf \<longleftrightarrow> 4 \<le> length hs_buf \<and> hs_total hs_buf \<le> length hs_buf"
  by (auto simp: header_inv_def all_declared_def)

lemma scan_loop_fragments:
  assumes "is_hello hs"
  shows "header_inv declared sofar \<Longrightarrow> fragments_after sofar recs hs \<Longrightarrow>
    scan_loop (pre @ wire recs @ rest) (length pre) sofar declared =
      Complete hs (length pre + length (wire recs))"
proof (induction recs arbitrary: pre sofar declared)
  case Nil
  then have hs: "take (length hs) sofar = hs" "length hs \<le> length sofar"
    by (auto simp: fragments_after_def)
  then have "hs_total sofar = length hs" "4 \<le> length sofar"
    using assms hs_total_take [of "length hs" sofar] by (auto simp: is_hello_def)
  then show ?case using Nil(1) hs
    by (subst scan_loop.simps) (simp add: all_declared_def header_inv_def)
next
  case (Cons r recs)
  obtain a b p where r: "r = (a, b, p)" by (cases r)
  have p: "length p < 65536" and frag: "fragments_after (sofar @ p) recs hs"
    and lt: "length sofar < length hs" and pre_hs: "take (length hs) (sofar @ p @ payloads recs) = hs"
    using Cons(3) by (auto simp: fragments_after_def r split: if_splits)
  let ?raw = "pre @ wire (r # recs) @ rest"
  have raw: "?raw = pre @ record_bytes (a, b, p) @ wire recs @ rest" by (simp add: r)
  have e: "record_end ?raw (length pre) = length pre + 5 + length p"
    unfolding raw by (rule record_end_record [OF p])
  have h: "next_hs ?raw (length pre) sofar = sofar @ p"
    unfolding raw by (rule next_hs_record [OF p])
  have ct: "?raw ! length pre = 0x16" by (simp add: r record_bytes_def nth_append)
  have sofar: "take (length sofar) hs = sofar"
    using lt arg_cong [OF pre_hs, of "take (length sofar)"] by simp
  show ?case
  proof (cases rule: scan_loop_cases [of declared sofar ?raw "length pre"])
    case fin
    then have "4 \<le> length sofar" "hs_total sofar \<le> length sofar"
      using all_declared_iff [OF Cons(2)] by auto
    then have False
      using assms lt sofar hs_total_take [of "length sofar" hs] by (auto simp: is_hello_def)
    then show ?thesis ..
  next
    case bad_msg
    then have "sofar = []" "p \<noteq> []" "p ! 0 \<noteq> 0x01"
      using learn_declared_inv(2) [OF Cons(2)] unfolding h by simp_all
    moreover have "hs ! 0 = 0x01" "0 < length hs" using assms by (auto simp: is_hello_def)
    moreover have "hs ! 0 = (sofar @ p @ payloads recs) ! 0" if "0 < length hs"
      using that by (metis nth_take pre_hs)
    ultimately have False by (simp add: nth_append)
    then show ?thesis ..
  next
    case (rec d)
    have "header_inv d (sofar @ p)"
      using learn_declared_inv(1) [OF Cons(2)] rec(4) unfolding h by blast
    from Cons(1) [OF this frag, of "pre @ record_bytes r"] show ?thesis
      using rec(5) unfolding e h by (simp add: r length_record_bytes add.assoc)
  qed (use ct e in \<open>simp_all add: r length_record_bytes\<close>)
qed

lemma drop_record:
  assumes "raw ! offset = 0x16" "record_end raw offset \<le> length raw"
  shows "drop offset raw =
    record_bytes (raw ! (offset + 1), raw ! (offset + 2), slice raw (offset + 5) (record_end raw offset)) @
    drop (record_end raw offset) raw"
proof -
  let ?e = "record_end raw offset"
  have le: "offset + 5 \<le> length raw" and len: "length (slice raw (offset + 5) ?e) = ?e - (offset + 5)"
    using assms record_end_gt [of offset raw] by (auto simp: slice_def)
  have "drop offset raw = raw ! offset # raw ! (offset + 1) # raw ! (offset + 2) # raw ! (offset + 3) #
      raw ! (offset + 4) # drop (offset + 5) raw"
    using le by (simp add: Cons_nth_drop_Suc numeral_eq_Suc)
  moreover have "u16_to_be (of_nat (?e - (offset + 5))) = [raw ! (offset + 3), raw ! (offset + 4)]"
    by (simp add: record_end_def u16_to_be_be del: unat_u16_be)
  moreover have "drop (offset + 5) raw = slice raw (offset + 5) ?e @ drop ?e raw"
    using record_end_gt [of offset raw] append_take_drop_id [of "?e - (offset + 5)" "drop (offset + 5) raw"]
    by (simp add: slice_def)
  ultimately show ?thesis
    using assms(1) by (simp add: record_bytes_def len)
qed

lemma fragments_afterI:
  assumes "fragments_after (sofar @ p) recs hs" "length p < 65536" "length sofar < length hs"
  shows "fragments_after sofar ((a, b, p) # recs) hs"
  using assms by (auto simp: fragments_after_def)

lemma undeclared_lt:
  assumes "header_inv declared sofar" "\<not> all_declared declared sofar" "is_hello hs"
    "take (length hs) (sofar @ p) = hs"
  shows "length sofar < length hs"
proof (rule ccontr)
  assume ge: "\<not> length sofar < length hs"
  then have "take (length hs) sofar = hs" "4 \<le> length hs" "4 \<le> length sofar"
    using assms by (auto simp: is_hello_def)
  then have "hs_total sofar = hs_total hs"
    using hs_total_take by metis
  then show False
    using assms ge \<open>4 \<le> length sofar\<close> by (auto simp: all_declared_iff is_hello_def)
qed

lemma scan_loop_sound:
  "scan_loop raw offset sofar declared = Complete hs n \<Longrightarrow> header_inv declared sofar \<Longrightarrow>
   offset \<le> length raw \<Longrightarrow>
   is_hello hs \<and> (\<exists>recs. drop offset raw = wire recs @ drop n raw \<and> n = offset + length (wire recs) \<and>
     fragments_after sofar recs hs)"
proof (induction offset sofar declared rule: scan_loop_records_induct [where raw = raw])
  case (step offset sofar declared)
  show ?case
  proof (cases rule: scan_loop_cases [of declared sofar raw offset])
    case fin
    then have hs: "hs = take (hs_total sofar) sofar" "n = offset"
      and le: "4 \<le> length sofar" "hs_total sofar \<le> length sofar"
      using step(2,3) all_declared_iff [OF step(3)] by (auto simp: header_inv_def)
    have "is_hello hs" using le step(3)
      by (auto simp: hs is_hello_def header_inv_def hs_total_take) (auto simp: hs_total_def)
    moreover have "fragments_after sofar [] hs" using le by (simp add: fragments_after_def hs)
    ultimately show ?thesis using hs by (intro conjI exI [of _ "[]"]) simp_all
  next
    case (rec d)
    let ?e = "record_end raw offset" and ?p = "slice raw (offset + 5) (record_end raw offset)"
    have nh: "next_hs raw offset sofar = sofar @ ?p" by (simp add: next_hs_def)
    have "header_inv d (sofar @ ?p)"
      using learn_declared_inv(1) [OF step(3)] rec(4) unfolding nh by blast
    then obtain recs where hello: "is_hello hs" and recs: "drop ?e raw = wire recs @ drop n raw"
      "n = ?e + length (wire recs)" "fragments_after (sofar @ ?p) recs hs"
      using step(1) [OF rec(3)] step(2) rec(3,5) unfolding nh by metis
    have len: "length ?p = ?e - (offset + 5)" using rec(3) by (simp add: slice_def)
    have "length ?p < 65536"
      unfolding len by (simp add: record_end_def del: unat_u16_be) (rule unat_u16_lt)
    moreover have "length sofar < length hs"
      by (rule undeclared_lt [OF step(3) rec(1) hello, of "?p @ payloads recs"])
        (use recs(3) in \<open>simp add: fragments_after_def\<close>)
    ultimately have "fragments_after sofar ((raw ! (offset + 1), raw ! (offset + 2), ?p) # recs) hs"
      using recs(3) by (blast intro: fragments_afterI)
    moreover have "drop offset raw =
        wire ((raw ! (offset + 1), raw ! (offset + 2), ?p) # recs) @ drop n raw"
      using drop_record [OF rec(2,3)] recs(1) by simp
    moreover have "n = offset + length (wire ((raw ! (offset + 1), raw ! (offset + 2), ?p) # recs))"
      using recs(2) record_end_gt [of offset raw] by (simp add: length_record_bytes len)
    ultimately show ?thesis using hello by blast
  qed (use step in auto)
qed

lemma scan_handshake_records_Complete_iff:
  "scan_handshake_records raw = Complete hs n \<longleftrightarrow>
   is_hello hs \<and> (\<exists>recs rest. raw = wire recs @ rest \<and> n = length (wire recs) \<and> fragments recs hs)"
proof
  assume "scan_handshake_records raw = Complete hs n"
  then show "is_hello hs \<and> (\<exists>recs rest. raw = wire recs @ rest \<and> n = length (wire recs) \<and> fragments recs hs)"
    using scan_loop_sound [of raw 0 "[]" None hs n] header_inv_empty
    by (auto simp: scan_handshake_records_def)
next
  assume "is_hello hs \<and> (\<exists>recs rest. raw = wire recs @ rest \<and> n = length (wire recs) \<and> fragments recs hs)"
  then show "scan_handshake_records raw = Complete hs n"
    using scan_loop_fragments [OF _ header_inv_empty, of hs _ "[]"]
    by (auto simp: scan_handshake_records_def)
qed

lemma scan_handshake_records_complete:
  "is_hello hs \<Longrightarrow> fragments recs hs \<Longrightarrow>
   scan_handshake_records (wire recs @ rest) = Complete hs (length (wire recs))"
  using scan_loop_fragments [OF _ header_inv_empty, of hs recs "[]"]
  by (auto simp: scan_handshake_records_def)

lemma scan_handshake_records_take:
  assumes "is_hello hs" "fragments recs hs" "k < length (wire recs)"
  shows "\<exists>t. scan_handshake_records (take k (wire recs @ rest)) = NeedMoreRaw t \<and>
           k < t \<and> t \<le> length (wire recs)"
  using scan_loop_take [of k "wire recs @ rest" 0 "[]" None hs "length (wire recs)"] assms
    scan_handshake_records_complete [OF assms(1,2), of rest]
  by (auto simp: scan_handshake_records_def)

lemma peek_reassemble_seen:
  "take n sent = seen \<Longrightarrow> peek_reassemble n (Available sent # rest) =
     (if seen = [] then Reassembled None
      else case scan_handshake_records seen of
        Invalid \<Rightarrow> Reassembled None
      | Complete hs wire_len \<Rightarrow> Reassembled (Some (wrap_as_record hs, Some wire_len))
      | NeedMoreRaw target \<Rightarrow>
          (if MAX_CLIENT_HELLO < target then Reassembled (Some (seen, None))
           else peek_reassemble (max n target) rest))"
  by (simp add: Let_def)

lemma peek_reassemble_Complete:
  "peek_reassemble n peeks = Reassembled (Some (b, Some wire_len)) \<Longrightarrow>
   list_all (snapshot_of stream) peeks \<Longrightarrow>
   \<exists>hs. scan_handshake_records stream = Complete hs wire_len \<and> b = wrap_as_record hs"
proof (induction peeks arbitrary: n)
  case (Cons p peeks)
  show ?case
  proof (cases p)
    case (Available sent)
    define seen where "seen = take n sent"
    have "prefix sent stream"
      using Cons(3) Available by (simp add: snapshot_of_def)
    then have "prefix seen stream"
      unfolding seen_def by (meson prefix_order.trans take_is_prefix)
    note r = Cons(2) [unfolded Available peek_reassemble_seen [OF seen_def [symmetric]]]
    show ?thesis
    proof (cases "scan_handshake_records seen")
      case (Complete hs m)
      then have "scan_handshake_records stream = Complete hs m"
        using scan.decide_prefix [OF \<open>prefix seen stream\<close>, of "Complete hs m"]
        by (simp add: scan_decision_def split: record_scan.splits)
      then show ?thesis using r Complete by (auto split: if_splits)
    qed (use r Cons in \<open>auto split: if_splits\<close>)
  qed (use Cons in auto)
qed auto

lemma peek_reassemble_live:
  assumes hello: "is_hello hs" "fragments recs hs" and cap: "length (wire recs) \<le> MAX_CLIENT_HELLO"
  shows "list_all (data_snapshot_of (wire recs @ rest)) peeks \<Longrightarrow> 0 < n \<Longrightarrow>
    length (wire recs) - n < length (filter (holds_bytes (length (wire recs))) peeks) \<Longrightarrow>
    peek_reassemble n peeks = Reassembled (Some (wrap_as_record hs, Some (length (wire recs))))"
proof (induction peeks arbitrary: n)
  case Nil
  then show ?case by simp
next
  case (Cons p peeks)
  let ?W = "length (wire recs)" and ?w = "wire recs @ rest"
  obtain sent where p: "p = Available sent" "sent \<noteq> []" "prefix sent ?w"
    using Cons(2) by (auto simp: data_snapshot_of_def split: peek_result.splits)
  define k where "k = min n (length sent)"
  have seen: "take n sent = take k ?w"
    using p(3) unfolding k_def by (rule take_of_prefix)
  have nonempty: "take k ?w \<noteq> []" using p(2) Cons(3) by (simp flip: seen del: take_append)
  show ?case
  proof (cases "k < ?W")
    case True
    then obtain t where t: "scan_handshake_records (take k ?w) = NeedMoreRaw t" "k < t" "t \<le> ?W"
      using scan_handshake_records_take [OF hello] by blast
    have "peek_reassemble n (p # peeks) = peek_reassemble (max n t) peeks"
      using t cap nonempty unfolding p(1) peek_reassemble_seen [OF seen] by simp
    also have "\<dots> = Reassembled (Some (wrap_as_record hs, Some ?W))"
      by (rule Cons.IH) (use Cons(2-) p(1) t True in \<open>auto simp: holds_bytes_def k_def split: if_splits\<close>)
    finally show ?thesis .
  next
    case False
    then have "take k ?w = wire recs @ take (k - ?W) rest" by simp
    then have "scan_handshake_records (take k ?w) = Complete hs ?W"
      using scan_handshake_records_complete [OF hello] by simp
    then show ?thesis using nonempty unfolding p(1) peek_reassemble_seen [OF seen] by simp
  qed
qed

subsection \<open>Cursors\<close>

lemma parser_new_cursor: "parser_new b = cursor [] b"
  by (simp add: parser_new_def cursor_def)

lemma remaining_cursor [simp]: "remaining (cursor pre suf) = length suf"
  by (simp add: remaining_def cursor_def)

lemma read_u8_cursor [simp]: "read_u8 (cursor pre (b # suf)) = Some (b, cursor (pre @ [b]) suf)"
  by (simp add: read_u8_def cursor_def remaining_def)

lemma read_u16_cursor [simp]:
  "read_u16 (cursor pre (a # b # suf)) = Some (u16_be a b, cursor (pre @ [a, b]) suf)"
  by (simp add: read_u16_def cursor_def remaining_def nth_append)

lemma read_u24_cursor [simp]:
  "read_u24 (cursor pre (a # b # c # suf)) = Some (of_nat (u24_be a b c), cursor (pre @ [a, b, c]) suf)"
  by (simp add: read_u24_def cursor_def remaining_def nth_append)

lemma read_bytes_cursor [simp]:
  "length xs = n \<Longrightarrow> read_bytes n (cursor pre (xs @ suf)) = Some (xs, cursor (pre @ xs) suf)"
  by (auto simp: read_bytes_def cursor_def remaining_def slice_def)

lemma read_bytes_cursor_end [simp]:
  "read_bytes (length xs) (cursor pre xs) = Some (xs, cursor (pre @ xs) [])"
  using read_bytes_cursor [of xs "length xs" pre "[]"] by simp

lemma skip_cursor [simp]:
  "length xs = n \<Longrightarrow> skip n (cursor pre (xs @ suf)) = Some (cursor (pre @ xs) suf)"
  by (auto simp: skip_def cursor_def remaining_def)

lemma read_none [simp]:
  "remaining p < 1 \<Longrightarrow> read_u8 p = None" "remaining p < 2 \<Longrightarrow> read_u16 p = None"
  by (simp_all add: read_u8_def read_u16_def)

lemma read_ext_remaining4: "read_ext p = Some (t, d, q) \<Longrightarrow> remaining q + 4 \<le> remaining p"
  by (auto simp: read_ext_def dest!: read_u16_remaining read_bytes_remaining
      split: Option.bind_splits prod.splits)

lemma read_ext_short: "remaining p < 4 \<Longrightarrow> read_ext p = None"
  by (cases "read_ext p") (auto dest: read_ext_remaining4)

subsection \<open>The extension list\<close>

lemma ext_list_induct [case_names step]:
  assumes "\<And>p. (\<And>t d q. read_ext p = Some (t, d, q) \<Longrightarrow> P q) \<Longrightarrow> P p"
  shows "P p"
  by (induction p rule: measure_induct_rule [of remaining]) (blast intro: assms read_ext_remaining)

lemma ja3_loop_exts: "ja3_loop p acc = foldl (\<lambda>acc (t, d). ja3_step acc t d) acc (ext_list p)"
proof (induction p arbitrary: acc rule: ext_list_induct)
  case (step p)
  then show ?case
    by (cases "read_ext p") (auto simp: ja3_loop.simps [of p] ext_list.simps [of p] read_ext_short)
qed

lemma ja4_loop_exts: "ja4_loop p acc = foldl (\<lambda>acc (t, d). ja4_step acc t d) acc (ext_list p)"
proof (induction p arbitrary: acc rule: ext_list_induct)
  case (step p)
  then show ?case
    by (cases "read_ext p") (auto simp: ja4_loop.simps [of p] ext_list.simps [of p] read_ext_short)
qed

lemma extract_sni_exts: "extract_sni b = sni_of_exts (exts_of b)"
proof -
  have "sni_loop p = sni_of_exts (ext_list p)" for p
  proof (induction p rule: ext_list_induct)
    case (step p)
    then show ?case
      by (cases "read_ext p")
        (auto simp: sni_loop.simps [of p] ext_list.simps [of p] read_ext_short split: option.splits)
  qed
  then show ?thesis by (simp add: extract_sni_def exts_of_def)
qed

lemma alpn_offers_h2_exts:
  "alpn_offers_h2 b = (case find (\<lambda>(t, _). t = 0x0010) (exts_of b) of
      None \<Rightarrow> False | Some (_, d) \<Rightarrow> alpn_extension_offers_h2 d)"
proof -
  have "alpn_loop p = (case find (\<lambda>(t, _). t = 0x0010) (ext_list p) of
      None \<Rightarrow> False | Some (_, d) \<Rightarrow> alpn_extension_offers_h2 d)" for p
  proof (induction p rule: ext_list_induct)
    case (step p)
    then show ?case
      by (cases "read_ext p") (auto simp: alpn_loop.simps [of p] ext_list.simps [of p])
  qed
  then show ?thesis by (simp add: alpn_offers_h2_def exts_of_def)
qed

subsection \<open>Encoding a ClientHello\<close>

lemma read_u16_encoded [simp]:
  "read_u16 (cursor pre (u16_to_be v @ suf)) = Some (v, cursor (pre @ u16_to_be v) suf)"
  by (simp add: u16_to_be_def)

lemma length_encode_ext_le: "(t, d) \<in> set exts \<Longrightarrow> length d \<le> length (encode_exts exts)"
  by (induction exts) (auto simp: encode_exts_def encode_ext_def)

lemma ext_list_encode:
  "length (encode_exts exts) < 65536 \<Longrightarrow> ext_list (cursor pre (encode_exts exts)) = exts"
proof (induction exts arbitrary: pre)
  case Nil
  then show ?case by (simp add: ext_list.simps encode_exts_def read_ext_short)
next
  case (Cons e exts)
  obtain t d where e: "e = (t, d)" by (cases e)
  have d: "length d < 65536" and le: "length (encode_exts exts) < 65536"
    using Cons(2) by (auto simp: encode_exts_def encode_ext_def e)
  have "read_ext (cursor pre (encode_exts (e # exts))) =
      Some (t, d, cursor (pre @ encode_ext e) (encode_exts exts))"
    using d by (simp add: read_ext_def encode_exts_def encode_ext_def e)
  then show ?case using Cons.IH [OF le] by (simp add: ext_list.simps [of "cursor pre _"] e)
qed

lemma exts_of_encode: "length (encode_exts exts) < 65536 \<Longrightarrow> exts_of (encode_exts exts) = exts"
  by (simp add: exts_of_def parser_new_cursor ext_list_encode)

lemma parse_encode_hello:
  assumes "hello_fields_ok h"
  shows "\<exists>p. parser_parse_client_hello (parser_new (wrap_as_record (encode_hello h))) =
    Some (\<lparr>legacy_version = h_version h, cipher_suites = h_suites h, extensions = encode_exts (h_exts h)\<rparr>, p)"
proof -
  have "length (h_random h) = 32" "length (h_session_id h) < 256" "length (h_suites h) < 65536"
     "length (h_compression h) < 256" "length (encode_exts (h_exts h)) < 65536"
    using assms by (auto simp: hello_fields_ok_def)
  then show ?thesis
    by (simp add: parser_parse_client_hello_def parser_new_cursor wrap_as_record_def encode_hello_def
        encode_hello_body_def u24_to_be_def skip_cursor [of "[_, _]" 2, simplified])
qed

subsection \<open>JA4\<close>

lemma data_of_simps [simp]:
  "data_of k [] = []" "data_of k ((t, d) # es) = (if t = k then d # data_of k es else data_of k es)"
  by (simp_all add: data_of_def)

lemma nongrease_simps [simp]:
  "nongrease [] = []" "nongrease ((t, d) # es) = (if is_grease t then nongrease es else (t, d) # nongrease es)"
  by (simp_all add: nongrease_def)

lemma ja4_fold:
  "foldl (\<lambda>acc (t, d). ja4_step acc t d) acc es =
   \<lparr>ext_ids = ext_ids acc @ map fst (nongrease es),
    supported_versions = supported_versions acc @ concat (map versions_in (data_of 0x002B (nongrease es))),
    alpn_first = foldl first_protocol (alpn_first acc) (data_of 0x0010 (nongrease es)),
    sig_algs = sig_algs acc @ concat (map (\<lambda>d. u16s_no_grease (counted_list d)) (data_of 0x000D (nongrease es)))\<rparr>"
  by (induction es arbitrary: acc)
    (auto simp: ja4_step_def versions_in_def first_protocol_def Let_def split: list.splits)

lemma ja4_loop_eq:
  "ja4_loop (parser_new e) ja4_acc_empty =
   (let fs = nongrease (exts_of e) in
    \<lparr>ext_ids = map fst fs,
     supported_versions = concat (map versions_in (data_of 0x002B fs)),
     alpn_first = foldl first_protocol None (data_of 0x0010 fs),
     sig_algs = concat (map (\<lambda>d. u16s_no_grease (counted_list d)) (data_of 0x000D fs))\<rparr>)"
  by (simp add: ja4_loop_exts ja4_fold exts_of_def ja4_acc_empty_def Let_def)

lemma length_data_of: "distinct (map fst es) \<Longrightarrow> length (data_of k es) \<le> 1"
proof (induction es)
  case (Cons e es)
  have "data_of k es = []" if "k \<notin> set (map fst es)" for es :: "(u16 \<times> bytes) list"
    using that by (induction es) auto
  then show ?case using Cons by (cases e) auto
qed simp

lemma data_of_cong:
  assumes "mset es = mset es'" "distinct (map fst es)"
  shows "data_of k es = data_of k es'"
proof (rule mset_eq_short)
  show "mset (data_of k es) = mset (data_of k es')"
    using assms(1) by (simp add: data_of_def)
qed (rule length_data_of [OF assms(2)])

subsection \<open>JA3\<close>

lemma ja3_fold:
  "foldl (\<lambda>acc (t, d). ja3_step acc t d) acc es =
   \<lparr>ext_types = ext_types acc @ map fst (nongrease es),
    elliptic_curves = elliptic_curves acc @
      concat (map (\<lambda>d. u16s_no_grease (counted_list d)) (data_of 0x000A (nongrease es))),
    ec_point_formats = ec_point_formats acc @ concat (map point_formats (data_of 0x000B (nongrease es)))\<rparr>"
  by (induction es arbitrary: acc)
    (auto simp: ja3_step_def point_formats_def Let_def split: list.splits)

subsection \<open>SNI\<close>

lemma sni_of_name_valid: "sni_of_name d = Some s \<Longrightarrow> valid_sni s"
  using trim_end_matches_last [where c = "0x2E" and xs = d] utf8_valid_trim [where c = "0x2E" and xs = d]
  by (auto simp: sni_of_name_def valid_sni_def Let_def split: if_splits)

lemma sni_names_loop_valid: "sni_names_loop sp = Some (Some s) \<Longrightarrow> valid_sni s"
proof (induction sp rule: sni_names_loop.induct)
  case (1 sp)
  then show ?case
    by (simp add: sni_names_loop.simps [of sp] sni_of_name_valid split: if_splits option.splits prod.splits)
qed

lemma sni_of_exts_encode_sni:
  assumes "valid_sni name" "0x0000 \<notin> fst ` set before"
  shows "sni_of_exts (before @ encode_sni name # after) = Some name"
proof -
  have n: "sni_of_name name = Some name"
    using assms(1) by (auto simp: valid_sni_def sni_of_name_def trim_end_matches_id)
  have "sni_names_loop (cursor pre (0x00 # u16_to_be (of_nat (length name)) @ name)) = Some (Some name)" for pre
    using assms(1) n by (simp add: sni_names_loop.simps valid_sni_def unat_of_nat)
  then have "sni_of_exts (encode_sni name # after) = Some name"
    by (simp add: encode_sni_def parser_new_cursor)
  then show ?thesis using assms(2)
    by (induction "before") auto
qed

subsection \<open>Peeking\<close>

lemma peek_complete_cases:
  assumes "complete (peek_with_timeout md5 sha256 peeks)"
  obtains b n where "peek_reassemble INITIAL_PEEK peeks = Reassembled (Some (b, Some n))"
    "peek_with_timeout md5 sha256 peeks =
       (parse_client_hello md5 sha256 b)\<lparr>complete := True, hello_len := n\<rparr>"
  using assms that
  by (auto simp: peek_with_timeout_def peek_info_default_def split: reassembly.splits option.splits)

lemma peek_complete_canonical:
  assumes "list_all (snapshot_of stream) peeks" "complete (peek_with_timeout md5 sha256 peeks)"
  shows "\<exists>recs rest hs. stream = wire recs @ rest \<and> is_hello hs \<and> fragments recs hs \<and>
    peek_with_timeout md5 sha256 peeks = canonical_info md5 sha256 hs (length (wire recs))"
  using assms(2)
proof (rule peek_complete_cases)
  fix b n
  assume "peek_reassemble INITIAL_PEEK peeks = Reassembled (Some (b, Some n))"
  then obtain hs where "scan_handshake_records stream = Complete hs n" and b: "b = wrap_as_record hs"
    using peek_reassemble_Complete assms(1) by blast
  then obtain recs rest where "stream = wire recs @ rest" "is_hello hs" "fragments recs hs"
    "n = length (wire recs)"
    using scan_handshake_records_Complete_iff by blast
  moreover assume "peek_with_timeout md5 sha256 peeks =
      (parse_client_hello md5 sha256 b)\<lparr>complete := True, hello_len := n\<rparr>"
  ultimately show ?thesis using b by (auto simp: canonical_info_def)
qed

lemma peek_canonical:
  assumes "list_all (snapshot_of (wire recs @ rest)) peeks"
    and "is_hello hs" "fragments recs hs"
    and "complete (peek_with_timeout md5 sha256 peeks)"
  shows "peek_with_timeout md5 sha256 peeks = canonical_info md5 sha256 hs (length (wire recs))"
  using assms(4)
proof (rule peek_complete_cases)
  fix b n
  assume "peek_reassemble INITIAL_PEEK peeks = Reassembled (Some (b, Some n))"
  from peek_reassemble_Complete [OF this assms(1)]
  have "b = wrap_as_record hs" "n = length (wire recs)"
    using scan_handshake_records_complete [OF assms(2,3)] by auto
  moreover assume "peek_with_timeout md5 sha256 peeks =
      (parse_client_hello md5 sha256 b)\<lparr>complete := True, hello_len := n\<rparr>"
  ultimately show ?thesis by (simp add: canonical_info_def)
qed

lemma is_hello_encode:
  assumes "hello_fields_ok h"
  shows "is_hello (encode_hello h)"
proof -
  have "length (encode_hello_body h) < 16777216"
    using assms by (simp add: hello_fields_ok_def encode_hello_body_def)
  then show ?thesis
    by (simp add: is_hello_def encode_hello_def hs_total_def u24_to_be_def u24_be_def unat_of_nat flip: u24_split)
qed

lemma peek_encoded:
  assumes "hello_fields_ok h" "fragments recs (encode_hello h)"
    and "length (wire recs) \<le> MAX_CLIENT_HELLO"
    and "list_all (data_snapshot_of (wire recs @ rest)) peeks"
    and "length (wire recs) - INITIAL_PEEK < length (filter (holds_bytes (length (wire recs))) peeks)"
  shows "peek_with_timeout md5 sha256 peeks =
    \<lparr>sni = sni_of_exts (h_exts h),
     ja3 = compute_ja3 md5 (h_version h) (h_suites h) (encode_exts (h_exts h)),
     ja4 = compute_ja4 sha256 (h_version h) (h_suites h) (encode_exts (h_exts h)),
     complete = True, hello_len = length (wire recs),
     offers_h2 = (case find (\<lambda>(t, _). t = 0x0010) (h_exts h) of
        None \<Rightarrow> False | Some (_, d) \<Rightarrow> alpn_extension_offers_h2 d)\<rparr>"
proof -
  have "peek_reassemble INITIAL_PEEK peeks =
      Reassembled (Some (wrap_as_record (encode_hello h), Some (length (wire recs))))"
    using peek_reassemble_live [OF is_hello_encode [OF assms(1)] assms(2-4)] assms(5)
    by (simp add: INITIAL_PEEK_def)
  moreover obtain p where
    "parser_parse_client_hello (parser_new (wrap_as_record (encode_hello h))) =
      Some (\<lparr>legacy_version = h_version h, cipher_suites = h_suites h,
             extensions = encode_exts (h_exts h)\<rparr>, p)"
    using parse_encode_hello [OF assms(1)] ..
  moreover have "exts_of (encode_exts (h_exts h)) = h_exts h"
    using assms(1) by (simp add: hello_fields_ok_def exts_of_encode)
  ultimately show ?thesis
    by (simp add: peek_with_timeout_def parse_client_hello_def extract_sni_exts alpn_offers_h2_exts)
qed

lemma fragments_length_le:
  assumes "fragments recs hs" shows "length hs \<le> length (wire recs)"
proof -
  have "length (payloads recs) \<le> length (wire recs)"
    by (induction recs) (auto simp: length_record_bytes)
  then show ?thesis using assms by (simp add: fragments_after_def)
qed

end
