(* ===== verification/Sni_Properties.thy ===== *)
theory Sni_Properties
  imports Sni
begin

text \<open>
  What the ClientHello reader guarantees: reassembly is exact and independent of how the client
  cuts its message into records and segments, fingerprints and SNI are well defined, the memory
  used is bounded.
\<close>

section \<open>A sample hello for the witnesses\<close>

definition sample_hello :: hello_fields where
  "sample_hello = \<lparr>h_version = 0x0303, h_random = replicate 32 0, h_session_id = [],
     h_suites = [0x0A, 0x0A, 0x13, 0x01, 0xC0, 0x2B], h_compression = [0],
     h_exts = [(0x1A1A, []), encode_sni (str ''a.b''), (0x002B, [2, 3, 4])]\<rparr>"

definition sample_records :: "tls_record list" where
  "sample_records = [(3, 1, take 2 (encode_hello sample_hello)), (3, 1, []),
     (3, 3, drop 2 (encode_hello sample_hello) @ [0xFF])]"

definition sample_peeks :: "peek_result list" where
  "sample_peeks = [Available (take 6 (wire sample_records)), Available (wire sample_records)]"

lemma sample_hello_ok: "hello_fields_ok sample_hello"
  by code_simp

lemma sample_fragments: "fragments sample_records (encode_hello sample_hello)"
  by code_simp

lemma sample_is_hello: "is_hello (encode_hello sample_hello)"
  by (rule is_hello_encode [OF sample_hello_ok])

lemma sample_stream:
  "length (wire sample_records) \<le> MAX_CLIENT_HELLO"
  "list_all (data_snapshot_of (wire sample_records @ [])) sample_peeks"
  "length (wire sample_records) - INITIAL_PEEK <
     length (filter (holds_bytes (length (wire sample_records))) sample_peeks)"
  by code_simp+

section \<open>Properties\<close>

text \<open>C7. Reassembly is exact. The scanner reports \<open>Complete\<close> on the bytes seen so far precisely when
  they start with TLS handshake records whose payloads carry one whole ClientHello message, cut
  anywhere; it returns that message without record headers, and the wire length through the record
  that completes it.\<close>

theorem scan_reassembles_exactly:
  "scan_handshake_records raw = Complete hs n \<longleftrightarrow>
   is_hello hs \<and> (\<exists>recs rest. raw = wire recs @ rest \<and> n = length (wire recs) \<and> fragments recs hs)"
  by (rule scan_handshake_records_Complete_iff)

text \<open>C3. No fingerprint evasion by segmentation. Whatever prefixes of the client's stream the
  successive peeks happen to find, and however the client cuts its hello into records, a result
  marked complete is the parse of the hello itself.\<close>

theorem peek_segmentation:
  assumes "list_all (snapshot_of (wire recs @ rest)) peeks"
    and "is_hello hs" "fragments recs hs"
    and "complete (peek_with_timeout md5 sha256 peeks)"
  shows "peek_with_timeout md5 sha256 peeks = canonical_info md5 sha256 hs (length (wire recs))"
  using assms by (rule peek_canonical)

theorem peek_segmentation_witness:
  "complete (peek_with_timeout id id sample_peeks) \<and>
   peek_with_timeout id id sample_peeks =
     canonical_info id id (encode_hello sample_hello) (length (wire sample_records))"
proof -
  have c: "complete (peek_with_timeout id id sample_peeks)"
    using peek_encoded [OF sample_hello_ok sample_fragments sample_stream] by simp
  have "list_all (snapshot_of (wire sample_records @ [])) sample_peeks"
    by code_simp
  from peek_segmentation [OF this sample_is_hello sample_fragments c] c show ?thesis by blast
qed

text \<open>C8. Every well-formed hello within the size cap is read. If enough peeks find the whole hello
  (one, when it fits the initial buffer), the reader returns, marks the result complete, and reports
  exactly the fields of that hello: its SNI, its fingerprints and its ALPN offer.\<close>

theorem peek_reads_hello:
  assumes "hello_fields_ok h" "fragments recs (encode_hello h)"
    and "length (wire recs) \<le> MAX_CLIENT_HELLO"
    and "list_all (data_snapshot_of (wire recs @ rest)) peeks"
    and "length (wire recs) - INITIAL_PEEK < length (filter (holds_bytes (length (wire recs))) peeks)"
  shows "peek_with_timeout md5 sha256 peeks =
    \<lparr>sni = sni_of_exts (h_exts h),
     ja3 = compute_ja3 md5 (h_version h) (h_suites h) (encode_exts (h_exts h)),
     ja4 = compute_ja4 sha256 (h_version h) (h_suites h) (encode_exts (h_exts h)),
     complete = True, hello_len = length (wire recs),
     offers_h2 = (case find (\<lambda>(t, _). t = 0x0010) (h_exts h) of
        None \<Rightarrow> False | Some (_, d) \<Rightarrow> alpn_extension_offers_h2 d)\<rparr>"
  using assms by (rule peek_encoded)

theorem peek_reads_hello_witness:
  "sni (peek_with_timeout id id sample_peeks) = Some (str ''a.b'')"
proof -
  from peek_reads_hello [OF sample_hello_ok sample_fragments sample_stream]
  have "sni (peek_with_timeout id id sample_peeks) = sni_of_exts (h_exts sample_hello)" by simp
  also have "\<dots> = Some (str ''a.b'')" by code_simp
  finally show ?thesis .
qed

text \<open>What JA4 can see of an extension: its type, and without GREASE values the versions it supports (\<open>0x002B\<close>)
  or the signature algorithms it lists (\<open>0x000D\<close>); of the protocols (\<open>0x0010\<close>) everything, of others nothing.\<close>

definition without_grease :: "bytes \<Rightarrow> u16 list" where
  "without_grease bs = filter (\<lambda>v. \<not> is_grease v) (map (\<lambda>(a, b). u16_be a b) (chunks2 bs))"

definition ja4_view :: "u16 \<times> bytes \<Rightarrow> u16 \<times> u16 list \<times> bytes" where
  "ja4_view = (\<lambda>(t, d). (t,
     if t = 0x002B then (case d of [] \<Rightarrow> ([], []) | n # vs \<Rightarrow> (without_grease (take (unat n) vs), []))
     else if t = 0x000D then (without_grease (counted_list d), [])
     else if t = 0x0010 then ([], d)
     else ([], [])))"

lemma view_of_data:
  "map snd (filter (\<lambda>(t, _). t = k) (map ja4_view es)) = map (\<lambda>d. snd (ja4_view (k, d))) (data_of k es)"
  by (induction es) (auto simp: data_of_def ja4_view_def)

lemma ja4_view_cong:
  assumes "mset (map ja4_view es) = mset (map ja4_view es')" "distinct (map fst es)"
  shows "mset (map fst es) = mset (map fst es')"
    "map (\<lambda>d. snd (ja4_view (k, d))) (data_of k es) = map (\<lambda>d. snd (ja4_view (k, d))) (data_of k es')"
proof -
  have "map fst (map ja4_view es) = map fst es" for es by (simp add: ja4_view_def case_prod_unfold)
  then show "mset (map fst es) = mset (map fst es')" using assms(1) by (metis mset_map)
  have "mset (map (\<lambda>d. snd (ja4_view (k, d))) (data_of k es)) = mset (map (\<lambda>d. snd (ja4_view (k, d))) (data_of k es'))"
    unfolding view_of_data [symmetric] using assms(1) by (simp only: mset_map mset_filter)
  then show "map (\<lambda>d. snd (ja4_view (k, d))) (data_of k es) = map (\<lambda>d. snd (ja4_view (k, d))) (data_of k es')"
    by (rule mset_eq_short) (use length_data_of [OF assms(2), of k] in simp)
qed

lemma ja4_view_data:
  "map versions_in ds = map fst (map (\<lambda>d. snd (ja4_view (0x002B, d))) ds)"
  "map (\<lambda>d. u16s_no_grease (counted_list d)) ds = map fst (map (\<lambda>d. snd (ja4_view (0x000D, d))) ds)"
  "ds = map snd (map (\<lambda>d. snd (ja4_view (0x0010, d))) ds)"
  by (induction ds)
    (auto simp: ja4_view_def versions_in_def u16s_no_grease_def without_grease_def split: list.split)

text \<open>C10. JA4 is canonical. Two hellos whose extensions are pairwise distinct have the same JA4 fingerprint when they
  differ only in the order of their cipher suites, in the order of their extensions, in the contents of extensions
  JA4 does not read, and in GREASE values, be it among the cipher suites, the extension types, the supported versions
  or the signature algorithms.\<close>

theorem compute_ja4_canonical:
  assumes exts: "mset (map ja4_view (nongrease (exts_of e))) = mset (map ja4_view (nongrease (exts_of e')))"
    and distinct: "distinct (map fst (nongrease (exts_of e)))"
    and suites: "mset (without_grease s) = mset (without_grease s')"
  shows "compute_ja4 sha256 v s e = compute_ja4 sha256 v s' e'"
proof -
  note c = ja4_view_cong [OF exts distinct]
  have sg: "without_grease = u16s_no_grease" by (simp add: fun_eq_iff without_grease_def u16s_no_grease_def)
  have d: "map versions_in (data_of 0x002B (nongrease (exts_of e))) = map versions_in (data_of 0x002B (nongrease (exts_of e')))"
    "map (\<lambda>d. u16s_no_grease (counted_list d)) (data_of 0x000D (nongrease (exts_of e))) =
     map (\<lambda>d. u16s_no_grease (counted_list d)) (data_of 0x000D (nongrease (exts_of e')))"
    "data_of 0x0010 (nongrease (exts_of e)) = data_of 0x0010 (nongrease (exts_of e'))"
    using c(2) by (simp_all only: ja4_view_data(1,2)) (metis ja4_view_data(3) c(2))
  have len: "length (u16s_no_grease s) = length (u16s_no_grease s')"
    "length (nongrease (exts_of e)) = length (nongrease (exts_of e'))"
    using suites c(1) sg by (metis size_mset length_map)+
  have "ja4_part_a v s (ja4_loop (parser_new e) ja4_acc_empty) =
        ja4_part_a v s' (ja4_loop (parser_new e') ja4_acc_empty)"
    using mset_eq_setD [OF c(1)] by (simp add: ja4_part_a_def ja4_loop_eq Let_def len d)
  moreover have "ja4_part_b sha256 s = ja4_part_b sha256 s'"
    using sort_cong_mset [OF suites] sg by (simp add: ja4_part_b_def)
  moreover have "sort (filter (\<lambda>t. t \<noteq> 0x0000 \<and> t \<noteq> 0x0010) (map fst (nongrease (exts_of e)))) =
      sort (filter (\<lambda>t. t \<noteq> 0x0000 \<and> t \<noteq> 0x0010) (map fst (nongrease (exts_of e'))))"
    by (rule sort_cong_mset) (use c(1) in \<open>simp only: mset_filter\<close>)
  then have "ja4_part_c sha256 (ja4_loop (parser_new e) ja4_acc_empty) =
      ja4_part_c sha256 (ja4_loop (parser_new e') ja4_acc_empty)"
    by (simp only: ja4_part_c_def ja4_loop_eq Let_def d ja4_acc.simps)
  ultimately show ?thesis by (simp add: compute_ja4_def Let_def)
qed

theorem compute_ja4_canonical_witness:
  "compute_ja4 id 0x0303 [0x0A, 0x0A, 0x13, 0x01, 0xC0, 0x2B]
     (encode_exts [(0x000D, [0, 4, 0x1A, 0x1A, 4, 3]), (0x002B, [4, 0x2A, 0x2A, 3, 4])]) =
   compute_ja4 id 0x0303 [0xC0, 0x2B, 0x13, 0x01]
     (encode_exts [(0x002B, [2, 3, 4]), (0x2A2A, []), (0x000D, [0, 2, 4, 3])])"
  by (rule compute_ja4_canonical) code_simp+

text \<open>C15. The SNI handed to the router is a plausible host name: not empty, at most 253 bytes, valid
  UTF-8, without a trailing dot, a colon or a slash.\<close>

theorem extract_sni_valid: "extract_sni b = Some s \<Longrightarrow> valid_sni s"
proof -
  have "sni_of_exts es = Some s \<Longrightarrow> valid_sni s" for es
    by (induction es rule: sni_of_exts.induct)
      (auto split: if_splits option.splits dest: sni_names_loop_valid)
  then show "extract_sni b = Some s \<Longrightarrow> valid_sni s" by (simp add: extract_sni_exts)
qed

theorem extract_sni_valid_witness: "valid_sni (str ''a.b'')"
  by (rule extract_sni_valid [of "encode_exts [encode_sni (str ''a.b.'')]"]) code_simp

text \<open>C16. Memory is bounded: whatever the client sends, the bytes handed to the parser never exceed
  the cap plus one record header.\<close>

theorem peek_reassemble_bounded:
  "n \<le> MAX_CLIENT_HELLO \<Longrightarrow> peek_reassemble n peeks = Reassembled (Some (b, wire_len)) \<Longrightarrow>
   length b \<le> MAX_CLIENT_HELLO + 5"
proof (induction n peeks rule: peek_reassemble.induct)
  case (3 n sent rest)
  define seen where "seen = take n sent"
  have len: "length seen \<le> n" by (simp add: seen_def)
  note r = 3(3) [unfolded peek_reassemble_seen [OF seen_def [symmetric]]]
  show ?case
  proof (cases "scan_handshake_records seen")
    case (Complete hs m)
    then obtain recs ys where "seen = wire recs @ ys" "fragments recs hs"
      using scan_handshake_records_Complete_iff by blast
    then have "length hs \<le> length seen" using fragments_length_le [of recs hs] by simp
    then show ?thesis
      using r Complete len 3(2) by (auto simp: wrap_as_record_def split: if_splits)
  next
    case (NeedMoreRaw t)
    then show ?thesis using r len 3(2) 3(1) [OF seen_def _ NeedMoreRaw]
      by (auto split: if_splits)
  qed (use r in \<open>auto split: if_splits\<close>)
qed auto

theorem peek_reassemble_bounded_witness:
  "length (wrap_as_record (encode_hello sample_hello)) \<le> MAX_CLIENT_HELLO + 5"
proof -
  have "peek_reassemble INITIAL_PEEK sample_peeks =
      Reassembled (Some (wrap_as_record (encode_hello sample_hello), Some (length (wire sample_records))))"
    using peek_reassemble_live [OF sample_is_hello sample_fragments sample_stream(1,2), of INITIAL_PEEK]
      sample_stream(3) by (simp add: INITIAL_PEEK_def)
  then show ?thesis by (rule peek_reassemble_bounded [rotated]) (simp add: INITIAL_PEEK_def MAX_CLIENT_HELLO_def)
qed

text \<open>The JA3 string is what its definition says: version, cipher suites, extension types, groups
  and point formats of the hello, GREASE values left out, whatever the bytes.\<close>

theorem ja3_string_exts:
  "ja3_string v s e =
   (let fs = nongrease (exts_of e) in
    join (str '','')
      [dec (unat v), join_u16 (u16s_no_grease s), join_u16 (map fst fs),
       join_u16 (concat (map (\<lambda>d. u16s_no_grease (counted_list d)) (data_of 0x000A fs))),
       join_u8 (concat (map point_formats (data_of 0x000B fs)))])"
  by (simp add: ja3_string_def ja3_loop_exts ja3_fold exts_of_def Let_def)

lemma peek_reassemble_partial:
  assumes "is_hello hs" "fragments recs hs" "length (wire recs) \<le> MAX_CLIENT_HELLO" "k < length (wire recs)"
  shows "list_all (snapshot_of (take k (wire recs))) peeks \<Longrightarrow>
    peek_reassemble n peeks = TimedOut \<or> peek_reassemble n peeks = Reassembled None"
proof (induction peeks arbitrary: n)
  case (Cons p peeks)
  show ?case
  proof (cases p)
    case (Available sent)
    have "prefix sent (take k (wire recs))" using Cons.prems by (simp add: Available snapshot_of_def)
    then have sent: "sent = take (length sent) (wire recs)" and len: "length sent \<le> k"
      using assms(4) by (auto simp: prefix_def dest: arg_cong [where f = length])
        (metis append_eq_conv_conj append_take_drop_id append.assoc)
    have "take n sent = take (min n (length sent)) (wire recs)"
      by (subst sent) (simp add: min.commute)
    moreover have "min n (length sent) < length (wire recs)" using len assms(4) by simp
    then obtain t where
      "scan_handshake_records (take (min n (length sent)) (wire recs)) = NeedMoreRaw t" "t \<le> length (wire recs)"
      using scan_handshake_records_take [OF assms(1,2), of "min n (length sent)" "[]"] by auto
    ultimately show ?thesis using Cons assms(3)
      by (auto simp: Available Let_def)
  qed simp
qed simp

text \<open>C17. A ClientHello whose records fit the size cap, but of which a part is still missing when the reassembly
  ends, by timeout, by the peer closing or by an error, is not parsed: the result is the default \<open>PeekInfo\<close>, without
  SNI or fingerprint, whatever had been buffered by then. (One that runs over the cap is parsed as far as the cap
  and marked incomplete.)\<close>

theorem partial_hello_unread:
  assumes "is_hello hs" "fragments recs hs" "length (wire recs) \<le> MAX_CLIENT_HELLO"
    and "k < length (wire recs)" "list_all (snapshot_of (take k (wire recs))) peeks"
  shows "peek_with_timeout md5 sha256 peeks = peek_info_default"
  using peek_reassemble_partial [OF assms, of INITIAL_PEEK] by (auto simp: peek_with_timeout_def)

theorem partial_hello_unread_witness:
  "peek_with_timeout id id [Available (take 6 (wire sample_records)), Available (take 66 (wire sample_records))] =
   peek_info_default"
  by (rule partial_hello_unread [OF sample_is_hello sample_fragments sample_stream(1), of 66]) code_simp+

end
