(* ===== verification/Float64.thy ===== *)
theory Float64
  imports Complex_Main Prelude
begin

text \<open>
  The \<open>f64\<close> of the Rust sources: IEEE 754 binary64 with rounding to nearest, ties to even, as a
  rational value plus the special values. \<open>rnd\<close> rounds an exact rational result to the nearest
  representable number, so \<open>f64_mul\<close>, \<open>f64_div\<close>, \<open>f64_add\<close>, \<open>f64_sub\<close> are the correctly rounded
  operations; \<open>f64_to_u32\<close> and its siblings are the saturating \<open>as\<close> casts. The sign of zero is not
  represented: no operation of the sources divides by a zero or reads its sign.

  The lemmas give what the rate limiters rest on: rounding is monotone, it is exact on integers
  below \<open>2 ^ 53\<close>, and its relative error is at most \<open>2 ^ -53\<close> in the normal range.
\<close>

section \<open>Definitions\<close>

datatype f64 = NaN | PosInf | NegInf | Fin rat

fun nlog2 :: "nat \<Rightarrow> nat" where
  "nlog2 n = (if n < 2 then 0 else Suc (nlog2 (n div 2)))"

declare nlog2.simps [simp del]

text \<open>The exponent of a positive rational: \<open>2 powi ilog2 m \<le> m < 2 powi (ilog2 m + 1)\<close>.\<close>

definition ilog2 :: "rat \<Rightarrow> int" where
  "ilog2 m =
     (let (p, q) = quotient_of m;
          k = int (nlog2 (nat p)) - int (nlog2 (nat q))
      in if 2 powi k \<le> m then k else k - 1)"

definition rne :: "rat \<Rightarrow> int" where
  "rne y =
     (let f = \<lfloor>y\<rfloor>; d = y - of_int f
      in if d < 1 / 2 then f else if 1 / 2 < d then f + 1 else if even f then f else f + 1)"

definition grid_exp :: "rat \<Rightarrow> int" where
  "grid_exp m = max (ilog2 m) (- 1022) - 52"

definition rnd_pos :: "rat \<Rightarrow> rat" where
  "rnd_pos m = of_int (rne (m / 2 powi grid_exp m)) * 2 powi grid_exp m"

definition f64_max :: rat where
  "f64_max = 2 powi 1024"

definition rnd :: "rat \<Rightarrow> f64" where
  "rnd x =
     (if x = 0 then Fin 0
      else if 0 < x then (let r = rnd_pos x in if f64_max \<le> r then PosInf else Fin r)
      else (let r = rnd_pos (- x) in if f64_max \<le> r then NegInf else Fin (- r)))"

fun f64_neg :: "f64 \<Rightarrow> f64" where
  "f64_neg NaN = NaN"
| "f64_neg PosInf = NegInf"
| "f64_neg NegInf = PosInf"
| "f64_neg (Fin x) = Fin (- x)"

fun f64_sgn :: "f64 \<Rightarrow> rat" where
  "f64_sgn NaN = 0"
| "f64_sgn PosInf = 1"
| "f64_sgn NegInf = - 1"
| "f64_sgn (Fin x) = sgn x"

definition f64_inf :: "rat \<Rightarrow> f64" where
  "f64_inf s = (if 0 < s then PosInf else if s < 0 then NegInf else NaN)"

fun f64_mul :: "f64 \<Rightarrow> f64 \<Rightarrow> f64" where
  "f64_mul (Fin x) (Fin y) = rnd (x * y)"
| "f64_mul a b = f64_inf (f64_sgn a * f64_sgn b)"

text \<open>Division by a zero is not defined here beyond being infinite or \<open>NaN\<close>; the sources never do it.\<close>

fun f64_div :: "f64 \<Rightarrow> f64 \<Rightarrow> f64" where
  "f64_div (Fin x) (Fin y) = (if y = 0 then f64_inf (sgn x) else rnd (x / y))"
| "f64_div (Fin x) PosInf = Fin 0"
| "f64_div (Fin x) NegInf = Fin 0"
| "f64_div PosInf (Fin y) = (if y < 0 then NegInf else PosInf)"
| "f64_div NegInf (Fin y) = (if y < 0 then PosInf else NegInf)"
| "f64_div _ _ = NaN"

fun f64_add :: "f64 \<Rightarrow> f64 \<Rightarrow> f64" where
  "f64_add (Fin x) (Fin y) = rnd (x + y)"
| "f64_add NaN _ = NaN"
| "f64_add _ NaN = NaN"
| "f64_add PosInf NegInf = NaN"
| "f64_add NegInf PosInf = NaN"
| "f64_add PosInf _ = PosInf"
| "f64_add _ PosInf = PosInf"
| "f64_add NegInf _ = NegInf"
| "f64_add _ NegInf = NegInf"

definition f64_sub :: "f64 \<Rightarrow> f64 \<Rightarrow> f64" where
  "f64_sub a b = f64_add a (f64_neg b)"

fun f64_lt :: "f64 \<Rightarrow> f64 \<Rightarrow> bool" where
  "f64_lt (Fin x) (Fin y) = (x < y)"
| "f64_lt NaN _ = False"
| "f64_lt _ NaN = False"
| "f64_lt NegInf b = (b \<noteq> NegInf)"
| "f64_lt PosInf _ = False"
| "f64_lt (Fin _) b = (b = PosInf)"

definition f64_eq :: "f64 \<Rightarrow> f64 \<Rightarrow> bool" where
  "f64_eq a b \<longleftrightarrow> a \<noteq> NaN \<and> a = b"

definition f64_le :: "f64 \<Rightarrow> f64 \<Rightarrow> bool" where
  "f64_le a b \<longleftrightarrow> f64_lt a b \<or> f64_eq a b"

fun f64_is_finite :: "f64 \<Rightarrow> bool" where
  "f64_is_finite (Fin _) = True"
| "f64_is_finite _ = False"

text \<open>\<open>f64::max\<close> and \<open>f64::min\<close> ignore a \<open>NaN\<close>; \<open>f64::clamp\<close> keeps it.\<close>

definition f64_max_of :: "f64 \<Rightarrow> f64 \<Rightarrow> f64" where
  "f64_max_of a b = (if a = NaN then b else if b = NaN then a else if f64_lt a b then b else a)"

definition f64_min_of :: "f64 \<Rightarrow> f64 \<Rightarrow> f64" where
  "f64_min_of a b = (if a = NaN then b else if b = NaN then a else if f64_lt b a then b else a)"

definition f64_clamp :: "f64 \<Rightarrow> f64 \<Rightarrow> f64 \<Rightarrow> f64" where
  "f64_clamp x lo hi = (if f64_lt x lo then lo else if f64_lt hi x then hi else x)"

text \<open>\<open>f64::round\<close>: half away from zero. The result of rounding a binary64 number is one again.\<close>

fun f64_round :: "f64 \<Rightarrow> f64" where
  "f64_round (Fin x) = Fin (if 0 \<le> x then of_int \<lfloor>x + 1 / 2\<rfloor> else - of_int \<lfloor>- x + 1 / 2\<rfloor>)"
| "f64_round a = a"

text \<open>\<open>as\<close> casts: truncation toward zero, saturating, \<open>NaN\<close> to 0.\<close>

fun f64_to_word :: "f64 \<Rightarrow> 'a::len word" where
  "f64_to_word NaN = 0"
| "f64_to_word PosInf = - 1"
| "f64_to_word NegInf = 0"
| "f64_to_word (Fin x) =
     (if x < 0 then 0
      else if 2 ^ LENGTH('a) \<le> \<lfloor>x\<rfloor> then - 1 else word_of_int \<lfloor>x\<rfloor>)"

abbreviation f64_to_u32 :: "f64 \<Rightarrow> u32" where
  "f64_to_u32 \<equiv> f64_to_word"

abbreviation f64_to_u64 :: "f64 \<Rightarrow> u64" where
  "f64_to_u64 \<equiv> f64_to_word"

text \<open>An integer \<open>as f64\<close>.\<close>

definition f64_of_nat :: "nat \<Rightarrow> f64" where
  "f64_of_nat n = rnd (of_nat n)"

section \<open>Lemmas\<close>

lemma nlog2_bounds: "0 < n \<Longrightarrow> 2 ^ nlog2 n \<le> n \<and> n < 2 * 2 ^ nlog2 n"
proof (induction n rule: nlog2.induct)
  case (1 n)
  show ?case
  proof (cases "n < 2")
    case False
    then have "2 ^ nlog2 (n div 2) \<le> n div 2" "n div 2 < 2 * 2 ^ nlog2 (n div 2)"
      using 1 by auto
    then show ?thesis using False by (subst (1 2) nlog2.simps) auto
  qed (use 1 in \<open>simp add: nlog2.simps\<close>)
qed

lemma powi_pos [simp]: "0 < (2 :: rat) powi k"
  by (simp add: zero_less_power_int)

lemma powi_add2: "(2 :: rat) powi (a + b) = 2 powi a * 2 powi b"
  by (simp add: power_int_add)

lemma powi_mono2: "a \<le> b \<Longrightarrow> (2 :: rat) powi a \<le> 2 powi b"
  by (simp add: power_int_increasing)

lemma ilog2_bounds:
  assumes "0 < m"
  shows "2 powi ilog2 m \<le> m" "m < 2 powi (ilog2 m + 1)"
proof -
  obtain p q where pq: "quotient_of m = (p, q)" by fastforce
  have q: "0 < q" and m: "m = of_int p / of_int q"
    using quotient_of_denom_pos [OF pq] quotient_of_div [OF pq] by auto
  have p: "0 < p" using assms q by (simp add: m zero_less_divide_iff)
  define a where "a = nlog2 (nat p)"
  define b where "b = nlog2 (nat q)"
  have "2 ^ a \<le> nat p" "nat p < 2 * 2 ^ a" "2 ^ b \<le> nat q" "nat q < 2 * 2 ^ b"
    unfolding a_def b_def using nlog2_bounds [of "nat p"] nlog2_bounds [of "nat q"] p q by auto
  then have "(2::int) ^ a \<le> p" "p < 2 * 2 ^ a" "2 ^ b \<le> q" "q < 2 * 2 ^ b"
    using p q by (simp_all add: le_nat_iff nat_less_iff)
  then have "rat_of_int (2 ^ a) \<le> of_int p" "rat_of_int p < of_int (2 * 2 ^ a)"
    "rat_of_int (2 ^ b) \<le> of_int q" "rat_of_int q < of_int (2 * 2 ^ b)"
    by (simp_all only: of_int_le_iff of_int_less_iff)
  then have pr: "(2::rat) ^ a \<le> of_int p" "(of_int p :: rat) < 2 * 2 ^ a"
    and qr: "(2::rat) ^ b \<le> of_int q" "(of_int q :: rat) < 2 * 2 ^ b"
    by simp_all
  define k where "k = int a - int b"
  have pk: "(2::rat) powi k = 2 ^ a / 2 ^ b"
    by (simp add: k_def power_int_diff)
  have q': "0 < (of_int q :: rat)" using q by simp
  have up: "m < 2 * 2 powi k"
  proof -
    have "m < 2 * 2 ^ a / of_int q" unfolding m using pr(2) q' by (simp add: divide_strict_right_mono)
    also have "\<dots> \<le> 2 * 2 ^ a / 2 ^ b" using qr(1) by (simp add: frac_le)
    finally show ?thesis by (simp add: pk)
  qed
  have lo: "2 powi k < 2 * m"
  proof -
    have "(2::rat) ^ a / (2 * 2 ^ b) < 2 ^ a / of_int q"
      using qr(2) q' by (simp add: frac_less2)
    also have "\<dots> \<le> m" unfolding m using pr(1) q' by (simp add: divide_right_mono)
    finally show ?thesis by (simp add: pk)
  qed
  have i: "ilog2 m = (if 2 powi k \<le> m then k else k - 1)"
    by (simp add: ilog2_def pq k_def a_def b_def)
  show "2 powi ilog2 m \<le> m" "m < 2 powi (ilog2 m + 1)"
    using up lo by (auto simp: i powi_add2 power_int_diff split: if_splits)
qed

lemma ilog2_ge: "2 powi k \<le> m \<Longrightarrow> k \<le> ilog2 m"
proof (rule ccontr)
  assume k: "2 powi k \<le> m" and "\<not> k \<le> ilog2 m"
  then have "2 powi (ilog2 m + 1) \<le> (2::rat) powi k" by (intro powi_mono2) simp
  moreover have "0 < m" using k powi_pos [of k] by (meson less_le_trans)
  ultimately show False using ilog2_bounds(2) [of m] k by simp
qed

lemma ilog2_mono: "0 < x \<Longrightarrow> x \<le> y \<Longrightarrow> ilog2 x \<le> ilog2 y"
  using ilog2_bounds(1) [of x] by (intro ilog2_ge) simp

lemma rne_mono: "x \<le> y \<Longrightarrow> rne x \<le> rne y"
proof -
  assume "x \<le> y"
  then have "\<lfloor>x\<rfloor> \<le> \<lfloor>y\<rfloor>" by (rule floor_mono)
  moreover have "rne x \<le> \<lfloor>x\<rfloor> + 1" "\<lfloor>y\<rfloor> \<le> rne y" by (auto simp: rne_def Let_def)
  ultimately show ?thesis using \<open>x \<le> y\<close>
    by (cases "\<lfloor>x\<rfloor> = \<lfloor>y\<rfloor>") (auto simp: rne_def Let_def)
qed

lemma rne_of_int [simp]: "rne (of_int n) = n"
  by (simp add: rne_def)

lemma rne_error: "\<bar>of_int (rne y) - y\<bar> \<le> 1 / 2"
proof -
  define f where "f = (of_int \<lfloor>y\<rfloor> :: rat)"
  have "f \<le> y" "y < f + 1" unfolding f_def by linarith+
  then show ?thesis unfolding rne_def Let_def by (auto simp: abs_if simp flip: f_def)
qed

lemma rne_nonneg: "0 \<le> y \<Longrightarrow> 0 \<le> rne y"
  using rne_mono [of 0 y] rne_of_int [of 0] by simp

lemma rnd_pos_grid:
  assumes "grid_exp m \<le> k"
  shows "2 powi k \<le> m \<Longrightarrow> 2 powi k \<le> rnd_pos m" and "m \<le> 2 powi k \<Longrightarrow> rnd_pos m \<le> 2 powi k"
proof -
  define e where "e = grid_exp m"
  define n where "n = (2::int) ^ nat (k - e)"
  have k: "(2::rat) powi k = of_int n * 2 powi e"
    using assms powi_add2 [of "k - e" e] by (simp add: e_def n_def power_int_def)
  show "2 powi k \<le> rnd_pos m" if "2 powi k \<le> m"
  proof -
    have "of_int n \<le> m / 2 powi e" using that by (simp add: k pos_le_divide_eq)
    then have "n \<le> rne (m / 2 powi e)" using rne_mono rne_of_int by metis
    then show ?thesis unfolding rnd_pos_def e_def [symmetric] k by simp
  qed
  show "rnd_pos m \<le> 2 powi k" if "m \<le> 2 powi k"
  proof -
    have "m / 2 powi e \<le> of_int n" using that by (simp add: k pos_divide_le_eq)
    then have "rne (m / 2 powi e) \<le> n" using rne_mono rne_of_int by metis
    then show ?thesis unfolding rnd_pos_def e_def [symmetric] k by simp
  qed
qed

lemma rnd_pos_mono:
  assumes "0 < x" "x \<le> y"
  shows "rnd_pos x \<le> rnd_pos y"
proof (cases "grid_exp x = grid_exp y")
  case True
  then show ?thesis
    using assms rne_mono [of "x / 2 powi grid_exp y" "y / 2 powi grid_exp y"]
    by (simp add: rnd_pos_def divide_right_mono)
next
  case False
  then have lt: "max (ilog2 x) (- 1022) + 1 \<le> ilog2 y"
    using ilog2_mono [OF assms] by (auto simp: grid_exp_def)
  define k where "k = max (ilog2 x) (- 1022) + 1"
  have "x \<le> 2 powi k"
    using ilog2_bounds(2) [OF assms(1)] powi_mono2 [of "ilog2 x + 1" k] by (simp add: k_def)
  then have "rnd_pos x \<le> 2 powi k" by (intro rnd_pos_grid) (auto simp: grid_exp_def k_def)
  also have "\<dots> \<le> 2 powi ilog2 y" using lt by (intro powi_mono2) (simp add: k_def)
  also have "\<dots> \<le> rnd_pos y"
    using ilog2_bounds(1) [of y] assms lt by (intro rnd_pos_grid) (auto simp: grid_exp_def)
  finally show ?thesis .
qed

lemma rnd_pos_nonneg: "0 < x \<Longrightarrow> 0 \<le> rnd_pos x"
  by (simp add: rnd_pos_def rne_nonneg)

lemma rnd_pos_error: "0 < x \<Longrightarrow> 2 powi (- 1022) \<le> x \<Longrightarrow> \<bar>rnd_pos x - x\<bar> \<le> x * 2 powi (- 53)"
proof -
  assume x: "0 < x" "2 powi (- 1022) \<le> x"
  define e where "e = grid_exp x"
  have e: "e = ilog2 x - 52" using ilog2_ge [OF x(2)] by (simp add: e_def grid_exp_def)
  have "rnd_pos x - x = (of_int (rne (x / 2 powi e)) - x / 2 powi e) * 2 powi e"
    by (simp add: rnd_pos_def left_diff_distrib flip: e_def)
  then have "\<bar>rnd_pos x - x\<bar> = \<bar>of_int (rne (x / 2 powi e)) - x / 2 powi e\<bar> * 2 powi e"
    by (simp add: abs_mult)
  also have "\<dots> \<le> 1 / 2 * 2 powi e"
    by (intro mult_right_mono rne_error) simp
  also have "\<dots> = 2 powi ilog2 x * 2 powi (- 53)"
    using powi_add2 [of "ilog2 x" "- 53"] powi_add2 [of "- 1" e] by (simp add: e algebra_simps)
  also have "\<dots> \<le> x * 2 powi (- 53)"
    using ilog2_bounds(1) [OF x(1)] by (intro mult_right_mono) simp_all
  finally show ?thesis .
qed

subsection \<open>Rounded values\<close>

lemma f64_max_pos: "0 < f64_max"
  by (simp add: f64_max_def)

lemma rnd_pos_cases:
  assumes "0 < x"
  obtains "rnd x = PosInf" "f64_max \<le> rnd_pos x" | "rnd x = Fin (rnd_pos x)" "rnd_pos x < f64_max"
  using assms that by (cases "f64_max \<le> rnd_pos x") (auto simp: rnd_def Let_def)

lemma rnd_zero [simp]: "rnd 0 = Fin 0"
  by (simp add: rnd_def)

definition f64_nonneg :: "f64 \<Rightarrow> bool" where
  "f64_nonneg a = (case a of PosInf \<Rightarrow> True | Fin x \<Rightarrow> 0 \<le> x | _ \<Rightarrow> False)"

lemma f64_nonneg_simps [simp]:
  "f64_nonneg PosInf" "\<not> f64_nonneg NaN" "\<not> f64_nonneg NegInf" "f64_nonneg (Fin x) \<longleftrightarrow> 0 \<le> x"
  by (simp_all add: f64_nonneg_def)

lemma f64_le_simps [simp]:
  "f64_le (Fin x) (Fin y) \<longleftrightarrow> x \<le> y" "f64_le (Fin x) PosInf" "f64_le PosInf PosInf"
  "\<not> f64_le PosInf (Fin x)"
  by (auto simp: f64_le_def f64_eq_def)

lemma rnd_nonneg: "0 \<le> x \<Longrightarrow> f64_nonneg (rnd x)"
  using rnd_pos_nonneg [of x] by (auto simp: rnd_def Let_def)

lemma rnd_mono: "0 \<le> x \<Longrightarrow> x \<le> y \<Longrightarrow> f64_le (rnd x) (rnd y)"
proof (cases "x = 0")
  case True
  assume "0 \<le> x" "x \<le> y"
  then show ?thesis using True rnd_nonneg [of y] by (cases "rnd y") auto
next
  case False
  assume "0 \<le> x" "x \<le> y"
  then show ?thesis using False rnd_pos_mono [of x y] by (auto simp: rnd_def Let_def)
qed

lemma f64_mul_nonneg: "f64_nonneg a \<Longrightarrow> 0 < r \<Longrightarrow> f64_nonneg (f64_mul a (Fin r))"
  by (cases a) (auto simp: f64_inf_def rnd_nonneg)

lemma f64_mul_mono:
  "f64_nonneg a \<Longrightarrow> f64_le a b \<Longrightarrow> 0 < r \<Longrightarrow> f64_le (f64_mul a (Fin r)) (f64_mul b (Fin r))"
proof (cases a; cases b)
  fix x y assume "f64_nonneg a" "f64_le a b" "0 < r" "a = Fin x" "b = Fin y"
  then show "f64_le (f64_mul a (Fin r)) (f64_mul b (Fin r))" by (simp add: rnd_mono)
next
  fix x assume "f64_nonneg a" "0 < r" "a = Fin x" "b = PosInf"
  then show "f64_le (f64_mul a (Fin r)) (f64_mul b (Fin r))"
    using f64_mul_nonneg [of a r] by (cases "f64_mul a (Fin r)") (auto simp: f64_inf_def)
qed (auto simp: f64_inf_def f64_le_def f64_eq_def)

lemma f64_of_nat_nonneg: "f64_nonneg (f64_of_nat n)"
  by (simp add: f64_of_nat_def rnd_nonneg)

lemma f64_of_nat_mono: "m \<le> n \<Longrightarrow> f64_le (f64_of_nat m) (f64_of_nat n)"
  by (simp add: f64_of_nat_def rnd_mono)

lemma unat_f64_to_word_Fin:
  "0 \<le> x \<Longrightarrow> unat (f64_to_word (Fin x) :: 'a::len word) = min (nat \<lfloor>x\<rfloor>) (2 ^ LENGTH('a) - 1)"
proof (cases "2 ^ LENGTH('a) \<le> \<lfloor>x\<rfloor>")
  case True
  assume "0 \<le> x"
  have "2 ^ LENGTH('a) \<le> nat \<lfloor>x\<rfloor>" using True by (simp add: le_nat_iff)
  then have "2 ^ LENGTH('a) - 1 \<le> nat \<lfloor>x\<rfloor>" by linarith
  then show ?thesis using True \<open>0 \<le> x\<close> by (simp add: unat_minus_one_eq min.absorb2)
next
  case False
  assume x: "0 \<le> x"
  then have "nat \<lfloor>x\<rfloor> < 2 ^ LENGTH('a)" using False by (simp add: nat_less_iff)
  then have "nat \<lfloor>x\<rfloor> \<le> 2 ^ LENGTH('a) - 1" by linarith
  then show ?thesis using x False
    by (simp add: unat_eq_nat_uint uint_word_of_int_eq take_bit_eq_mod min.absorb1)
qed

declare f64_to_word.simps(4) [simp del]

lemma unat_f64_to_word_le: "unat (f64_to_word a :: 'a::len word) \<le> 2 ^ LENGTH('a) - 1"
  using unsigned_less [of "f64_to_word a :: 'a word", where ?'a = nat] by linarith

lemma f64_to_word_mono:
  assumes "f64_nonneg a" "f64_le a b"
  shows "unat (f64_to_word a :: 'a::len word) \<le> unat (f64_to_word b :: 'a word)"
proof (cases b)
  case PosInf
  then show ?thesis using unat_f64_to_word_le [of a] by (simp add: unat_minus_one_eq)
next
  case (Fin y)
  then obtain x where "a = Fin x" "0 \<le> x" "x \<le> y" using assms by (cases a) auto
  then show ?thesis using Fin floor_mono [of x y]
    by (simp add: unat_f64_to_word_Fin nat_mono min.coboundedI1)
qed (use assms in \<open>cases a; auto simp: f64_le_def f64_eq_def\<close>)+

subsection \<open>Exact values\<close>

lemma ilog2_lt: "0 < m \<Longrightarrow> m < 2 powi k \<Longrightarrow> ilog2 m < k"
proof (rule ccontr)
  assume m: "0 < m" "m < 2 powi k" and "\<not> ilog2 m < k"
  then have "(2 :: rat) powi k \<le> 2 powi ilog2 m" by (intro powi_mono2) simp
  then show False using ilog2_bounds(1) [OF m(1)] m(2) by simp
qed

lemma rnd_pos_exact:
  assumes "0 < n" "n < 2 ^ 53" "- 1074 \<le> e"
  shows "rnd_pos (of_int n * 2 powi e) = of_int n * 2 powi e"
proof -
  define x :: rat where "x = of_int n * 2 powi e"
  have x: "0 < x" using assms(1) by (simp add: x_def)
  have "rat_of_int n < of_int (2 ^ 53)" using assms(2) by (simp only: of_int_less_iff)
  then have "x < 2 ^ 53 * 2 powi e" by (simp add: x_def)
  also have "\<dots> = 2 powi (53 + e)" by (simp add: powi_add2)
  finally have "ilog2 x < 53 + e" by (rule ilog2_lt [OF x])
  then have g: "grid_exp x \<le> e" using assms(3) by (simp add: grid_exp_def)
  have "x / 2 powi grid_exp x = of_int n * 2 powi (e - grid_exp x)"
    by (simp add: x_def power_int_diff)
  also have "\<dots> = of_int (n * 2 ^ nat (e - grid_exp x))" using g by (simp add: power_int_def)
  finally have "of_int (rne (x / 2 powi grid_exp x)) = x / 2 powi grid_exp x" by (simp only: rne_of_int)
  then show ?thesis by (simp add: rnd_pos_def flip: x_def)
qed

lemma rnd_exact:
  assumes "0 < n" "n < 2 ^ 53" "- 1074 \<le> e" "e \<le> 900" "x = of_int n * 2 powi e"
  shows "rnd x = Fin x"
proof -
  have p: "rnd_pos x = x" using rnd_pos_exact [OF assms(1-3)] assms(5) by simp
  have x: "0 < x" using assms(1,5) by simp
  have "rat_of_int n < of_int (2 ^ 53)" using assms(2) by (simp only: of_int_less_iff)
  then have "x < 2 ^ 53 * 2 powi e" by (simp add: assms(5))
  also have "\<dots> = 2 powi (53 + e)" by (simp add: powi_add2)
  also have "\<dots> \<le> f64_max" unfolding f64_max_def using assms(4) by (intro powi_mono2) simp
  finally show ?thesis using p x by (simp add: rnd_def)
qed

subsection \<open>Error bounds\<close>

definition f64_within :: "rat \<Rightarrow> rat \<Rightarrow> f64 \<Rightarrow> bool" where
  "f64_within l u a = (case a of Fin x \<Rightarrow> l \<le> x \<and> x \<le> u | PosInf \<Rightarrow> f64_max \<le> u | _ \<Rightarrow> False)"

definition f64_eps :: rat where
  "f64_eps = 2 powi (- 53)"

lemma rnd_f64_within:
  assumes "2 powi (- 1022) \<le> x"
  shows "f64_within (x * (1 - f64_eps)) (x * (1 + f64_eps)) (rnd x)"
proof -
  have x: "0 < x" using assms powi_pos [of "- 1022"] by linarith
  have "rnd_pos x \<le> x * (1 + f64_eps)" "x * (1 - f64_eps) \<le> rnd_pos x"
    using abs_le_D1 [OF rnd_pos_error [OF x assms]] abs_le_D2 [OF rnd_pos_error [OF x assms]]
    by (simp_all add: f64_eps_def algebra_simps)
  then show ?thesis using x by (auto simp: f64_within_def elim!: rnd_pos_cases)
qed

lemma f64_mul_within:
  assumes "f64_within l u a" "0 < r" "2 powi (- 1022) \<le> l * r" "1 \<le> r \<or> a \<noteq> PosInf"
  shows "f64_within (l * r * (1 - f64_eps)) (u * r * (1 + f64_eps)) (f64_mul a (Fin r))"
proof (cases a)
  case (Fin x)
  then have x: "l \<le> x" "x \<le> u" using assms(1) by (auto simp: f64_within_def)
  have lx: "l * r \<le> x * r" "x * r \<le> u * r" using x assms(2) by simp_all
  then have "f64_within (x * r * (1 - f64_eps)) (x * r * (1 + f64_eps)) (rnd (x * r))"
    using assms(3) by (intro rnd_f64_within) linarith
  moreover have "x * r * (1 + f64_eps) \<le> u * r * (1 + f64_eps)"
    by (rule mult_right_mono [OF lx(2)]) (simp add: f64_eps_def)
  moreover have "l * r * (1 - f64_eps) \<le> x * r * (1 - f64_eps)"
    by (rule mult_right_mono [OF lx(1)]) (simp add: f64_eps_def)
  ultimately show ?thesis using Fin by (auto simp: f64_within_def split: f64.splits)
next
  case PosInf
  then have u: "f64_max \<le> u" "1 \<le> r" using assms by (auto simp: f64_within_def)
  then have "1 \<le> r * (1 + f64_eps)" using mult_mono [of 1 r 1 "1 + f64_eps"] by (simp add: f64_eps_def)
  then have "f64_max * 1 \<le> u * (r * (1 + f64_eps))"
    using f64_max_pos u by (intro mult_mono) auto
  then show ?thesis using PosInf assms(2) by (simp add: f64_within_def f64_inf_def mult.assoc)
qed (use assms in \<open>auto simp: f64_within_def\<close>)

lemma f64_to_word_zero_within:
  assumes "f64_within l u a" "unat (f64_to_word a :: u32) = 0"
  shows "l < 1"
proof (cases a)
  case (Fin x)
  then have x: "l \<le> x" using assms(1) by (auto simp: f64_within_def)
  show ?thesis
  proof (rule ccontr)
    assume "\<not> l < 1"
    then have "1 \<le> \<lfloor>x\<rfloor>" "0 \<le> x" using x by (simp_all add: le_floor_iff)
    then show False using assms(2) Fin by (simp add: unat_f64_to_word_Fin min_def split: if_splits)
  qed
next
  case PosInf
  then show ?thesis using assms(2) by (simp add: unat_minus_one_eq)
qed (use assms in \<open>auto simp: f64_within_def\<close>)

lemma f64_to_word_within:
  assumes "f64_within l u a" "0 \<le> l"
  shows "of_nat (unat (f64_to_word a :: u32)) \<le> u"
proof (cases a)
  case (Fin x)
  then have x: "l \<le> x" "x \<le> u" using assms(1) by (auto simp: f64_within_def)
  have "rat_of_nat (unat (f64_to_word a :: u32)) \<le> of_nat (nat \<lfloor>x\<rfloor>)"
    unfolding of_nat_le_iff using x assms(2) by (simp add: Fin unat_f64_to_word_Fin)
  also have "\<dots> \<le> x" using x assms(2) by simp
  finally show ?thesis using x by simp
next
  case PosInf
  have "rat_of_nat (unat (f64_to_word a :: u32)) \<le> of_nat 4294967296"
    unfolding of_nat_le_iff using unat_u32_lt [of "f64_to_word a"] by simp
  also have "\<dots> \<le> f64_max" by (simp add: f64_max_def)
  also have "\<dots> \<le> u" using assms PosInf by (simp add: f64_within_def)
  finally show ?thesis .
qed (use assms in \<open>auto simp: f64_within_def\<close>)

lemma rnd_not_NaN: "rnd x \<noteq> NaN"
  by (simp add: rnd_def Let_def)

lemma clamp_Fin:
  assumes "x \<noteq> NaN" "lo \<le> hi"
  shows "\<exists>y. f64_clamp x (Fin lo) (Fin hi) = Fin y \<and> lo \<le> y \<and> y \<le> hi"
  using assms by (cases x) (auto simp: f64_clamp_def)

lemma f64_of_nat_exact: "n < 2 ^ 53 \<Longrightarrow> f64_of_nat n = Fin (of_nat n)"
  using rnd_exact [of "int n" 0 "of_nat n"] by (cases "n = 0") (simp_all add: f64_of_nat_def)

lemma f64_div_not_NaN: "a \<noteq> NaN \<Longrightarrow> y \<noteq> 0 \<Longrightarrow> f64_div a (Fin y) \<noteq> NaN"
  by (cases a) (simp_all add: rnd_not_NaN)

lemma f64_add_not_NaN: "b \<noteq> NaN \<Longrightarrow> f64_add (Fin x) b \<noteq> NaN \<and> f64_sub (Fin x) b \<noteq> NaN"
  by (cases b) (simp_all add: rnd_not_NaN f64_sub_def)

lemma round_bounds:
  assumes "of_nat n - 1 / 2 \<le> z" "z \<le> 1000" "0 < n"
  shows "n \<le> unat (f64_to_u32 (f64_round (Fin z))) \<and> unat (f64_to_u32 (f64_round (Fin z))) \<le> 1000"
proof -
  have z: "0 \<le> z" using assms(1,3) by (cases n) auto
  have "int n \<le> \<lfloor>z + 1 / 2\<rfloor>" using assms(1) by (simp add: le_floor_iff)
  moreover have "\<lfloor>z + 1 / 2\<rfloor> \<le> 1000" using assms(2) by (simp add: floor_le_iff)
  moreover have "0 \<le> \<lfloor>z + 1 / 2\<rfloor>" using z by simp
  ultimately show ?thesis
    using z by (simp add: unat_f64_to_word_Fin) linarith
qed

lemma round_le:
  assumes "0 \<le> x" "x \<le> of_nat n" "n < 2 ^ 32"
  shows "unat (f64_to_u32 (f64_round (Fin x))) \<le> n"
proof -
  have "\<lfloor>x + 1 / 2\<rfloor> \<le> int n" using assms(2) by (simp add: floor_le_iff)
  moreover have "0 \<le> \<lfloor>x + 1 / 2\<rfloor>" using assms(1) by simp
  ultimately show ?thesis using assms by (simp add: unat_f64_to_word_Fin nat_le_iff min_le_iff_disj)
qed

end
