(* ===== verification/TokenBucket.thy ===== *)
theory TokenBucket
  imports Float64
begin

text \<open>
  The contract of a token bucket, shared by the per-IP limiter of \<open>src/src/protection.rs\<close>
  (\<open>refill_and_consume\<close>) and the per-route limiter of \<open>src/src/router.rs\<close>
  (\<open>RouteTokenBucket::try_acquire\<close>). Both count tokens in thousandths (\<open>fixed point\<close>) and refill
  with \<open>(elapsed as f64 * rate * 1000.0) as u32\<close>, modelled by \<open>refill_amount\<close> with the rounding of
  binary64.

  The locale \<open>token_bucket\<close> states what one attempt promises; inside it the rate bound over any
  sequence of attempts is proved once. Both limiters interpret it.
\<close>

section \<open>Definitions\<close>

definition ONE_TOKEN :: u32 where
  "ONE_TOKEN = 1000"

definition refill_amount :: "u64 \<Rightarrow> f64 \<Rightarrow> u32" where
  "refill_amount elapsed rate_per_ns =
     f64_to_u32 (f64_mul (f64_mul (f64_of_nat (unat elapsed)) rate_per_ns) (Fin 1000))"

text \<open>Upper bound, in fixed-point units per nanosecond, of what a rate refills: the rate itself and
  three roundings.\<close>

definition rate_ub :: "rat \<Rightarrow> rat" where
  "rate_ub r = r * 1000 * (1 + f64_eps) ^ 3"

text \<open>A rate for which no rounding of the refill underflows: \<open>1 / 2 ^ 1021\<close> tokens per nanosecond
  or more, which every configured rate that is not absurdly small meets.\<close>

definition normal_rate :: "rat \<Rightarrow> bool" where
  "normal_rate r \<longleftrightarrow> 2 powi (- 1021) \<le> r"

text \<open>A sequence of attempts at the given times.\<close>

fun bucket_run :: "(u64 \<Rightarrow> 's \<Rightarrow> bool \<times> 's) \<Rightarrow> u64 list \<Rightarrow> 's \<Rightarrow> bool list \<times> 's" where
  "bucket_run acq [] s = ([], s)"
| "bucket_run acq (now # ts) s =
     (let (ok, s1) = acq now s; (oks, s2) = bucket_run acq ts s1 in (ok # oks, s2))"

definition granted :: "bool list \<Rightarrow> nat" where
  "granted oks = length (filter id oks)"

section \<open>Refill bounds\<close>

lemma refill_amount_mono:
  "0 < r \<Longrightarrow> unat a \<le> unat b \<Longrightarrow> unat (refill_amount a (Fin r)) \<le> unat (refill_amount b (Fin r))"
  unfolding refill_amount_def
  by (intro f64_to_word_mono f64_mul_mono f64_mul_nonneg f64_of_nat_nonneg f64_of_nat_mono) auto

lemma refill_amount_zero [simp]: "refill_amount 0 (Fin r) = 0"
  by (simp add: refill_amount_def f64_of_nat_def f64_to_word.simps)

lemma refill_value_within:
  assumes e: "0 < unat e" and r: "2 powi (- 1021) \<le> r"
  shows "f64_within (of_nat (unat e) * r * 1000 * (1 - f64_eps) ^ 3) (of_nat (unat e) * rate_ub r)
    (f64_mul (f64_mul (f64_of_nat (unat (e :: u64))) (Fin r)) (Fin 1000))"
proof -
  let ?e = "of_nat (unat e) :: rat" and ?f = "f64_of_nat (unat e)"
  have r0: "0 < r" using r powi_pos [of "- 1021"] by linarith
  have e1: "1 \<le> ?e" using e by (metis of_nat_1 of_nat_le_iff Suc_leI One_nat_def)
  have n: "(2 :: rat) powi (- 1022) \<le> 1" using powi_mono2 [of "- 1022" 0] by simp
  have w1: "f64_within (?e * (1 - f64_eps)) (?e * (1 + f64_eps)) ?f"
    unfolding f64_of_nat_def using e1 n by (intro rnd_f64_within) linarith
  have "?e < 18446744073709551616"
    using unsigned_less [of e, where ?'a = nat] by simp
  then have "?e * (1 + f64_eps) < f64_max"
    by (simp add: f64_eps_def f64_max_def)
  then have fin: "?f \<noteq> PosInf" using w1 by (auto simp: f64_within_def)
  have half: "1 / 2 \<le> 1 - f64_eps" "0 \<le> f64_eps" by (simp_all add: f64_eps_def)
  have le1: "1 / 2 * 1 \<le> ?e * (1 - f64_eps)"
    using e1 half mult_mono [of 1 ?e "1/2" "1 - f64_eps"] by simp
  have "2 powi (- 1022) \<le> 1 / 2 * r" using r powi_add2 [of "- 1" "- 1021"] by simp
  also have "\<dots> \<le> ?e * (1 - f64_eps) * r" using le1 r0 by (intro mult_right_mono) auto
  finally have n2: "2 powi (- 1022) \<le> ?e * (1 - f64_eps) * r" .
  have w2: "f64_within (?e * (1 - f64_eps) * r * (1 - f64_eps)) (?e * (1 + f64_eps) * r * (1 + f64_eps))
      (f64_mul ?f (Fin r))"
    by (rule f64_mul_within [OF w1 r0 n2]) (simp add: fin)
  have "1 \<le> (1 - f64_eps) * 1000" using half by simp
  then have "?e * (1 - f64_eps) * r * 1 \<le> ?e * (1 - f64_eps) * r * ((1 - f64_eps) * 1000)"
    using n2 powi_pos [of "- 1022"] by (intro mult_left_mono) linarith+
  then have "?e * (1 - f64_eps) * r \<le> ?e * (1 - f64_eps) * r * (1 - f64_eps) * 1000"
    by (simp only: mult.assoc mult_1_right)
  with n2 have n3: "2 powi (- 1022) \<le> ?e * (1 - f64_eps) * r * (1 - f64_eps) * 1000"
    by (rule order_trans)
  have "f64_within (?e * (1 - f64_eps) * r * (1 - f64_eps) * 1000 * (1 - f64_eps))
      (?e * (1 + f64_eps) * r * (1 + f64_eps) * 1000 * (1 + f64_eps)) (f64_mul (f64_mul ?f (Fin r)) (Fin 1000))"
    by (rule f64_mul_within [OF w2 _ n3]) simp_all
  then show ?thesis by (simp only: rate_ub_def power3_eq_cube ac_simps)
qed

lemma rate_ub_pos: "0 < r \<Longrightarrow> 0 < rate_ub r"
  by (simp add: rate_ub_def f64_eps_def)

lemma refill_amount_le:
  assumes r: "2 powi (- 1021) \<le> r"
  shows "of_nat (unat (refill_amount e (Fin r))) \<le> of_nat (unat e) * rate_ub r"
proof (cases "unat e = 0")
  case True
  then show ?thesis by (simp add: unsigned_eq_0_iff)
next
  case False
  then have "0 < unat e" by simp
  from refill_value_within [OF this r] show ?thesis
    unfolding refill_amount_def
  proof (rule f64_to_word_within)
    have "0 < r" using r powi_pos [of "- 1021"] by linarith
    then show "0 \<le> of_nat (unat e) * r * 1000 * (1 - f64_eps) ^ 3" by (simp add: f64_eps_def)
  qed
qed

lemma refill_amount_zero_slack:
  assumes r: "2 powi (- 1021) \<le> r" and z: "refill_amount e (Fin r) = 0"
  shows "of_nat (unat e) * rate_ub r \<le> 2"
proof (cases "unat e = 0")
  case False
  then have "0 < unat e" by simp
  have "of_nat (unat e) * r * 1000 * (1 - f64_eps) ^ 3 < 1"
    using f64_to_word_zero_within [OF refill_value_within [OF \<open>0 < unat e\<close> r]] z
    by (simp add: refill_amount_def)
  moreover have "0 < r" using r powi_pos [of "- 1021"] by linarith
  then have "0 \<le> of_nat (unat e) * r * 1000" by simp
  moreover have "(1 + f64_eps) ^ 3 \<le> 2 * (1 - f64_eps) ^ 3"
    by (simp add: f64_eps_def power3_eq_cube)
  ultimately have "of_nat (unat e) * r * 1000 * (1 + f64_eps) ^ 3 \<le> 2 * 1"
    using mult_left_mono [of "(1 + f64_eps) ^ 3" "2 * (1 - f64_eps) ^ 3" "of_nat (unat e) * r * 1000"]
    by linarith
  then show ?thesis by (simp add: rate_ub_def ac_simps)
qed simp

lemma normal_rate_pos: "normal_rate r \<Longrightarrow> 0 < r"
  using powi_pos [of "- 1021"] by (simp add: normal_rate_def) 

lemma granted_simps [simp]: "granted [] = 0" "granted (ok # oks) = (if ok then 1 else 0) + granted oks"
  by (simp_all add: granted_def)

section \<open>The contract of a bucket\<close>

locale token_bucket =
  fixes acquire :: "rat \<Rightarrow> u32 \<Rightarrow> u64 \<Rightarrow> u32 \<times> u64 \<Rightarrow> bool \<times> u32 \<times> u64"
  assumes conserves:
      "normal_rate r \<Longrightarrow> acquire r burst now (t, l) = (ok, t', l') \<Longrightarrow>
       of_nat (unat t' + (if ok then 1000 else 0)) \<le>
         of_nat (unat t) + rate_ub r * of_nat (unat l' - unat l)"
    and timestamp: "acquire r burst now (t, l) = (ok, t', l') \<Longrightarrow> l' = l \<or> l < now \<and> l' = now"
    and capped:
      "acquire r burst now (t, l) = (ok, t', l') \<Longrightarrow> unat t \<le> unat burst \<Longrightarrow>
       unat t' + (if ok then 1000 else 0) \<le> unat burst"
    and stale:
      "normal_rate r \<Longrightarrow> acquire r burst now (t, l) = (ok, t', l') \<Longrightarrow> l' \<noteq> now \<Longrightarrow>
       rate_ub r * of_nat (unat now - unat l') \<le> 2"
    and admits:
      "1000 \<le> unat burst \<Longrightarrow> 1000 \<le> unat (refill_amount (now - l) (Fin r)) \<Longrightarrow> l \<le> now \<Longrightarrow>
       fst (acquire r burst now (t, l)) \<and> snd (snd (acquire r burst now (t, l))) = now"
begin

lemma acquire_last_ge: "acquire r burst now (t, l) = (ok, t', l') \<Longrightarrow> unat l \<le> unat l'"
  using timestamp by (fastforce simp: word_less_nat_alt)

lemma run_last:
  "bucket_run (acquire r burst) ts (t, l) = (oks, t', l') \<Longrightarrow> l' = l \<or> l' \<in> set ts \<and> l \<le> l'"
proof (induction ts arbitrary: t l oks)
  case (Cons now ts)
  obtain ok t1 l1 where a: "acquire r burst now (t, l) = (ok, t1, l1)" by (cases "acquire r burst now (t, l)")
  then obtain oks1 where "bucket_run (acquire r burst) ts (t1, l1) = (oks1, t', l')"
    using Cons(2) by (auto split: prod.splits)
  from Cons(1) [OF this] show ?case using timestamp [OF a] by auto
qed simp

lemma run_conserves:
  assumes "normal_rate r"
  shows "bucket_run (acquire r burst) ts (t, l) = (oks, t', l') \<Longrightarrow>
    of_nat (1000 * granted oks + unat t') \<le> of_nat (unat t) + rate_ub r * of_nat (unat l' - unat l)
    \<and> unat l \<le> unat l'"
proof (induction ts arbitrary: t l oks)
  case (Cons now ts)
  obtain ok t1 l1 where a: "acquire r burst now (t, l) = (ok, t1, l1)" by (cases "acquire r burst now (t, l)")
  then obtain oks1 where r: "bucket_run (acquire r burst) ts (t1, l1) = (oks1, t', l')"
    and oks: "oks = ok # oks1"
    using Cons(2) by (auto split: prod.splits)
  have ih: "of_nat (1000 * granted oks1 + unat t') \<le> of_nat (unat t1) + rate_ub r * of_nat (unat l' - unat l1)"
    "unat l1 \<le> unat l'"
    using Cons(1) [OF r] by auto
  have c: "of_nat (unat t1 + (if ok then 1000 else 0)) \<le> of_nat (unat t) + rate_ub r * of_nat (unat l1 - unat l)"
    by (rule conserves [OF assms a])
  have l: "unat l \<le> unat l1" by (rule acquire_last_ge [OF a])
  have "rate_ub r * of_nat (unat l' - unat l) =
      rate_ub r * of_nat (unat l' - unat l1) + rate_ub r * of_nat (unat l1 - unat l)"
    using l ih(2) by (simp flip: distrib_left of_nat_add)
  then show ?case using ih c l by (simp add: oks split: if_splits)
qed simp

text \<open>Whatever the bucket's past, attempts within a window get at most the burst plus what the rate
  refills in the window (and two thousandths of a token for the rounding).\<close>

lemma run_window:
  assumes r: "normal_rate r" and t: "unat t \<le> unat burst"
    and run: "bucket_run (acquire r burst) (start # ts) (t, l) = (oks, t', l')"
    and le: "\<And>now. now \<in> set ts \<Longrightarrow> now \<le> stop" and ss: "start \<le> stop"
  shows "of_nat (1000 * granted oks) \<le> of_nat (unat burst) + rate_ub r * of_nat (unat stop - unat start) + 2"
proof -
  obtain ok t1 l1 where a: "acquire r burst start (t, l) = (ok, t1, l1)"
    by (cases "acquire r burst start (t, l)")
  then obtain oks1 where run1: "bucket_run (acquire r burst) ts (t1, l1) = (oks1, t', l')"
    and oks: "oks = ok # oks1"
    using run by (auto split: prod.splits)
  have c: "of_nat (1000 * granted oks1 + unat t') \<le> of_nat (unat t1) + rate_ub r * of_nat (unat l' - unat l1)"
    using run_conserves [OF r run1] by (rule conjunct1)
  have "rat_of_nat (unat t1 + (if ok then 1000 else 0)) \<le> of_nat (unat burst)"
    unfolding of_nat_le_iff by (rule capped [OF a t])
  then have b: "of_nat (unat t1) + (if ok then 1000 else 0) \<le> (of_nat (unat burst) :: rat)"
    by (simp split: if_splits)
  have gap: "rate_ub r * of_nat (unat start - unat l1) \<le> 2"
    using stale [OF r a] by (cases "l1 = start") auto
  have "l' \<noteq> l1 \<Longrightarrow> unat l' \<le> unat stop"
    using run_last [OF run1] le by (auto simp: word_le_nat_alt)
  then have "unat l' - unat l1 \<le> (unat stop - unat start) + (unat start - unat l1)"
    using ss by (cases "l' = l1") (auto simp: word_le_nat_alt)
  then have "rate_ub r * of_nat (unat l' - unat l1) \<le>
      rate_ub r * of_nat ((unat stop - unat start) + (unat start - unat l1))"
    using rate_ub_pos [OF normal_rate_pos [OF r]] by (intro mult_left_mono) (simp_all only: of_nat_le_iff less_imp_le)
  then have "rate_ub r * of_nat (unat l' - unat l1) \<le> rate_ub r * of_nat (unat stop - unat start) + 2"
    using gap by (simp add: distrib_left)
  then show ?thesis using b c by (simp add: oks split: if_splits)
qed

text \<open>A client that spaces its attempts so that each interval refills a token is never refused.\<close>

lemma run_compliant:
  assumes b: "1000 \<le> unat burst"
  shows "bucket_run (acquire r burst) ts (t, l) = (oks, s') \<Longrightarrow>
    (\<forall>i < length ts. (l # ts) ! i \<le> ts ! i \<and>
       1000 \<le> unat (refill_amount (ts ! i - (l # ts) ! i) (Fin r))) \<Longrightarrow>
    oks = replicate (length ts) True"
proof (induction ts arbitrary: t l oks)
  case (Cons now ts)
  have "l \<le> now" "1000 \<le> unat (refill_amount (now - l) (Fin r))"
    using Cons(3) by (auto dest!: spec [of _ 0])
  then have a: "fst (acquire r burst now (t, l))" "snd (snd (acquire r burst now (t, l))) = now"
    using admits [OF b] by auto
  then obtain t1 where a1: "acquire r burst now (t, l) = (True, t1, now)"
    by (cases "acquire r burst now (t, l)") auto
  then obtain oks1 where r: "bucket_run (acquire r burst) ts (t1, now) = (oks1, s')"
    and oks: "oks = True # oks1"
    using Cons(2) by (auto split: prod.splits)
  have "\<forall>i < length ts. (now # ts) ! i \<le> ts ! i \<and>
       1000 \<le> unat (refill_amount (ts ! i - (now # ts) ! i) (Fin r))"
    using Cons(3) by (auto dest: spec [of _ "Suc _"])
  from Cons(1) [OF r this] show ?case by (simp add: oks)
qed simp

end

end
