(* ===== verification/Net.thy ===== *)
theory Net
  imports Prelude
begin

text \<open>
  The address types of the Rust standard library that the sources use. An \<open>IpAddr\<close> is its octets
  in network order; \<open>wf_ip\<close> says that there are 4 or 16 of them. Networks come from the crate
  \<open>ipnetwork\<close>: an address and a prefix length, with \<open>contains\<close>, parsing and the checked
  constructor as parameters of the definitions that use them.
\<close>

datatype ipaddr = V4 bytes | V6 bytes

fun octets :: "ipaddr \<Rightarrow> bytes" where
  "octets (V4 os) = os"
| "octets (V6 os) = os"

fun wf_ip :: "ipaddr \<Rightarrow> bool" where
  "wf_ip (V4 os) = (length os = 4)"
| "wf_ip (V6 os) = (length os = 16)"

record socket_addr =
  sa_ip :: ipaddr
  sa_port :: u16

definition wf_addr :: "socket_addr \<Rightarrow> bool" where
  "wf_addr a = wf_ip (sa_ip a)"

definition mapped_prefix :: bytes where
  "mapped_prefix = replicate 10 0 @ [0xFF, 0xFF]"

text \<open>\<open>Ipv6Addr::to_ipv4_mapped\<close>, \<open>IpAddr::to_canonical\<close> and \<open>Ipv4Addr::to_ipv6_mapped\<close>.\<close>

definition to_ipv4_mapped :: "bytes \<Rightarrow> bytes option" where
  "to_ipv4_mapped os = strip_prefix mapped_prefix os"

fun to_canonical :: "ipaddr \<Rightarrow> ipaddr" where
  "to_canonical (V4 os) = V4 os"
| "to_canonical (V6 os) = (case to_ipv4_mapped os of Some v4 \<Rightarrow> V4 v4 | None \<Rightarrow> V6 os)"

definition to_ipv6_mapped :: "bytes \<Rightarrow> bytes" where
  "to_ipv6_mapped v4 = mapped_prefix @ v4"

datatype ip_network = NetV4 bytes u8 | NetV6 bytes u8

lemma to_ipv4_mapped_mapped [simp]: "to_ipv4_mapped (to_ipv6_mapped v4) = Some v4"
  by (simp add: to_ipv4_mapped_def to_ipv6_mapped_def strip_prefix_append)

lemma to_canonical_idem [simp]: "to_canonical (to_canonical ip) = to_canonical ip"
  by (cases ip) (auto split: option.splits)

lemma wf_to_canonical: "wf_ip ip \<Longrightarrow> wf_ip (to_canonical ip)"
  by (cases ip) (auto simp: to_ipv4_mapped_def strip_prefix_Some_iff mapped_prefix_def split: option.splits)

end
