(* ===== verification/Protection.thy ===== *)
theory Protection
  imports TokenBucket Net Sni
begin

text \<open>
  The connection filter of \<open>src/src/protection.rs\<close>: its configuration, the per-IP state, the
  admission check \<open>check_at\<close>, eviction, and the report of blocked addresses.

  An \<open>Arc<IpState>\<close> is a reference into a heap of IP states, because an evicted entry stays alive
  while a connection holds it and \<open>release\<close> must reach that very entry. The table maps an
  address to a reference; it is an association list with distinct keys, in the order in which the
  \<open>DashMap\<close> happens to iterate. Operations run one after the other: the compare-and-swap loops then
  succeed at the first attempt, and races within one operation are not modelled. \<open>contains\<close> is
  \<open>IpNetwork::contains\<close>.
\<close>

section \<open>Definitions\<close>

subsection \<open>Configuration\<close>

record protection_config =
  rate_limit_cps :: "f64 option"
  rate_limit_burst :: "f64 option"
  sustained_cpm :: "f64 option"
  sustained_burst :: "f64 option"
  penalty_box_duration_ms :: u64
  max_concurrent_per_ip :: u32
  ja3_blocklist :: "bytes set"
  ja4_blocklist :: "bytes set"
  tls_handshake_timeout_ms :: u64
  require_sni :: bool
  allowlist :: "ip_network list"
  blocklist :: "ip_network list"
  tokens_per_ns :: f64
  burst_fp :: u32
  sustained_tokens_per_ns :: f64
  sustained_burst_fp :: u32

definition option_or :: "'a option \<Rightarrow> 'a option \<Rightarrow> 'a option" where
  "option_or a b = (case a of None \<Rightarrow> b | Some x \<Rightarrow> Some x)"

definition unwrap_or :: "'a option \<Rightarrow> 'a \<Rightarrow> 'a" where
  "unwrap_or a d = (case a of None \<Rightarrow> d | Some x \<Rightarrow> x)"

definition precompute :: "protection_config \<Rightarrow> protection_config" where
  "precompute c = c\<lparr>
     burst_fp :=
       f64_to_u32 (f64_mul (unwrap_or (option_or (rate_limit_burst c) (rate_limit_cps c)) (Fin 0)) (Fin 1000)),
     tokens_per_ns :=
       (case rate_limit_cps c of None \<Rightarrow> Fin 0 | Some cps \<Rightarrow> f64_div cps (Fin 1000000000)),
     sustained_burst_fp :=
       f64_to_u32 (f64_mul (unwrap_or (option_or (sustained_burst c) (sustained_cpm c)) (Fin 0)) (Fin 1000)),
     sustained_tokens_per_ns :=
       (case sustained_cpm c of None \<Rightarrow> Fin 0 | Some cpm \<Rightarrow> f64_div cpm (Fin 60000000000))\<rparr>"

definition tls_handshake_timeout :: "protection_config \<Rightarrow> u64" where
  "tls_handshake_timeout c =
     (if tls_handshake_timeout_ms c = 0 then 10000 else tls_handshake_timeout_ms c)"

subsection \<open>Per-IP state\<close>

record ip_state =
  tokens :: u32
  last_refill_ns :: u64
  sustained_tokens :: u32
  sustained_last_refill_ns :: u64
  active :: u32
  penalty_deadline_ns :: u64

text \<open>\<open>IpState::new\<close>; \<open>now\<close> is its own reading of the clock.\<close>

definition ip_state_new :: "u64 \<Rightarrow> u32 \<Rightarrow> u32 \<Rightarrow> ip_state" where
  "ip_state_new now b sb =
     \<lparr>tokens = b, last_refill_ns = now, sustained_tokens = sb, sustained_last_refill_ns = now,
      active = 0, penalty_deadline_ns = 0\<rparr>"

definition ip_state_release :: "ip_state \<Rightarrow> ip_state" where
  "ip_state_release s = s\<lparr>active := sat_sub (active s) 1\<rparr>"

definition refill_and_consume ::
    "u32 \<Rightarrow> u64 \<Rightarrow> u64 \<Rightarrow> f64 \<Rightarrow> u32 \<Rightarrow> bool \<times> u32 \<times> u64" where
  "refill_and_consume tok last_ns now rate_per_ns burst =
     (let refill = refill_amount (sat_sub now last_ns) rate_per_ns;
          (tok1, last_ns1) =
            (if refill = 0 then (tok, last_ns) else (min (sat_add tok refill) burst, now))
      in if tok1 < ONE_TOKEN then (False, tok1, last_ns1)
         else (True, tok1 - ONE_TOKEN, last_ns1))"

subsection \<open>Decisions\<close>

datatype block_reason =
    CidrBlocked
  | Ja3Blocked
  | Ja4Blocked
  | IncompleteHandshake
  | NoSni
  | RateLimited
  | TooManyConnections
  | PenaltyBoxed

fun block_reason_as_str :: "block_reason \<Rightarrow> bytes" where
  "block_reason_as_str CidrBlocked = str ''cidr_blocked''"
| "block_reason_as_str Ja3Blocked = str ''ja3_blocked''"
| "block_reason_as_str Ja4Blocked = str ''ja4_blocked''"
| "block_reason_as_str IncompleteHandshake = str ''incomplete_handshake''"
| "block_reason_as_str NoSni = str ''no_sni''"
| "block_reason_as_str RateLimited = str ''rate_limited''"
| "block_reason_as_str TooManyConnections = str ''too_many_connections''"
| "block_reason_as_str PenaltyBoxed = str ''penalty_boxed''"

datatype decision = Allow nat | AllowBypassed | Block block_reason

subsection \<open>Fingerprint decoding\<close>

definition from_hex_digit :: "u8 \<Rightarrow> u8 option" where
  "from_hex_digit b =
     (if 0x30 \<le> b \<and> b \<le> 0x39 then Some (b - 0x30)
      else if 0x61 \<le> b \<and> b \<le> 0x66 then Some (b - 0x61 + 10)
      else if 0x41 \<le> b \<and> b \<le> 0x46 then Some (b - 0x41 + 10)
      else None)"

fun hex_pairs :: "bytes \<Rightarrow> bytes option" where
  "hex_pairs [] = Some []"
| "hex_pairs [_] = None"
| "hex_pairs (a # b # rest) = do {
     hi \<leftarrow> from_hex_digit a;
     lo \<leftarrow> from_hex_digit b;
     out \<leftarrow> hex_pairs rest;
     Some ((push_bit 4 hi OR lo) # out)
   }"

definition hex_to_bytes16 :: "bytes \<Rightarrow> bytes option" where
  "hex_to_bytes16 hex = (if length hex \<noteq> 32 then None else hex_pairs hex)"

subsection \<open>The filter\<close>

record protection_state =
  config :: protection_config
  ip_table :: "(ipaddr \<times> nat) list"
  heap :: "ip_state list"

definition protection_state_new :: "protection_config \<Rightarrow> protection_state" where
  "protection_state_new c = \<lparr>config = precompute c, ip_table = [], heap = []\<rparr>"

text \<open>The reference of an address and the state with it: the existing entry, or a new one
  allocated at the end of the heap.\<close>

definition get_or_create_state ::
    "u64 \<Rightarrow> ipaddr \<Rightarrow> u32 \<Rightarrow> u32 \<Rightarrow> protection_state \<Rightarrow> nat \<times> protection_state" where
  "get_or_create_state alloc_now ip b sb st =
     (case map_of (ip_table st) ip of
        Some ref \<Rightarrow> (ref, st)
      | None \<Rightarrow>
          (length (heap st),
           st\<lparr>ip_table := (ip, length (heap st)) # ip_table st,
              heap := heap st @ [ip_state_new alloc_now b sb]\<rparr>))"

text \<open>Steps 1 to 4 of \<open>check_at\<close>, which do not touch the per-IP state: \<open>Some d\<close> is a return.\<close>

definition static_checks ::
    "(ip_network \<Rightarrow> ipaddr \<Rightarrow> bool) \<Rightarrow> protection_config \<Rightarrow> ipaddr \<Rightarrow> peek_info \<Rightarrow> decision option" where
  "static_checks contains cfg ip peek =
     (if list_ex (\<lambda>network. contains network ip) (allowlist cfg) then Some AllowBypassed
      else if list_ex (\<lambda>network. contains network ip) (blocklist cfg) then Some (Block CidrBlocked)
      else if (ja3_blocklist cfg \<noteq> {} \<or> ja4_blocklist cfg \<noteq> {}) \<and> \<not> complete peek
      then Some (Block IncompleteHandshake)
      else if ja3_blocklist cfg \<noteq> {} \<and> length (ja3 peek) = 32 \<and>
        (case hex_to_bytes16 (ja3 peek) of None \<Rightarrow> False | Some bs \<Rightarrow> bs \<in> ja3_blocklist cfg)
      then Some (Block Ja3Blocked)
      else if ja4_blocklist cfg \<noteq> {} \<and> ja4 peek \<noteq> [] \<and> ja4 peek \<in> ja4_blocklist cfg
      then Some (Block Ja4Blocked)
      else if require_sni cfg \<and> sni peek = None then Some (Block NoSni)
      else None)"

definition rate_ok :: "protection_config \<Rightarrow> u64 \<Rightarrow> ip_state \<Rightarrow> bool \<times> ip_state" where
  "rate_ok cfg now s =
     (if f64_lt (Fin 0) (tokens_per_ns cfg) then
        (let (ok, t, l) = refill_and_consume (tokens s) (last_refill_ns s) now (tokens_per_ns cfg) (burst_fp cfg)
         in (ok, s\<lparr>tokens := t, last_refill_ns := l\<rparr>))
      else (True, s))"

definition sustained_ok :: "protection_config \<Rightarrow> u64 \<Rightarrow> ip_state \<Rightarrow> bool \<times> ip_state" where
  "sustained_ok cfg now s =
     (if f64_lt (Fin 0) (sustained_tokens_per_ns cfg) then
        (let (ok, t, l) = refill_and_consume (sustained_tokens s) (sustained_last_refill_ns s) now
                            (sustained_tokens_per_ns cfg) (sustained_burst_fp cfg)
         in (ok, s\<lparr>sustained_tokens := t, sustained_last_refill_ns := l\<rparr>))
      else (True, s))"

text \<open>\<open>fetch_max\<close> of the penalty deadline.\<close>

definition penalize :: "protection_config \<Rightarrow> u64 \<Rightarrow> ip_state \<Rightarrow> ip_state" where
  "penalize cfg now s = s\<lparr>penalty_deadline_ns :=
     max (penalty_deadline_ns s) (sat_add now (sat_mul (penalty_box_duration_ms cfg) 1000000))\<rparr>"

definition boxed :: "protection_config \<Rightarrow> u64 \<Rightarrow> ip_state \<Rightarrow> bool" where
  "boxed cfg now s \<longleftrightarrow>
     0 < penalty_box_duration_ms cfg \<and> 0 < penalty_deadline_ns s \<and> now < penalty_deadline_ns s"

text \<open>Steps 5 to 8: the checks on one IP state. \<open>None\<close> is \<open>Decision::Allow\<close>.\<close>

definition ip_checks :: "protection_config \<Rightarrow> u64 \<Rightarrow> ip_state \<Rightarrow> block_reason option \<times> ip_state" where
  "ip_checks cfg now s =
     (if boxed cfg now s then
        (let (ok1, s1) = rate_ok cfg now s;
             (ok2, s2) = sustained_ok cfg now s1
         in (Some PenaltyBoxed, if \<not> ok1 \<or> \<not> ok2 then penalize cfg now s2 else s2))
      else
        (let (ok1, s1) = rate_ok cfg now s
         in if \<not> ok1 then
              (Some RateLimited, if 0 < penalty_box_duration_ms cfg then penalize cfg now s1 else s1)
            else
              (let (ok2, s2) = sustained_ok cfg now s1
               in if \<not> ok2 then
                    (Some RateLimited, if 0 < penalty_box_duration_ms cfg then penalize cfg now s2 else s2)
                  else if 0 < max_concurrent_per_ip cfg then
                    (if active s2 < max_concurrent_per_ip cfg then (None, s2\<lparr>active := active s2 + 1\<rparr>)
                     else (Some TooManyConnections, s2))
                  else (None, s2\<lparr>active := active s2 + 1\<rparr>))))"

definition check_at ::
    "(ip_network \<Rightarrow> ipaddr \<Rightarrow> bool) \<Rightarrow> ipaddr \<Rightarrow> peek_info \<Rightarrow> u64 \<Rightarrow> u64 \<Rightarrow> protection_state \<Rightarrow>
     decision \<times> protection_state" where
  "check_at contains peer_ip peek now alloc_now st =
     (let ip = to_canonical peer_ip; cfg = config st
      in case static_checks contains cfg ip peek of
           Some d \<Rightarrow> (d, st)
         | None \<Rightarrow>
             (let (ref, st1) = get_or_create_state alloc_now ip (burst_fp cfg) (sustained_burst_fp cfg) st;
                  (blocked, s') = ip_checks cfg now (heap st1 ! ref);
                  st2 = st1\<lparr>heap := (heap st1)[ref := s']\<rparr>
              in (case blocked of Some reason \<Rightarrow> Block reason | None \<Rightarrow> Allow ref, st2)))"

text \<open>Dropping the \<open>Arc\<close> of an admitted connection.\<close>

definition release :: "nat \<Rightarrow> protection_state \<Rightarrow> protection_state" where
  "release ref st = st\<lparr>heap := (heap st)[ref := ip_state_release (heap st ! ref)]\<rparr>"

subsection \<open>Reporting and eviction\<close>

text \<open>The lazy projection of a bucket to \<open>now\<close>.\<close>

definition projected :: "u32 \<Rightarrow> u64 \<Rightarrow> u64 \<Rightarrow> f64 \<Rightarrow> u32 \<Rightarrow> u32" where
  "projected current last_ns now rate_per_ns burst =
     min (sat_add current (refill_amount (sat_sub now last_ns) rate_per_ns)) burst"

definition report_rate_limited :: "protection_config \<Rightarrow> u64 \<Rightarrow> ip_state \<Rightarrow> bool" where
  "report_rate_limited cfg now s \<longleftrightarrow>
     f64_lt (Fin 0) (tokens_per_ns cfg) \<and>
       projected (tokens s) (last_refill_ns s) now (tokens_per_ns cfg) (burst_fp cfg) < 1000 \<or>
     f64_lt (Fin 0) (sustained_tokens_per_ns cfg) \<and>
       projected (sustained_tokens s) (sustained_last_refill_ns s) now
         (sustained_tokens_per_ns cfg) (sustained_burst_fp cfg) < 1000"

definition blocked_ips :: "u64 \<Rightarrow> protection_state \<Rightarrow> ipaddr list \<times> ipaddr list \<times> ipaddr list" where
  "blocked_ips now st =
     (let cfg = config st;
          free = filter (\<lambda>(_, ref). \<not> boxed cfg now (heap st ! ref)) (ip_table st)
      in (map fst (filter (\<lambda>(_, ref). report_rate_limited cfg now (heap st ! ref)) free),
          map fst (filter (\<lambda>(_, ref). 0 < max_concurrent_per_ip cfg \<and>
                             max_concurrent_per_ip cfg \<le> active (heap st ! ref)) free),
          map fst (filter (\<lambda>(_, ref). boxed cfg now (heap st ! ref)) (ip_table st))))"

definition keep_entry :: "protection_config \<Rightarrow> u64 \<Rightarrow> ip_state \<Rightarrow> bool" where
  "keep_entry cfg now s \<longleftrightarrow>
     (0 < penalty_box_duration_ms cfg \<and> 0 < penalty_deadline_ns s \<and> now < penalty_deadline_ns s) \<or>
     0 < active s \<or>
     (f64_lt (Fin 0) (tokens_per_ns cfg) \<and>
        projected (tokens s) (last_refill_ns s) now (tokens_per_ns cfg) (burst_fp cfg) < burst_fp cfg) \<or>
     (f64_lt (Fin 0) (sustained_tokens_per_ns cfg) \<and>
        projected (sustained_tokens s) (sustained_last_refill_ns s) now
          (sustained_tokens_per_ns cfg) (sustained_burst_fp cfg) < sustained_burst_fp cfg)"

definition evict_at :: "u64 \<Rightarrow> protection_state \<Rightarrow> protection_state" where
  "evict_at now st =
     st\<lparr>ip_table := filter (\<lambda>(_, ref). keep_entry (config st) now (heap st ! ref)) (ip_table st)\<rparr>"

section \<open>Lemmas\<close>

subsection \<open>The per-IP bucket\<close>

abbreviation ip_acquire :: "rat \<Rightarrow> u32 \<Rightarrow> u64 \<Rightarrow> u32 \<times> u64 \<Rightarrow> bool \<times> u32 \<times> u64" where
  "ip_acquire \<equiv> (\<lambda>r burst now (t, l). refill_and_consume t l now (Fin r) burst)"

lemma unat_sat_sub_eq: "unat (sat_sub a b) = unat a - unat b"
  by (rule unat_sat_sub)

lemma refill_and_consume_cases:
  assumes "refill_and_consume t l now rate b = (ok, t', l')"
  obtains (stale) "refill_amount (sat_sub now l) rate = 0" "l' = l" "unat t' + (if ok then 1000 else 0) = unat t"
      "ok \<longleftrightarrow> 1000 \<le> unat t"
    | (refilled) "refill_amount (sat_sub now l) rate \<noteq> 0" "l' = now"
      "unat t' + (if ok then 1000 else 0) =
        min (unat (sat_add t (refill_amount (sat_sub now l) rate))) (unat b)"
      "ok \<longleftrightarrow> 1000 \<le> min (unat (sat_add t (refill_amount (sat_sub now l) rate))) (unat b)"
proof -
  have sub: "unat (x - ONE_TOKEN) + 1000 = unat x" if "\<not> x < ONE_TOKEN" for x :: u32
    using that by (simp add: ONE_TOKEN_def word_less_nat_alt unat_sub word_le_nat_alt not_less)
  have lt: "x < ONE_TOKEN \<longleftrightarrow> unat x < 1000" for x :: u32
    by (simp add: ONE_TOKEN_def word_less_nat_alt)
  have mn: "unat (min x y) = min (unat x) (unat y)" for x y :: u32
    by (simp add: min_def word_le_nat_alt)
  show ?thesis
  proof (cases "refill_amount (sat_sub now l) rate = 0")
    case True
    then show ?thesis using assms sub [of t] lt [of t]
      by (intro stale) (auto simp: refill_and_consume_def split: if_splits)
  next
    case False
    let ?x = "min (sat_add t (refill_amount (sat_sub now l) rate)) b"
    show ?thesis using assms False sub [of ?x] lt [of ?x]
      by (intro refilled) (auto simp: refill_and_consume_def mn split: if_splits)
  qed
qed

lemma sat_sub_zero: "now \<le> l \<Longrightarrow> sat_sub now l = 0"
  by (cases "now = l") (auto simp: sat_sub_def)

interpretation ip_bucket: token_bucket ip_acquire
proof unfold_locales
  fix r b now t l ok t' l'
  assume a: "ip_acquire r b now (t, l) = (ok, t', l')"
  then have a': "refill_and_consume t l now (Fin r) b = (ok, t', l')" by simp
  show "l' = l \<or> l < now \<and> l' = now"
    using a' sat_sub_zero [of now l] by (cases rule: refill_and_consume_cases) (auto simp: not_less)
  show "unat t' + (if ok then 1000 else 0) \<le> unat b" if "unat t \<le> unat b"
    using a' that by (cases rule: refill_and_consume_cases) auto
  show "of_nat (unat t' + (if ok then 1000 else 0)) \<le> of_nat (unat t) + rate_ub r * of_nat (unat l' - unat l)"
    if r: "normal_rate r"
    using a'
  proof (cases rule: refill_and_consume_cases)
    case refilled
    have "of_nat (unat t' + (if ok then 1000 else 0)) \<le> rat_of_nat (unat t + unat (refill_amount (sat_sub now l) (Fin r)))"
      unfolding of_nat_le_iff refilled(3) unat_sat_add by simp
    also have "\<dots> \<le> of_nat (unat t) + of_nat (unat (sat_sub now l)) * rate_ub r"
      using refill_amount_le [of r "sat_sub now l"] r by (simp add: normal_rate_def)
    finally show ?thesis using refilled(2) by (simp add: unat_sat_sub mult.commute)
  qed (simp del: of_nat_add)
  show "rate_ub r * of_nat (unat now - unat l') \<le> 2" if "normal_rate r" "l' \<noteq> now"
    using a'
  proof (cases rule: refill_and_consume_cases)
    case stale
    then show ?thesis
      using refill_amount_zero_slack [of r "sat_sub now l"] that
      by (simp add: normal_rate_def unat_sat_sub mult.commute)
  qed (use that in simp)
next
  fix r and b t :: u32 and now l :: u64
  assume h: "1000 \<le> unat b" "1000 \<le> unat (refill_amount (now - l) (Fin r))" "l \<le> now"
  obtain ok t' l' where a: "refill_and_consume t l now (Fin r) b = (ok, t', l')"
    by (cases "refill_and_consume t l now (Fin r) b")
  have s: "sat_sub now l = now - l" using h(3) by (simp add: sat_sub_def)
  from a show "fst (ip_acquire r b now (t, l)) \<and> snd (snd (ip_acquire r b now (t, l))) = now"
  proof (cases rule: refill_and_consume_cases)
    case stale
    then show ?thesis using h s by simp
  next
    case refilled
    then have ok using h(1,2) unat_u32_lt [of b] by (simp add: s unat_sat_add)
    then show ?thesis using a refilled by simp
  qed
qed

subsection \<open>Sequences of events\<close>

datatype prot_event = Check ipaddr peek_info u64 u64 | EvictAt u64 | Close nat

fun prot_step ::
    "(ip_network \<Rightarrow> ipaddr \<Rightarrow> bool) \<Rightarrow> prot_event \<Rightarrow> protection_state \<Rightarrow> decision option \<times> protection_state" where
  "prot_step contains (Check ip peek now alloc_now) st =
     (let (d, st') = check_at contains ip peek now alloc_now st in (Some d, st'))"
| "prot_step contains (EvictAt now) st = (None, evict_at now st)"
| "prot_step contains (Close ref) st = (None, release ref st)"

fun prot_run ::
    "(ip_network \<Rightarrow> ipaddr \<Rightarrow> bool) \<Rightarrow> prot_event list \<Rightarrow> protection_state \<Rightarrow>
     decision option list \<times> protection_state" where
  "prot_run contains [] st = ([], st)"
| "prot_run contains (e # es) st =
     (let (d, st1) = prot_step contains e st; (ds, st2) = prot_run contains es st1 in (d # ds, st2))"

fun event_start :: "u64 \<Rightarrow> prot_event \<Rightarrow> u64" where
  "event_start t (Check _ _ now _) = now"
| "event_start t (EvictAt now) = now"
| "event_start t (Close _) = t"

fun event_end :: "u64 \<Rightarrow> prot_event \<Rightarrow> u64" where
  "event_end t (Check _ _ now alloc_now) = alloc_now"
| "event_end t (EvictAt now) = now"
| "event_end t (Close _) = t"

fun chronological :: "u64 \<Rightarrow> prot_event list \<Rightarrow> bool" where
  "chronological t [] = True"
| "chronological t (e # es) =
     (t \<le> event_start t e \<and> event_start t e \<le> event_end t e \<and> chronological (event_end t e) es)"

fun end_time :: "u64 \<Rightarrow> prot_event list \<Rightarrow> u64" where
  "end_time t [] = t"
| "end_time t (e # es) = end_time (event_end t e) es"

definition admits :: "ipaddr \<Rightarrow> prot_event \<Rightarrow> decision option \<Rightarrow> bool" where
  "admits ip e d =
     ((case e of Check peer _ _ _ \<Rightarrow> to_canonical peer = ip | _ \<Rightarrow> False) \<and>
      (case d of Some (Allow _) \<Rightarrow> True | _ \<Rightarrow> False))"

fun admitted :: "ipaddr \<Rightarrow> prot_event list \<Rightarrow> decision option list \<Rightarrow> nat" where
  "admitted ip (e # es) (d # ds) = (if admits ip e d then 1 else 0) + admitted ip es ds"
| "admitted ip _ _ = 0"

definition wf_table :: "protection_state \<Rightarrow> bool" where
  "wf_table st \<longleftrightarrow> distinct (map fst (ip_table st)) \<and> distinct (map snd (ip_table st)) \<and>
     (\<forall>ref \<in> set (map snd (ip_table st)). ref < length (heap st))"

definition bucket_inv :: "rat \<Rightarrow> u32 \<Rightarrow> u64 \<Rightarrow> nat \<Rightarrow> u64 \<Rightarrow> u32 \<times> u64 \<Rightarrow> bool" where
  "bucket_inv r burst t0 adm now = (\<lambda>(t, l).
     unat t \<le> unat burst \<and> unat l \<le> unat now \<and>
     (adm = 0 \<or> of_nat (1000 * adm + unat t) \<le>
        of_nat (unat burst) + 2 + rate_ub r * (of_nat (unat l) - of_nat (unat t0))))"

definition absent_inv :: "rat \<Rightarrow> u64 \<Rightarrow> nat \<Rightarrow> u64 \<Rightarrow> bool" where
  "absent_inv r t0 adm now \<longleftrightarrow>
     of_nat (1000 * adm) \<le> 2 + rate_ub r * (of_nat (unat now) - of_nat (unat t0))"

lemma rate_diff_mono:
  assumes "normal_rate r" "unat a \<le> unat b"
  shows "rate_ub r * (of_nat (unat a) - of_nat c) \<le> rate_ub r * (of_nat (unat b) - of_nat c)"
  using assms rate_ub_pos [OF normal_rate_pos [OF assms(1)]] by (intro mult_left_mono) simp_all

lemma bucket_inv_le:
  "bucket_inv r b t0 adm now s \<Longrightarrow> adm' \<le> adm \<Longrightarrow> now \<le> now' \<Longrightarrow> bucket_inv r b t0 adm' now' s"
  by (auto simp: bucket_inv_def word_le_nat_alt split: prod.splits)

lemma bucket_inv_step:
  assumes r: "normal_rate r" and inv: "bucket_inv r b t0 adm now0 (t, l)"
    and t0: "t0 \<le> now0" and now: "now0 \<le> now"
    and step: "refill_and_consume t l now (Fin r) b = (ok, t', l')"
  shows "bucket_inv r b t0 (adm + (if ok then 1 else 0)) now (t', l')"
proof -
  have a: "ip_acquire r b now (t, l) = (ok, t', l')" using step by simp
  have tb: "unat t \<le> unat b" and ln: "unat l \<le> unat now0" using inv by (auto simp: bucket_inv_def)
  have cap: "unat t' + (if ok then 1000 else 0) \<le> unat b" by (rule ip_bucket.capped [OF a tb])
  have l': "unat l \<le> unat l'" "unat l' \<le> unat now"
    using ip_bucket.timestamp [OF a] ln now by (auto simp: word_le_nat_alt word_less_nat_alt)
  have "of_nat (1000 * (adm + (if ok then 1 else 0)) + unat t') \<le>
      of_nat (unat b) + 2 + rate_ub r * (of_nat (unat l') - of_nat (unat t0))"
  proof (cases "adm = 0")
    case True
    have "rat_of_nat (1000 * (adm + (if ok then 1 else 0)) + unat t') \<le> of_nat (unat b)"
      unfolding of_nat_le_iff using cap True by (cases ok) simp_all
    moreover have "0 \<le> 2 + rate_ub r * (of_nat (unat l') - of_nat (unat t0))"
    proof -
      have "0 \<le> rate_ub r * (of_nat (unat now) - of_nat (unat t0))"
        using rate_ub_pos [OF normal_rate_pos [OF r]] t0 now by (simp add: word_le_nat_alt)
      moreover have "rate_ub r * (of_nat (unat now) - of_nat (unat l')) \<le> 2"
        using ip_bucket.stale [OF r a] l'(2) by (cases "l' = now") (auto simp: of_nat_diff)
      ultimately show ?thesis by (simp add: right_diff_distrib)
    qed
    ultimately show ?thesis by linarith
  next
    case False
    then have "of_nat (1000 * adm + unat t) \<le>
        of_nat (unat b) + 2 + rate_ub r * (of_nat (unat l) - of_nat (unat t0))"
      using inv by (auto simp: bucket_inv_def)
    moreover have "of_nat (unat t' + (if ok then 1000 else 0)) \<le>
        of_nat (unat t) + rate_ub r * (of_nat (unat l') - of_nat (unat l))"
      using ip_bucket.conserves [OF r a] l'(1) by (simp add: of_nat_diff)
    ultimately show ?thesis by (simp add: right_diff_distrib split: if_splits)
  qed
  then show ?thesis using cap l'(2) by (simp add: bucket_inv_def)
qed

lemma bucket_inv_early:
  assumes r: "normal_rate r" and inv: "bucket_inv r b t0 adm late (t, l)"
    and t0: "t0 \<le> l" and now: "now \<le> l"
    and step: "refill_and_consume t l now (Fin r) b = (ok, t', l')"
  shows "bucket_inv r b t0 (adm + (if ok then 1 else 0)) late (t', l')"
proof -
  have e: "l' = l" "unat t' + (if ok then 1000 else 0) = unat t"
    using step sat_sub_zero [OF now] by (auto elim!: refill_and_consume_cases)
  then have "rat_of_nat (unat t' + (if ok then 1000 else 0)) = of_nat (unat t)" by simp
  moreover have "0 \<le> rate_ub r * (of_nat (unat l) - of_nat (unat t0))"
    using rate_ub_pos [OF normal_rate_pos [OF r]] t0 by (simp add: word_le_nat_alt)
  moreover have "rat_of_nat (unat t) \<le> of_nat (unat b)" using inv by (simp add: bucket_inv_def)
  ultimately show ?thesis using inv e by (cases ok) (auto simp: bucket_inv_def)
qed

lemma bucket_inv_evict:
  assumes r: "normal_rate r" and inv: "bucket_inv r b t0 adm now0 (t, l)"
    and t0: "t0 \<le> now0" and now: "now0 \<le> now" and full: "projected t l now (Fin r) b = b"
  shows "absent_inv r t0 adm now"
proof (cases "adm = 0")
  case True
  have "0 \<le> rate_ub r * (of_nat (unat now) - of_nat (unat t0))"
    using rate_ub_pos [OF normal_rate_pos [OF r]] t0 now by (simp add: word_le_nat_alt)
  then show ?thesis using True by (simp add: absent_inv_def)
next
  case False
  have ln: "unat l \<le> unat now" using inv now by (simp add: bucket_inv_def word_le_nat_alt)
  have "b \<le> sat_add t (refill_amount (sat_sub now l) (Fin r))" using full by (simp add: projected_def min_def split: if_splits)
  then have "unat b \<le> unat t + unat (refill_amount (sat_sub now l) (Fin r))"
    by (simp add: word_le_nat_alt unat_sat_add)
  then have "rat_of_nat (unat b) \<le> of_nat (unat t) + of_nat (unat (refill_amount (sat_sub now l) (Fin r)))"
    by (simp flip: of_nat_add)
  also have "\<dots> \<le> of_nat (unat t) + of_nat (unat (sat_sub now l)) * rate_ub r"
    using refill_amount_le [of r "sat_sub now l"] r by (simp add: normal_rate_def)
  finally have "of_nat (unat b) \<le> of_nat (unat t) + rate_ub r * (of_nat (unat now) - of_nat (unat l))"
    using ln by (simp add: unat_sat_sub of_nat_diff mult.commute)
  moreover have "of_nat (1000 * adm + unat t) \<le>
        of_nat (unat b) + 2 + rate_ub r * (of_nat (unat l) - of_nat (unat t0))"
    using inv False by (auto simp: bucket_inv_def)
  ultimately show ?thesis by (simp add: absent_inv_def right_diff_distrib)
qed

lemma bucket_inv_fresh:
  assumes "normal_rate r" "absent_inv r t0 adm now0" "now0 \<le> now"
  shows "bucket_inv r b t0 adm now (b, now)"
  using assms rate_diff_mono [of r now0 now "unat t0"]
  by (simp add: bucket_inv_def absent_inv_def word_le_nat_alt)

subsection \<open>Rate limits across eviction\<close>

lemma check_at_cases:
  assumes "check_at contains peer peek now alloc_now st = (d, st')"
  obtains (static) "static_checks contains (config st) (to_canonical peer) peek = Some d" "st' = st"
    | (stateful) ref st1 blk s' where
        "static_checks contains (config st) (to_canonical peer) peek = None"
        "get_or_create_state alloc_now (to_canonical peer) (burst_fp (config st))
           (sustained_burst_fp (config st)) st = (ref, st1)"
        "ip_checks (config st) now (heap st1 ! ref) = (blk, s')"
        "st' = st1\<lparr>heap := (heap st1)[ref := s']\<rparr>"
        "d = (case blk of Some reason \<Rightarrow> Block reason | None \<Rightarrow> Allow ref)"
  using assms by (auto simp: check_at_def Let_def split: option.splits prod.splits)

lemma static_checks_not_Allow: "static_checks contains cfg ip peek \<noteq> Some (Allow ref)"
  by (auto simp: static_checks_def split: if_splits)

lemma get_or_create_state:
  assumes g: "get_or_create_state alloc_now ip b sb st = (ref, st1)" and wf: "wf_table st"
  shows "config st1 = config st" "wf_table st1" "map_of (ip_table st1) ip = Some ref" "ref < length (heap st1)"
    "\<And>ip'. ip' \<noteq> ip \<Longrightarrow> map_of (ip_table st1) ip' = map_of (ip_table st) ip'"
    "\<And>ref'. ref' < length (heap st) \<Longrightarrow> heap st1 ! ref' = heap st ! ref'"
    "length (heap st) \<le> length (heap st1)"
    "map_of (ip_table st) ip = Some ref \<and> st1 = st \<or>
     map_of (ip_table st) ip = None \<and> heap st1 ! ref = ip_state_new alloc_now b sb \<and> ref = length (heap st)"
proof -
  have old: "map_of (ip_table st) ip = Some r \<Longrightarrow> r < length (heap st)" for r
    using wf map_of_SomeD [of "ip_table st" ip r] by (force simp: wf_table_def)
  have new: "map_of (ip_table st) ip = None \<Longrightarrow> ip \<notin> fst ` set (ip_table st)"
    by (simp add: map_of_eq_None_iff)
  show "config st1 = config st" "map_of (ip_table st1) ip = Some ref" "ref < length (heap st1)"
    "\<And>ip'. ip' \<noteq> ip \<Longrightarrow> map_of (ip_table st1) ip' = map_of (ip_table st) ip'"
    "\<And>ref'. ref' < length (heap st) \<Longrightarrow> heap st1 ! ref' = heap st ! ref'"
    "length (heap st) \<le> length (heap st1)"
    "map_of (ip_table st) ip = Some ref \<and> st1 = st \<or>
     map_of (ip_table st) ip = None \<and> heap st1 ! ref = ip_state_new alloc_now b sb \<and> ref = length (heap st)"
    using g old by (auto simp: get_or_create_state_def nth_append split: option.splits)
  show "wf_table st1"
    using g wf new by (force simp: get_or_create_state_def wf_table_def split: option.splits)
qed

lemma wf_table_inj:
  assumes "wf_table st" "map_of (ip_table st) ip = Some ref" "map_of (ip_table st) ip' = Some ref"
  shows "ip = ip'"
proof -
  have "(ip, ref) \<in> set (ip_table st)" "(ip', ref) \<in> set (ip_table st)"
    using assms(2,3) by (auto dest: map_of_SomeD)
  then show ?thesis using assms(1) unfolding wf_table_def distinct_map inj_on_def by fastforce
qed

lemma wf_table_bound: "wf_table st \<Longrightarrow> map_of (ip_table st) ip = Some ref \<Longrightarrow> ref < length (heap st)"
  by (force simp: wf_table_def dest: map_of_SomeD)

lemma wf_table_heap_update: "wf_table st \<Longrightarrow> wf_table (st\<lparr>heap := (heap st)[ref := s]\<rparr>)"
  by (simp add: wf_table_def)

lemma map_of_filter_distinct:
  "distinct (map fst xs) \<Longrightarrow> map_of (filter P xs) k = (case map_of xs k of Some v \<Rightarrow> if P (k, v) then Some v else None | None \<Rightarrow> None)"
  by (induction xs) (auto simp: map_of_eq_None_iff image_iff split: option.splits dest: map_of_SomeD)

lemma wf_table_evict: "wf_table st \<Longrightarrow> wf_table (evict_at now st)"
  by (auto simp: wf_table_def evict_at_def distinct_map_filter)

lemma prot_step_wf:
  assumes "wf_table st" "prot_step contains e st = (d, st')"
  shows "wf_table st'" "config st' = config st"
proof -
  have "wf_table st' \<and> config st' = config st"
  proof (cases e)
    case (Check peer peek now alloc_now)
    then obtain d' where "check_at contains peer peek now alloc_now st = (d', st')"
      using assms(2) by (auto split: prod.splits)
    then show ?thesis
    proof (cases rule: check_at_cases)
      case (stateful ref st1 blk s')
      then show ?thesis
        using get_or_create_state(1,2) [OF stateful(2) assms(1)] by (simp add: wf_table_heap_update)
    qed (use assms(1) in simp)
  qed (use assms in \<open>auto simp: release_def wf_table_heap_update wf_table_evict\<close>, simp add: evict_at_def)
  then show "wf_table st'" "config st' = config st" by auto
qed

lemma prot_run_wf:
  "prot_run contains es st = (ds, st') \<Longrightarrow> wf_table st \<Longrightarrow> wf_table st' \<and> config st' = config st"
proof (induction es arbitrary: st ds)
  case (Cons e es)
  obtain d st1 where s: "prot_step contains e st = (d, st1)" by (cases "prot_step contains e st")
  then obtain ds1 where "prot_run contains es st1 = (ds1, st')"
    using Cons(2) by (auto split: prod.splits)
  then show ?case using Cons(1) [of st1 ds1] prot_step_wf [OF Cons(3) s] by simp
qed simp

definition limit_inv ::
    "(ip_state \<Rightarrow> u32 \<times> u64) \<Rightarrow> rat \<Rightarrow> u32 \<Rightarrow> u64 \<Rightarrow> ipaddr \<Rightarrow> nat \<Rightarrow> u64 \<Rightarrow> protection_state \<Rightarrow> bool" where
  "limit_inv view r burst t0 ip adm now st =
     (case map_of (ip_table st) ip of
        None \<Rightarrow> absent_inv r t0 adm now
      | Some ref \<Rightarrow> bucket_inv r burst t0 adm now (view (heap st ! ref)))"

lemma absent_inv_mono:
  "normal_rate r \<Longrightarrow> absent_inv r t0 adm now \<Longrightarrow> now \<le> now' \<Longrightarrow> absent_inv r t0 adm now'"
  using rate_diff_mono [of r now now' "unat t0"] by (simp add: absent_inv_def word_le_nat_alt)

lemma limit_inv_mono:
  "normal_rate r \<Longrightarrow> limit_inv view r b t0 ip adm now st \<Longrightarrow> now \<le> now' \<Longrightarrow> limit_inv view r b t0 ip adm now' st"
  by (auto simp: limit_inv_def intro: absent_inv_mono bucket_inv_le split: option.splits)

lemma chronological_end: "chronological t es \<Longrightarrow> t \<le> end_time t es"
proof (induction es arbitrary: t)
  case (Cons e es)
  then have "t \<le> event_end t e" "event_end t e \<le> end_time (event_end t e) es" by auto
  then show ?case by simp
qed simp

locale ip_limit =
  fixes view :: "ip_state \<Rightarrow> u32 \<times> u64"
    and lim_rate :: "protection_config \<Rightarrow> f64"
    and lim_burst :: "protection_config \<Rightarrow> u32"
  assumes fresh: "view (ip_state_new now (burst_fp cfg) (sustained_burst_fp cfg)) = (lim_burst cfg, now)"
    and checks:
      "lim_rate cfg = Fin r \<Longrightarrow> 0 < r \<Longrightarrow> ip_checks cfg now s = (blk, s') \<Longrightarrow> view s = (t, l) \<Longrightarrow>
       (\<exists>ok. refill_and_consume t l now (Fin r) (lim_burst cfg) = (ok, view s') \<and> (blk = None \<longrightarrow> ok)) \<or>
       view s' = (t, l) \<and> blk \<noteq> None"
    and evictable:
      "lim_rate cfg = Fin r \<Longrightarrow> 0 < r \<Longrightarrow> \<not> keep_entry cfg now s \<Longrightarrow> view s = (t, l) \<Longrightarrow>
       projected t l now (Fin r) (lim_burst cfg) = lim_burst cfg"
    and released: "view (ip_state_release s) = view s"
begin

lemma ip_checks_inv:
  assumes r: "lim_rate cfg = Fin r" "normal_rate r" and inv: "bucket_inv r (lim_burst cfg) t0 adm now0 (view s)"
    and t0: "t0 \<le> now0" "now0 \<le> now" and c: "ip_checks cfg now s = (blk, s')"
  shows "bucket_inv r (lim_burst cfg) t0 (adm + (if blk = None then 1 else 0)) now (view s')"
proof -
  obtain t l where v: "view s = (t, l)" by (cases "view s")
  show ?thesis
    using checks [OF r(1) normal_rate_pos [OF r(2)] c v]
  proof (elim disjE exE conjE)
    fix ok assume s: "refill_and_consume t l now (Fin r) (lim_burst cfg) = (ok, view s')" "blk = None \<longrightarrow> ok"
    have "bucket_inv r (lim_burst cfg) t0 (adm + (if ok then 1 else 0)) now (fst (view s'), snd (view s'))"
      by (rule bucket_inv_step [OF r(2) inv [unfolded v] t0]) (simp add: s(1))
    then show ?thesis using s(2) by (auto intro: bucket_inv_le split: if_splits)
  next
    assume "view s' = (t, l)" "blk \<noteq> None"
    then show ?thesis using inv v t0(2) by (auto intro: bucket_inv_le)
  qed
qed

lemma ip_checks_inv_early:
  assumes r: "lim_rate cfg = Fin r" "normal_rate r" and inv: "bucket_inv r (lim_burst cfg) t0 adm late (view s)"
    and v: "view s = (t, l)" and t0: "t0 \<le> l" "now \<le> l" and c: "ip_checks cfg now s = (blk, s')"
  shows "bucket_inv r (lim_burst cfg) t0 (adm + (if blk = None then 1 else 0)) late (view s')"
  using checks [OF r(1) normal_rate_pos [OF r(2)] c v]
proof (elim disjE exE conjE)
  fix ok assume s: "refill_and_consume t l now (Fin r) (lim_burst cfg) = (ok, view s')" "blk = None \<longrightarrow> ok"
  have "bucket_inv r (lim_burst cfg) t0 (adm + (if ok then 1 else 0)) late (fst (view s'), snd (view s'))"
    by (rule bucket_inv_early [OF r(2) inv [unfolded v] t0]) (simp add: s(1))
  then show ?thesis using s(2) by (auto intro: bucket_inv_le split: if_splits)
next
  assume "view s' = (t, l)" "blk \<noteq> None"
  then show ?thesis using inv v by auto
qed

lemma step_inv:
  assumes wf: "wf_table st" and cfg: "config st = cfg"
    and r: "lim_rate cfg = Fin r" "normal_rate r"
    and inv: "limit_inv view r (lim_burst cfg) t0 ip adm now0 st" and t0: "t0 \<le> now0"
    and chron: "now0 \<le> event_start now0 e" "event_start now0 e \<le> event_end now0 e"
    and step: "prot_step contains e st = (d, st')"
  shows "limit_inv view r (lim_burst cfg) t0 ip (adm + (if admits ip e d then 1 else 0)) (event_end now0 e) st'"
proof (cases e)
  case (Check peer peek now alloc_now)
  have now: "now0 \<le> now" "now \<le> alloc_now" using chron Check by auto
  have late: "limit_inv view r (lim_burst cfg) t0 ip adm alloc_now st"
    using inv now by (auto intro: limit_inv_mono [OF r(2)])
  obtain d' where d: "d = Some d'" and c: "check_at contains peer peek now alloc_now st = (d', st')"
    using step Check by (auto split: prod.splits)
  from c show ?thesis
  proof (cases rule: check_at_cases)
    case static
    then have "\<not> admits ip e d" using static_checks_not_Allow by (auto simp: admits_def d split: decision.splits)
    then show ?thesis using late static(2) Check by simp
  next
    case (stateful ref st1 blk s')
    note g = get_or_create_state [OF stateful(2) wf]
    show ?thesis
    proof (cases "to_canonical peer = ip")
      case True
      have adm: "admits ip e d \<longleftrightarrow> blk = None"
        using True Check stateful(5) by (auto simp: admits_def d split: option.splits)
      have at: "map_of (ip_table st') ip = Some ref" "heap st' ! ref = s'"
        using g(3,4) True by (simp_all add: stateful(4))
      have c': "ip_checks cfg now (heap st1 ! ref) = (blk, s')" using stateful(3) cfg by simp
      have "bucket_inv r (lim_burst cfg) t0 (adm + (if blk = None then 1 else 0)) alloc_now (view s')"
        using g(8)
      proof (elim disjE conjE)
        assume "map_of (ip_table st) (to_canonical peer) = Some ref" "st1 = st"
        then have "bucket_inv r (lim_burst cfg) t0 adm now0 (view (heap st1 ! ref))"
          using inv True by (simp add: limit_inv_def)
        from ip_checks_inv [OF r this t0 now(1) c'] show ?thesis
          using now(2) by (auto intro: bucket_inv_le)
      next
        assume n: "map_of (ip_table st) (to_canonical peer) = None"
          and "heap st1 ! ref = ip_state_new alloc_now (burst_fp (config st)) (sustained_burst_fp (config st))"
        then have v: "view (heap st1 ! ref) = (lim_burst cfg, alloc_now)" using fresh cfg by simp
        have "bucket_inv r (lim_burst cfg) t0 adm alloc_now (view (heap st1 ! ref))"
          using bucket_inv_fresh [OF r(2), of t0 adm now0 alloc_now] inv n True now
          by (auto simp: limit_inv_def v)
        from ip_checks_inv_early [OF r this v _ now(2) c'] show ?thesis
          using t0 now by simp
      qed
      then show ?thesis using at Check adm by (simp add: limit_inv_def)
    next
      case False
      have nadm: "\<not> admits ip e d" using False Check by (simp add: admits_def)
      have m: "map_of (ip_table st') ip = map_of (ip_table st) ip" using g(5) False stateful(4) by auto
      have h: "heap st' ! ref' = heap st ! ref'" if "map_of (ip_table st) ip = Some ref'" for ref'
      proof -
        have "ref' \<noteq> ref"
          using wf_table_inj [OF g(2)] g(3,5) that False by (metis)
        then show ?thesis using g(6) [of ref'] wf_table_bound [OF wf that] by (simp add: stateful(4))
      qed
      show ?thesis using late m h Check nadm by (auto simp: limit_inv_def split: option.splits)
    qed
  qed
next
  case (EvictAt now)
  have now: "now0 \<le> now" using chron EvictAt by auto
  have st': "st' = evict_at now st" "\<not> admits ip e d" using step EvictAt by (auto simp: admits_def)
  have m: "map_of (ip_table st') ip = (case map_of (ip_table st) ip of
      Some ref \<Rightarrow> if keep_entry cfg now (heap st ! ref) then Some ref else None | None \<Rightarrow> None)"
    using wf by (simp add: st' evict_at_def cfg map_of_filter_distinct wf_table_def split: option.splits)
  have h: "heap st' = heap st" by (simp add: st' evict_at_def)
  show ?thesis
  proof (cases "map_of (ip_table st) ip")
    case None
    then show ?thesis using inv now m st' EvictAt by (auto simp: limit_inv_def intro: absent_inv_mono [OF r(2)])
  next
    case (Some ref)
    obtain t l where v: "view (heap st ! ref) = (t, l)" by (cases "view (heap st ! ref)")
    have b: "bucket_inv r (lim_burst cfg) t0 adm now0 (t, l)" using inv Some v by (simp add: limit_inv_def)
    show ?thesis
    proof (cases "keep_entry cfg now (heap st ! ref)")
      case True
      then show ?thesis using b Some v now m h st' EvictAt by (auto simp: limit_inv_def intro: bucket_inv_le)
    next
      case False
      then show ?thesis
        using bucket_inv_evict [OF r(2) b t0 now evictable [OF r(1) normal_rate_pos [OF r(2)] False v]]
          Some m st' EvictAt by (simp add: limit_inv_def)
    qed
  qed
next
  case (Close ref)
  have st': "st' = release ref st" "\<not> admits ip e d" using step Close by (auto simp: admits_def)
  have "view (heap st' ! i) = view (heap st ! i)" for i
    by (cases "ref < length (heap st)"; cases "i = ref")
      (auto simp: st' release_def released list_update_beyond)
  then show ?thesis using inv Close st' by (auto simp: limit_inv_def release_def split: option.splits)
qed

lemma run_inv:
  assumes "lim_rate cfg = Fin r" "normal_rate r"
  shows "prot_run contains es st = (ds, st') \<Longrightarrow> wf_table st \<Longrightarrow> config st = cfg \<Longrightarrow>
    limit_inv view r (lim_burst cfg) t0 ip adm now st \<Longrightarrow> t0 \<le> now \<Longrightarrow> chronological now es \<Longrightarrow>
    limit_inv view r (lim_burst cfg) t0 ip (adm + admitted ip es ds) (end_time now es) st'"
proof (induction es arbitrary: st ds adm now)
  case (Cons e es)
  obtain d st1 where s: "prot_step contains e st = (d, st1)" by (cases "prot_step contains e st")
  then obtain ds1 where ds: "prot_run contains es st1 = (ds1, st')" "ds = d # ds1"
    using Cons(2) by (auto split: prod.splits)
  have c: "now \<le> event_start now e" "event_start now e \<le> event_end now e" "chronological (event_end now e) es"
    using Cons(7) by auto
  have "limit_inv view r (lim_burst cfg) t0 ip (adm + (if admits ip e d then 1 else 0)) (event_end now e) st1"
    by (rule step_inv [OF Cons(3,4) assms Cons(5,6) c(1,2) s])
  from Cons(1) [OF ds(1) prot_step_wf(1) [OF Cons(3) s] _ this _ c(3)] show ?case
    using prot_step_wf(2) [OF Cons(3) s] Cons(4,6) c(1,2) ds(2) by (simp add: add.assoc)
qed simp

text \<open>In any stretch of time the address gets at most the burst plus what the rate allows,
  whatever is evicted and re-created in between.\<close>

lemma run_limit:
  assumes r: "lim_rate cfg = Fin r" "normal_rate r" and wf: "wf_table st" "config st = cfg"
    and full: "\<And>ref. map_of (ip_table st) ip = Some ref \<Longrightarrow>
      unat (fst (view (heap st ! ref))) \<le> unat (lim_burst cfg) \<and> snd (view (heap st ! ref)) \<le> t0"
    and run: "prot_run contains es st = (ds, st')" "chronological t0 es"
  shows "of_nat (1000 * admitted ip es ds) \<le>
    of_nat (unat (lim_burst cfg)) + rate_ub r * (of_nat (unat (end_time t0 es)) - of_nat (unat t0)) + 2"
proof -
  have "limit_inv view r (lim_burst cfg) t0 ip 0 t0 st"
    using full by (auto simp: limit_inv_def absent_inv_def bucket_inv_def word_le_nat_alt split: option.splits prod.splits)
  from run_inv [OF r run(1) wf this order_refl run(2)]
  have "limit_inv view r (lim_burst cfg) t0 ip (admitted ip es ds) (end_time t0 es) st'" by simp
  then consider "absent_inv r t0 (admitted ip es ds) (end_time t0 es)"
    | s where "bucket_inv r (lim_burst cfg) t0 (admitted ip es ds) (end_time t0 es) s"
    by (auto simp: limit_inv_def split: option.splits)
  then show ?thesis
  proof cases
    case 1
    then show ?thesis by (simp add: absent_inv_def)
  next
    case (2 s)
    obtain t l where s: "s = (t, l)" by (cases s)
    have le: "unat l \<le> unat (end_time t0 es)" using 2 by (simp add: bucket_inv_def s)
    show ?thesis
    proof (cases "admitted ip es ds = 0")
      case True
      have "0 \<le> rate_ub r * (of_nat (unat (end_time t0 es)) - of_nat (unat t0))"
        using rate_ub_pos [OF normal_rate_pos [OF r(2)]] chronological_end [OF run(2)]
        by (simp add: word_le_nat_alt)
      then show ?thesis using True by simp
    next
      case False
      then have "of_nat (1000 * admitted ip es ds + unat t) \<le>
          of_nat (unat (lim_burst cfg)) + 2 + rate_ub r * (of_nat (unat l) - of_nat (unat t0))"
        using 2 by (simp add: bucket_inv_def s)
      moreover note rate_diff_mono [OF r(2) le, of "unat t0"]
      ultimately show ?thesis by simp
    qed
  qed
qed

lemma window_limit:
  assumes r: "lim_rate (precompute c) = Fin r" "normal_rate r"
    and run1: "prot_run contains es1 (protection_state_new c) = (ds1, st1)" "chronological t0 es1"
    and run2: "prot_run contains es2 st1 = (ds2, st2)" "chronological (end_time t0 es1) es2"
  shows "of_nat (1000 * admitted ip es2 ds2) \<le>
    of_nat (unat (lim_burst (precompute c))) +
    rate_ub r * (of_nat (unat (end_time (end_time t0 es1) es2)) - of_nat (unat (end_time t0 es1))) + 2"
proof -
  have new: "wf_table (protection_state_new c)" "config (protection_state_new c) = precompute c"
    by (simp_all add: wf_table_def protection_state_new_def)
  have inv0: "limit_inv view r (lim_burst (precompute c)) t0 ip 0 t0 (protection_state_new c)"
    by (simp add: limit_inv_def protection_state_new_def absent_inv_def)
  have inv1: "limit_inv view r (lim_burst (precompute c)) t0 ip (admitted ip es1 ds1) (end_time t0 es1) st1"
    using run_inv [OF r run1(1) new inv0 order_refl run1(2)] by simp
  have wf1: "wf_table st1" "config st1 = precompute c" using prot_run_wf [OF run1(1) new(1)] new(2) by simp_all
  show ?thesis
  proof (rule run_limit [OF r wf1 _ run2])
    fix ref assume "map_of (ip_table st1) ip = Some ref"
    then show "unat (fst (view (heap st1 ! ref))) \<le> unat (lim_burst (precompute c)) \<and>
        snd (view (heap st1 ! ref)) \<le> end_time t0 es1"
      using inv1 by (auto simp: limit_inv_def bucket_inv_def word_le_nat_alt split: prod.splits)
  qed
qed

end


lemma rate_ok_other [simp]:
  "sustained_tokens (snd (rate_ok cfg now s)) = sustained_tokens s"
  "sustained_last_refill_ns (snd (rate_ok cfg now s)) = sustained_last_refill_ns s"
  "active (snd (rate_ok cfg now s)) = active s"
  "penalty_deadline_ns (snd (rate_ok cfg now s)) = penalty_deadline_ns s"
  by (auto simp: rate_ok_def split: prod.splits)

lemma sustained_ok_other [simp]:
  "tokens (snd (sustained_ok cfg now s)) = tokens s"
  "last_refill_ns (snd (sustained_ok cfg now s)) = last_refill_ns s"
  "active (snd (sustained_ok cfg now s)) = active s"
  "penalty_deadline_ns (snd (sustained_ok cfg now s)) = penalty_deadline_ns s"
  by (auto simp: sustained_ok_def split: prod.splits)

lemma penalize_other [simp]:
  "tokens (penalize cfg now s) = tokens s" "last_refill_ns (penalize cfg now s) = last_refill_ns s"
  "sustained_tokens (penalize cfg now s) = sustained_tokens s"
  "sustained_last_refill_ns (penalize cfg now s) = sustained_last_refill_ns s"
  "active (penalize cfg now s) = active s"
  by (simp_all add: penalize_def)

lemma ip_checks_cases:
  assumes "ip_checks cfg now s = (blk, s')"
  obtains (penalized) "boxed cfg now s" "blk = Some PenaltyBoxed"
      "s' = (if \<not> fst (rate_ok cfg now s) \<or> \<not> fst (sustained_ok cfg now (snd (rate_ok cfg now s)))
             then penalize cfg now (snd (sustained_ok cfg now (snd (rate_ok cfg now s))))
             else snd (sustained_ok cfg now (snd (rate_ok cfg now s))))"
    | (limited) "\<not> boxed cfg now s" "\<not> fst (rate_ok cfg now s)" "blk = Some RateLimited"
      "s' = (if 0 < penalty_box_duration_ms cfg then penalize cfg now (snd (rate_ok cfg now s))
             else snd (rate_ok cfg now s))"
    | (sustained) "\<not> boxed cfg now s" "fst (rate_ok cfg now s)"
      "\<not> fst (sustained_ok cfg now (snd (rate_ok cfg now s)))" "blk = Some RateLimited"
      "s' = (if 0 < penalty_box_duration_ms cfg
             then penalize cfg now (snd (sustained_ok cfg now (snd (rate_ok cfg now s))))
             else snd (sustained_ok cfg now (snd (rate_ok cfg now s))))"
    | (full) "\<not> boxed cfg now s" "fst (rate_ok cfg now s)"
      "fst (sustained_ok cfg now (snd (rate_ok cfg now s)))" "blk = Some TooManyConnections"
      "0 < max_concurrent_per_ip cfg" "max_concurrent_per_ip cfg \<le> active s"
      "s' = snd (sustained_ok cfg now (snd (rate_ok cfg now s)))"
    | (allowed) "\<not> boxed cfg now s" "fst (rate_ok cfg now s)"
      "fst (sustained_ok cfg now (snd (rate_ok cfg now s)))" "blk = None"
      "0 < max_concurrent_per_ip cfg \<longrightarrow> active s < max_concurrent_per_ip cfg"
      "s' = (snd (sustained_ok cfg now (snd (rate_ok cfg now s))))\<lparr>active := active s + 1\<rparr>"
proof -
  obtain ok1 s1 where r: "rate_ok cfg now s = (ok1, s1)" by (cases "rate_ok cfg now s")
  obtain ok2 s2 where u: "sustained_ok cfg now s1 = (ok2, s2)" by (cases "sustained_ok cfg now s1")
  have a: "active s2 = active s" using rate_ok_other(3) [of cfg now s] sustained_ok_other(3) [of cfg now s1] by (simp add: r u)
  show ?thesis
  proof (cases "boxed cfg now s")
    case True
    then show ?thesis using assms by (intro penalized) (auto simp: ip_checks_def r u)
  next
    case nb: False
    show ?thesis
    proof (cases "ok1 \<and> ok2")
      case ok: True
      show ?thesis
      proof (cases "0 < max_concurrent_per_ip cfg \<and> \<not> active s < max_concurrent_per_ip cfg")
        case True
        show ?thesis by (rule full) (use assms nb ok True in \<open>simp_all add: ip_checks_def r u a not_less\<close>)
      next
        case False
        show ?thesis
          by (rule allowed) (use assms nb ok False in \<open>auto simp: ip_checks_def r u a split: if_splits\<close>)
      qed
    next
      case False
      show ?thesis
      proof (cases ok1)
        case True
        show ?thesis by (rule sustained) (use assms nb False True in \<open>auto simp: ip_checks_def r u\<close>)
      next
        case no: False
        show ?thesis by (rule limited) (use assms nb no in \<open>auto simp: ip_checks_def r u\<close>)
      qed
    qed
  qed
qed

lemma rate_ok_bucket:
  "tokens_per_ns cfg = Fin r \<Longrightarrow> 0 < r \<Longrightarrow>
   refill_and_consume (tokens s) (last_refill_ns s) now (Fin r) (burst_fp cfg) =
     (fst (rate_ok cfg now s), tokens (snd (rate_ok cfg now s)), last_refill_ns (snd (rate_ok cfg now s)))"
  by (auto simp: rate_ok_def split: prod.splits)

lemma sustained_ok_bucket:
  "sustained_tokens_per_ns cfg = Fin r \<Longrightarrow> 0 < r \<Longrightarrow>
   refill_and_consume (sustained_tokens s) (sustained_last_refill_ns s) now (Fin r) (sustained_burst_fp cfg) =
     (fst (sustained_ok cfg now s), sustained_tokens (snd (sustained_ok cfg now s)),
      sustained_last_refill_ns (snd (sustained_ok cfg now s)))"
  by (auto simp: sustained_ok_def split: prod.splits)

lemma projected_full: "\<not> projected t l now rate b < b \<Longrightarrow> projected t l now rate b = b"
  by (auto simp: projected_def min_def split: if_splits)

interpretation per_second: ip_limit "\<lambda>s. (tokens s, last_refill_ns s)" tokens_per_ns burst_fp
proof unfold_locales
  fix cfg :: protection_config and r and now :: u64 and s s' :: ip_state and blk t l
  assume h: "tokens_per_ns cfg = Fin r" "0 < r" and v: "(tokens s, last_refill_ns s) = (t, l)"
  show "(\<exists>ok. refill_and_consume t l now (Fin r) (burst_fp cfg) = (ok, tokens s', last_refill_ns s') \<and> (blk = None \<longrightarrow> ok))
      \<or> (tokens s', last_refill_ns s') = (t, l) \<and> blk \<noteq> None"
    if "ip_checks cfg now s = (blk, s')"
    using that v rate_ok_bucket [OF h, of s now] by (cases rule: ip_checks_cases) auto
  show "projected t l now (Fin r) (burst_fp cfg) = burst_fp cfg" if "\<not> keep_entry cfg now s"
    using that v h by (intro projected_full) (auto simp: keep_entry_def)
qed (simp_all add: ip_state_new_def ip_state_release_def)

interpretation per_minute: ip_limit "\<lambda>s. (sustained_tokens s, sustained_last_refill_ns s)"
  sustained_tokens_per_ns sustained_burst_fp
proof unfold_locales
  fix cfg :: protection_config and r and now :: u64 and s s' :: ip_state and blk t l
  assume h: "sustained_tokens_per_ns cfg = Fin r" "0 < r"
    and v: "(sustained_tokens s, sustained_last_refill_ns s) = (t, l)"
  show "(\<exists>ok. refill_and_consume t l now (Fin r) (sustained_burst_fp cfg) =
        (ok, sustained_tokens s', sustained_last_refill_ns s') \<and> (blk = None \<longrightarrow> ok))
      \<or> (sustained_tokens s', sustained_last_refill_ns s') = (t, l) \<and> blk \<noteq> None"
    if "ip_checks cfg now s = (blk, s')"
    using that v sustained_ok_bucket [OF h, of "snd (rate_ok cfg now s)" now]
    by (cases rule: ip_checks_cases) auto
  show "projected t l now (Fin r) (sustained_burst_fp cfg) = sustained_burst_fp cfg" if "\<not> keep_entry cfg now s"
    using that v h by (intro projected_full) (auto simp: keep_entry_def)
qed (simp_all add: ip_state_new_def ip_state_release_def)

subsection \<open>Concurrent connections\<close>

type_synonym conn_world = "protection_state \<times> (ipaddr \<times> nat) list"

inductive conn_step :: "(ip_network \<Rightarrow> ipaddr \<Rightarrow> bool) \<Rightarrow> conn_world \<Rightarrow> conn_world \<Rightarrow> bool"
  for contains where
  admit: "check_at contains peer peek now alloc_now st = (Allow ref, st') \<Longrightarrow> length guards < 2 ^ 32 - 1 \<Longrightarrow>
    conn_step contains (st, guards) (st', (to_canonical peer, ref) # guards)"
| refuse: "check_at contains peer peek now alloc_now st = (d, st') \<Longrightarrow> (\<And>ref. d \<noteq> Allow ref) \<Longrightarrow>
    conn_step contains (st, guards) (st', guards)"
| close: "g \<in> set guards \<Longrightarrow> conn_step contains (st, guards) (release (snd g) st, remove1 g guards)"
| evict: "conn_step contains (st, guards) (evict_at now st, guards)"
| reconfigure: "conn_step contains (st, guards) (st\<lparr>config := precompute c\<rparr>, guards)"

definition held_by :: "nat \<Rightarrow> (ipaddr \<times> nat) list \<Rightarrow> nat" where
  "held_by ref guards = length (filter (\<lambda>g. snd g = ref) guards)"

definition held_for :: "ipaddr \<Rightarrow> (ipaddr \<times> nat) list \<Rightarrow> nat" where
  "held_for ip guards = length (filter (\<lambda>g. fst g = ip) guards)"

definition conn_inv :: "conn_world \<Rightarrow> bool" where
  "conn_inv = (\<lambda>(st, guards). wf_table st \<and>
     (\<forall>(ip, ref) \<in> set guards. map_of (ip_table st) ip = Some ref) \<and>
     (\<forall>ref < length (heap st). unat (active (heap st ! ref)) = held_by ref guards))"

lemma nth_list_update_at: "j < length xs \<Longrightarrow> xs[i := v] ! j = (if i = j then v else xs ! j)"
  by (cases "i = j") auto

lemma held_by_Cons [simp]: "held_by ref (g # gs) = (if snd g = ref then 1 else 0) + held_by ref gs"
  by (simp add: held_by_def)

lemma held_by_Nil [simp]: "held_by ref [] = 0"
  by (simp add: held_by_def)

lemma held_by_le: "held_by ref gs \<le> length gs"
  by (simp add: held_by_def)

lemma held_by_remove1: "g \<in> set gs \<Longrightarrow> held_by ref (remove1 g gs) + (if snd g = ref then 1 else 0) = held_by ref gs"
  by (induction gs) auto

lemma conn_inv_guard: "conn_inv (st, guards) \<Longrightarrow> (ip, ref) \<in> set guards \<Longrightarrow> map_of (ip_table st) ip = Some ref"
  by (auto simp: conn_inv_def)

lemma ip_checks_active:
  assumes "ip_checks cfg now s = (blk, s')"
  shows "active s' = (if blk = None then active s + 1 else active s)"
  using assms by (cases rule: ip_checks_cases) auto

lemma conn_inv_get_or_create:
  assumes inv: "conn_inv (st, guards)" and g: "get_or_create_state alloc_now ip b sb st = (ref, st1)"
  shows "conn_inv (st1, guards)"
proof -
  have wf: "wf_table st" using inv by (simp add: conn_inv_def)
  note gc = get_or_create_state [OF g wf]
  have "map_of (ip_table st1) ip' = Some r" if "(ip', r) \<in> set guards" for ip' r
    using conn_inv_guard [OF inv that] gc(3,5,8) by (cases "ip' = ip") auto
  moreover have "unat (active (heap st1 ! r)) = held_by r guards" if "r < length (heap st1)" for r
  proof (cases "r < length (heap st)")
    case True
    then show ?thesis using inv gc(6) by (simp add: conn_inv_def)
  next
    case False
    then have "st1 \<noteq> st" using that by auto
    then have h: "heap st1 = heap st @ [ip_state_new alloc_now b sb]" "r = length (heap st)"
      using g that False by (auto simp: get_or_create_state_def split: option.splits)
    have "snd x \<noteq> r" if "x \<in> set guards" for x
      using conn_inv_guard [OF inv, of "fst x" "snd x"] that wf_table_bound [OF wf, of "fst x" "snd x"] h(2) by auto
    then have "filter (\<lambda>g. snd g = r) guards = []" by (auto simp: filter_empty_conv)
    then show ?thesis using h by (simp add: held_by_def ip_state_new_def)
  qed
  ultimately show ?thesis using gc(2) by (auto simp: conn_inv_def)
qed

lemma conn_inv_update:
  assumes inv: "conn_inv (st, guards)" and a: "active s' = active (heap st ! ref)"
  shows "conn_inv (st\<lparr>heap := (heap st)[ref := s']\<rparr>, guards)"
  using inv a by (auto simp: conn_inv_def wf_table_heap_update nth_list_update_at)

lemma unat_suc: "unat (x :: u32) < 2 ^ 32 - 1 \<Longrightarrow> unat (x + 1) = unat x + 1"
  by (simp add: unat_word_ariths)

lemma wf_table_config: "wf_table (st\<lparr>config := c\<rparr>) \<longleftrightarrow> wf_table st"
  by (simp add: wf_table_def)

lemma conn_inv_step:
  assumes "conn_step contains w w'" "conn_inv w"
  shows "conn_inv w'"
  using assms
proof (induction rule: conn_step.induct)
  case (admit peer peek now alloc_now st ref st' guards)
  from admit(1) show ?case
  proof (cases rule: check_at_cases)
    case (stateful r st1 blk s')
    then have blk: "blk = None" "r = ref" by (auto split: option.splits)
    have wf: "wf_table st" using admit(3) by (simp add: conn_inv_def)
    note gc = get_or_create_state [OF stateful(2) wf]
    have inv1: "conn_inv (st1, guards)" by (rule conn_inv_get_or_create [OF admit(3) stateful(2)])
    have act: "active s' = active (heap st1 ! ref) + 1" using ip_checks_active [OF stateful(3)] blk by simp
    have n: "unat (active (heap st1 ! ref)) = held_by ref guards" using inv1 gc(4) blk by (simp add: conn_inv_def)
    have "held_by ref guards < 2 ^ 32 - 1" using held_by_le [of ref guards] admit(2) by linarith
    then have "unat (active s') = held_by ref guards + 1" using unat_suc [of "active (heap st1 ! ref)"] n act by simp
    moreover have "unat (active (heap st1 ! q)) = held_by q guards" if "q < length (heap st1)" for q
      using inv1 that by (simp add: conn_inv_def)
    ultimately show ?thesis using inv1 gc(3,4) blk
      by (auto simp: stateful(4) conn_inv_def wf_table_heap_update nth_list_update_at)
  qed (use static_checks_not_Allow in auto)
next
  case (refuse peer peek now alloc_now st d st' guards)
  from refuse(1) show ?case
  proof (cases rule: check_at_cases)
    case (stateful r st1 blk s')
    have blk: "blk \<noteq> None" using refuse(2) [of r] stateful(5) by (cases blk) auto
    have "active s' = active (heap st1 ! r)" using ip_checks_active [OF stateful(3)] blk by simp
    then show ?thesis
      using conn_inv_update [OF conn_inv_get_or_create [OF refuse(3) stateful(2)]] stateful(4) by simp
  qed (use refuse in auto)
next
  case (close g guards st)
  obtain ip ref where g: "g = (ip, ref)" by (cases g)
  have m: "map_of (ip_table st) ip = Some ref" using conn_inv_guard [OF close(2)] close(1) g by simp
  have b: "ref < length (heap st)" using wf_table_bound [OF _ m] close(2) by (simp add: conn_inv_def)
  have h: "held_by q (remove1 g guards) + (if ref = q then 1 else 0) = held_by q guards" for q
    using held_by_remove1 [OF close(1), of q] g by simp
  have "unat (active (heap (release ref st) ! q)) = held_by q (remove1 g guards)" if "q < length (heap st)" for q
  proof -
    have "unat (active (heap st ! q)) = held_by q guards" using close(2) that by (simp add: conn_inv_def)
    then show ?thesis using h [of q] b that
      by (cases "q = ref") (auto simp: release_def ip_state_release_def unat_sat_sub)
  qed
  moreover have "\<forall>(ip, r) \<in> set (remove1 g guards). map_of (ip_table st) ip = Some r"
    using close(2) by (auto simp: conn_inv_def dest: notin_set_remove1 in_set_remove1 [THEN iffD1, rotated] set_remove1_subset [THEN subsetD])
  ultimately show ?case using close(2) by (simp add: conn_inv_def g release_def wf_table_heap_update)
next
  case (evict st guards now)
  have wf: "wf_table st" using evict by (simp add: conn_inv_def)
  have "map_of (ip_table (evict_at now st)) ip = Some ref" if "(ip, ref) \<in> set guards" for ip ref
  proof -
    have m: "map_of (ip_table st) ip = Some ref" by (rule conn_inv_guard [OF evict that])
    have "0 < held_by ref guards" using that by (force simp: held_by_def length_greater_0_conv filter_empty_conv)
    then have "0 < unat (active (heap st ! ref))"
      using evict wf_table_bound [OF wf m] by (simp add: conn_inv_def)
    then have "0 < active (heap st ! ref)" by (simp add: word_less_nat_alt)
    then show ?thesis using m wf
      by (simp add: evict_at_def map_of_filter_distinct wf_table_def keep_entry_def)
  qed
  then show ?case using evict wf_table_evict [OF wf] by (auto simp: conn_inv_def evict_at_def)
next
  case (reconfigure st guards c)
  then show ?case by (simp add: conn_inv_def wf_table_config)
qed

lemma conn_inv_initial: "conn_inv (protection_state_new c, [])"
  by (simp add: conn_inv_def protection_state_new_def wf_table_def)

lemma conn_inv_reach:
  "(conn_step contains)\<^sup>*\<^sup>* (protection_state_new c, []) w \<Longrightarrow> conn_inv w"
  by (induction rule: rtranclp_induct) (auto intro: conn_inv_initial conn_inv_step)

lemma held_for_le:
  assumes "conn_inv (st, guards)" "map_of (ip_table st) ip = Some ref"
  shows "held_for ip guards \<le> held_by ref guards"
proof -
  have "\<forall>g \<in> set guards. fst g = ip \<longrightarrow> snd g = ref"
    using conn_inv_guard [OF assms(1)] assms(2) by fastforce
  then show ?thesis unfolding held_for_def held_by_def
    by (induction guards) auto
qed

lemma held_for_absent:
  assumes "conn_inv (st, guards)" "map_of (ip_table st) ip = None"
  shows "held_for ip guards = 0"
  using conn_inv_guard [OF assms(1)] assms(2) by (force simp: held_for_def filter_empty_conv)

lemma admission_within_limit:
  assumes inv: "conn_inv (st, guards)"
    and check: "check_at contains peer peek now alloc_now st = (Allow ref, st')"
    and max: "0 < max_concurrent_per_ip (config st)"
  shows "held_for (to_canonical peer) guards < unat (max_concurrent_per_ip (config st))"
  using check
proof (cases rule: check_at_cases)
  case (stateful r st1 blk s')
  then have blk: "blk = None" by (auto split: option.splits)
  have wf: "wf_table st" using inv by (simp add: conn_inv_def)
  note gc = get_or_create_state [OF stateful(2) wf]
  have inv1: "conn_inv (st1, guards)" by (rule conn_inv_get_or_create [OF inv stateful(2)])
  from stateful(3) have "active (heap st1 ! r) < max_concurrent_per_ip (config st)"
    by (cases rule: ip_checks_cases) (use blk max in auto)
  moreover have "unat (active (heap st1 ! r)) = held_by r guards" using inv1 gc(4) by (simp add: conn_inv_def)
  ultimately show ?thesis using held_for_le [OF inv1 gc(3)] by (simp add: word_less_nat_alt)
qed (use static_checks_not_Allow in auto)

subsection \<open>The penalty box\<close>

definition event_before :: "u64 \<Rightarrow> prot_event \<Rightarrow> bool" where
  "event_before deadline e =
     (case e of Check _ _ now _ \<Rightarrow> now < deadline | EvictAt now \<Rightarrow> now < deadline | Close _ \<Rightarrow> True)"

definition penalized_until :: "ipaddr \<Rightarrow> u64 \<Rightarrow> protection_state \<Rightarrow> bool" where
  "penalized_until ip deadline st \<longleftrightarrow>
     (\<exists>ref. map_of (ip_table st) ip = Some ref \<and> deadline \<le> penalty_deadline_ns (heap st ! ref))"

lemma ip_checks_deadline:
  assumes "ip_checks cfg now s = (blk, s')"
  shows "penalty_deadline_ns s \<le> penalty_deadline_ns s'"
    and "blk = Some RateLimited \<Longrightarrow> 0 < penalty_box_duration_ms cfg \<Longrightarrow>
      sat_add now (sat_mul (penalty_box_duration_ms cfg) 1000000) \<le> penalty_deadline_ns s'"
  using assms by (cases rule: ip_checks_cases; auto simp: penalize_def)+

lemma penalized_until_update:
  assumes "penalized_until ip D st" "wf_table st" "penalty_deadline_ns (heap st ! ref) \<le> penalty_deadline_ns s'"
  shows "penalized_until ip D (st\<lparr>heap := (heap st)[ref := s']\<rparr>)"
proof -
  obtain r where r: "map_of (ip_table st) ip = Some r" "D \<le> penalty_deadline_ns (heap st ! r)"
    using assms(1) by (auto simp: penalized_until_def)
  have "r < length (heap st)" by (rule wf_table_bound [OF assms(2) r(1)])
  then show ?thesis using r assms(3) by (auto simp: penalized_until_def nth_list_update_at)
qed

lemma penalized_until_step:
  assumes pen: "penalized_until ip D st" and wf: "wf_table st" and on: "0 < penalty_box_duration_ms (config st)"
    and e: "event_before D e" and step: "prot_step contains e st = (d, st')"
  shows "penalized_until ip D st' \<and> \<not> admits ip e d"
proof (cases e)
  case (Check peer peek now alloc_now)
  obtain d' where d: "d = Some d'" and c: "check_at contains peer peek now alloc_now st = (d', st')"
    using step Check by (auto split: prod.splits)
  from c show ?thesis
  proof (cases rule: check_at_cases)
    case static
    then show ?thesis using pen static_checks_not_Allow by (auto simp: admits_def d split: decision.splits)
  next
    case (stateful ref st1 blk s')
    note gc = get_or_create_state [OF stateful(2) wf]
    obtain r where r: "map_of (ip_table st) ip = Some r" "D \<le> penalty_deadline_ns (heap st ! r)"
      using pen by (auto simp: penalized_until_def)
    have rl: "r < length (heap st)" by (rule wf_table_bound [OF wf r(1)])
    have pen1: "penalized_until ip D st1"
      using r gc(5,6,8) rl by (cases "ip = to_canonical peer") (auto simp: penalized_until_def)
    have "penalized_until ip D st'"
      unfolding stateful(4) by (rule penalized_until_update [OF pen1 gc(2) ip_checks_deadline(1) [OF stateful(3)]])
    moreover have "\<not> admits ip e d" if "to_canonical peer = ip"
    proof -
      have "heap st1 ! ref = heap st ! r" using gc(8) that r(1) by auto
      moreover have "now < D" using e Check by (simp add: event_before_def)
      ultimately have b: "boxed (config st) now (heap st1 ! ref)"
        using r(2) on by (auto simp: boxed_def word_less_nat_alt word_le_nat_alt)
      from stateful(3) have "blk \<noteq> None" by (cases rule: ip_checks_cases) (use b in auto)
      then show ?thesis using stateful(5) by (auto simp: admits_def d split: option.splits)
    qed
    ultimately show ?thesis using Check by (auto simp: admits_def)
  qed
next
  case (EvictAt now)
  obtain r where r: "map_of (ip_table st) ip = Some r" "D \<le> penalty_deadline_ns (heap st ! r)"
    using pen by (auto simp: penalized_until_def)
  have "now < D" using e EvictAt by (simp add: event_before_def)
  then have "keep_entry (config st) now (heap st ! r)"
    using r(2) on by (auto simp: keep_entry_def word_less_nat_alt word_le_nat_alt)
  then show ?thesis using r step EvictAt wf
    by (auto simp: penalized_until_def evict_at_def admits_def map_of_filter_distinct wf_table_def)
next
  case (Close ref)
  then show ?thesis using step penalized_until_update [OF pen wf, of ref "ip_state_release (heap st ! ref)"]
    by (auto simp: release_def ip_state_release_def admits_def)
qed

lemma penalized_until_run:
  "prot_run contains es st = (ds, st') \<Longrightarrow> penalized_until ip D st \<Longrightarrow> wf_table st \<Longrightarrow>
   0 < penalty_box_duration_ms (config st) \<Longrightarrow> list_all (event_before D) es \<Longrightarrow> admitted ip es ds = 0"
proof (induction es arbitrary: st ds)
  case (Cons e es)
  obtain d st1 where s: "prot_step contains e st = (d, st1)" by (cases "prot_step contains e st")
  then obtain ds1 where ds: "prot_run contains es st1 = (ds1, st')" "ds = d # ds1"
    using Cons(2) by (auto split: prod.splits)
  have "penalized_until ip D st1 \<and> \<not> admits ip e d"
    using penalized_until_step [OF Cons(3,4,5) _ s] Cons(6) by simp
  then show ?case
    using Cons(1) [OF ds(1)] prot_step_wf [OF Cons(4) s] Cons(5,6) ds(2) by simp
qed simp

subsection \<open>Starved buckets\<close>

definition starved :: "(ip_state \<Rightarrow> u32 \<times> u64) \<Rightarrow> protection_state \<Rightarrow> bool" where
  "starved view st \<longleftrightarrow> (\<forall>(_, ref) \<in> set (ip_table st). fst (view (heap st ! ref)) < 1000)"

lemma refill_and_consume_starved:
  assumes "refill_and_consume t l now rate b = (ok, t', l')" "t < 1000" "b < 1000"
  shows "\<not> ok \<and> t' < 1000"
  using assms(1)
  by (cases rule: refill_and_consume_cases) (use assms(2,3) in \<open>auto simp: word_less_nat_alt split: if_splits\<close>)

context ip_limit
begin

lemma ip_checks_starved:
  assumes "ip_checks cfg now s = (blk, s')" "lim_rate cfg = Fin r" "0 < r" "lim_burst cfg < 1000" "fst (view s) < 1000"
  shows "blk \<noteq> None \<and> fst (view s') < 1000"
proof -
  obtain t l where v: "view s = (t, l)" by (cases "view s")
  obtain t' l' where v': "view s' = (t', l')" by (cases "view s'")
  from checks [OF assms(2,3,1) v] show ?thesis
    using refill_and_consume_starved [of t l now "Fin r" "lim_burst cfg" _ t' l'] assms(4,5) v v' by auto
qed

lemma starved_step:
  assumes step: "prot_step contains e st = (d, st')" and wf: "wf_table st" and st: "starved view st"
    and c: "lim_rate (config st) = Fin r" "0 < r" "lim_burst (config st) < 1000"
  shows "starved view st' \<and> \<not> admits ip e d"
proof (cases e)
  case (Check peer peek now alloc_now)
  obtain d' where d: "d = Some d'" and ch: "check_at contains peer peek now alloc_now st = (d', st')"
    using step Check by (auto split: prod.splits)
  from ch show ?thesis
  proof (cases rule: check_at_cases)
    case static
    then show ?thesis using st static_checks_not_Allow by (auto simp: admits_def d split: decision.splits)
  next
    case (stateful ref st1 blk s')
    note gc = get_or_create_state [OF stateful(2) wf]
    have all: "fst (view (heap st1 ! q)) < 1000" if "(ip', q) \<in> set (ip_table st1)" for ip' q
    proof (cases "q < length (heap st)")
      case True
      then have "(ip', q) \<in> set (ip_table st)"
        using stateful(2) that by (auto simp: get_or_create_state_def split: option.splits)
      then show ?thesis using st gc(6) [OF True] by (auto simp: starved_def)
    next
      case False
      then have "heap st1 ! q = ip_state_new alloc_now (burst_fp (config st)) (sustained_burst_fp (config st))"
        using stateful(2) that wf
        by (fastforce simp: get_or_create_state_def wf_table_def split: option.splits)
      then show ?thesis using c(3) by (simp add: fresh)
    qed
    have "fst (view (heap st1 ! ref)) < 1000" using all map_of_SomeD [OF gc(3)] by blast
    then have s: "blk \<noteq> None" "fst (view s') < 1000" using ip_checks_starved [OF stateful(3) c] by auto
    have "starved view st'" using all s(2) gc(4)
      by (fastforce simp: starved_def stateful(4) nth_list_update split: if_splits)
    then show ?thesis using s(1) stateful(5) by (auto simp: admits_def d split: option.splits)
  qed
next
  case (EvictAt now)
  then show ?thesis using step st by (auto simp: starved_def evict_at_def admits_def)
next
  case (Close ref)
  have "view (heap st' ! i) = view (heap st ! i)" for i
    using step Close
    by (cases "ref < length (heap st)"; cases "i = ref") (auto simp: release_def released list_update_beyond)
  then show ?thesis using step st Close by (auto simp: starved_def release_def admits_def)
qed

lemma starved_run:
  "prot_run contains es st = (ds, st') \<Longrightarrow> wf_table st \<Longrightarrow> starved view st \<Longrightarrow>
   lim_rate (config st) = Fin r \<Longrightarrow> 0 < r \<Longrightarrow> lim_burst (config st) < 1000 \<Longrightarrow> admitted ip es ds = 0"
proof (induction es arbitrary: st ds)
  case (Cons e es)
  obtain d st1 where s: "prot_step contains e st = (d, st1)" by (cases "prot_step contains e st")
  then obtain ds1 where ds: "prot_run contains es st1 = (ds1, st')" "ds = d # ds1"
    using Cons(2) by (auto split: prod.splits)
  have "starved view st1 \<and> \<not> admits ip e d" by (rule starved_step [OF s Cons(3-)])
  then show ?case using Cons(1) [OF ds(1)] prot_step_wf [OF Cons(3) s] Cons(5-) ds(2) by simp
qed simp

end

subsection \<open>Reports\<close>

definition within_burst :: "protection_config \<Rightarrow> ip_state \<Rightarrow> bool" where
  "within_burst cfg s \<longleftrightarrow> tokens s \<le> burst_fp cfg \<and> sustained_tokens s \<le> sustained_burst_fp cfg"

lemma refill_and_consume_projected:
  assumes "t \<le> b"
  shows "fst (refill_and_consume t l now rate b) \<longleftrightarrow> \<not> projected t l now rate b < 1000"
proof -
  obtain ok t' l' where a: "refill_and_consume t l now rate b = (ok, t', l')"
    by (cases "refill_and_consume t l now rate b")
  have s: "sat_add t 0 = t" using unat_u32_lt [of t] by (simp add: sat_add_def)
  have m: "min t b = t" using assms by (simp add: min_def)
  have u: "x < 1000 \<longleftrightarrow> unat x < 1000" for x :: u32 by (simp add: word_less_nat_alt)
  have mn: "unat (min x y) = min (unat x) (unat y)" for x y :: u32
    by (simp add: min_def word_le_nat_alt)
  from a show ?thesis
    by (cases rule: refill_and_consume_cases) (auto simp: a projected_def s m u mn not_less)
qed

lemma report_rate_limited_iff:
  assumes "within_burst cfg s"
  shows "report_rate_limited cfg now s \<longleftrightarrow>
    \<not> (fst (rate_ok cfg now s) \<and> fst (sustained_ok cfg now (snd (rate_ok cfg now s))))"
proof -
  have "fst (rate_ok cfg now s) \<longleftrightarrow> \<not> (f64_lt (Fin 0) (tokens_per_ns cfg) \<and>
      projected (tokens s) (last_refill_ns s) now (tokens_per_ns cfg) (burst_fp cfg) < 1000)"
    using refill_and_consume_projected [of "tokens s" "burst_fp cfg" "last_refill_ns s" now "tokens_per_ns cfg"] assms
    by (auto simp: rate_ok_def within_burst_def split: prod.splits)
  moreover have "fst (sustained_ok cfg now s1) \<longleftrightarrow> \<not> (f64_lt (Fin 0) (sustained_tokens_per_ns cfg) \<and>
      projected (sustained_tokens s1) (sustained_last_refill_ns s1) now (sustained_tokens_per_ns cfg)
        (sustained_burst_fp cfg) < 1000)" if "sustained_tokens s1 \<le> sustained_burst_fp cfg" for s1
    using refill_and_consume_projected [OF that, of "sustained_last_refill_ns s1" now "sustained_tokens_per_ns cfg"]
    by (auto simp: sustained_ok_def split: prod.splits)
  ultimately show ?thesis using assms by (auto simp: report_rate_limited_def within_burst_def)
qed

lemma ip_checks_verdict:
  assumes "within_burst cfg s"
  shows "fst (ip_checks cfg now s) =
    (if boxed cfg now s then Some PenaltyBoxed
     else if report_rate_limited cfg now s then Some RateLimited
     else if 0 < max_concurrent_per_ip cfg \<and> max_concurrent_per_ip cfg \<le> active s then Some TooManyConnections
     else None)"
proof -
  obtain blk s' where c: "ip_checks cfg now s = (blk, s')" by (cases "ip_checks cfg now s")
  then show ?thesis
    by (cases rule: ip_checks_cases) (auto simp: c report_rate_limited_iff [OF assms])
qed

lemma in_table_filter:
  "wf_table st \<Longrightarrow> map_of (ip_table st) ip = Some ref \<Longrightarrow>
   ip \<in> set (map fst (filter P (ip_table st))) \<longleftrightarrow> P (ip, ref)"
  by (auto simp: wf_table_def image_iff dest: map_of_SomeD) (metis map_of_is_SomeI map_of_SomeD option.inject)+

lemma blocked_ips_eq:
  assumes "wf_table st" "map_of (ip_table st) ip = Some ref" "blocked_ips now st = (rl, cl, pb)"
  shows "ip \<in> set pb \<longleftrightarrow> boxed (config st) now (heap st ! ref)"
    and "ip \<in> set rl \<longleftrightarrow> \<not> boxed (config st) now (heap st ! ref) \<and> report_rate_limited (config st) now (heap st ! ref)"
    and "ip \<in> set cl \<longleftrightarrow> \<not> boxed (config st) now (heap st ! ref) \<and> 0 < max_concurrent_per_ip (config st) \<and>
      max_concurrent_per_ip (config st) \<le> active (heap st ! ref)"
proof -
  have l: "rl = map fst (filter (\<lambda>(_, ref). \<not> boxed (config st) now (heap st ! ref) \<and>
      report_rate_limited (config st) now (heap st ! ref)) (ip_table st))"
    "cl = map fst (filter (\<lambda>(_, ref). \<not> boxed (config st) now (heap st ! ref) \<and>
      0 < max_concurrent_per_ip (config st) \<and>
      max_concurrent_per_ip (config st) \<le> active (heap st ! ref)) (ip_table st))"
    "pb = map fst (filter (\<lambda>(_, ref). boxed (config st) now (heap st ! ref)) (ip_table st))"
    using assms(3) by (auto simp: blocked_ips_def Let_def filter_filter case_prod_unfold)
  show "ip \<in> set pb \<longleftrightarrow> boxed (config st) now (heap st ! ref)"
    unfolding l(3) by (subst in_table_filter [OF assms(1,2)]) simp
  show "ip \<in> set rl \<longleftrightarrow> \<not> boxed (config st) now (heap st ! ref) \<and> report_rate_limited (config st) now (heap st ! ref)"
    unfolding l(1) by (subst in_table_filter [OF assms(1,2)]) auto
  show "ip \<in> set cl \<longleftrightarrow> \<not> boxed (config st) now (heap st ! ref) \<and> 0 < max_concurrent_per_ip (config st) \<and>
      max_concurrent_per_ip (config st) \<le> active (heap st ! ref)"
    unfolding l(2) by (subst in_table_filter [OF assms(1,2)]) auto
qed

lemma check_at_verdict:
  assumes "map_of (ip_table st) (to_canonical peer) = Some ref"
    and "static_checks contains (config st) (to_canonical peer) peek = None"
  shows "fst (check_at contains peer peek now alloc_now st) =
    (case fst (ip_checks (config st) now (heap st ! ref)) of Some reason \<Rightarrow> Block reason | None \<Rightarrow> Allow ref)"
  using assms by (auto simp: check_at_def get_or_create_state_def Let_def split: prod.splits)

subsection \<open>Fingerprints\<close>

lemma from_hex_digit_hex_digit: "n < 16 \<Longrightarrow> from_hex_digit (hex_digit n) = Some (of_nat n)"
proof -
  assume "n < 16"
  then have "n \<in> set [0..<16]" by simp
  moreover have "\<forall>n \<in> set [0..<16]. from_hex_digit (hex_digit n) = Some (of_nat n)" by code_simp
  ultimately show ?thesis by blast
qed

lemma nibbles: "push_bit 4 (of_nat (unat (b :: u8) div 16)) OR of_nat (unat b mod 16) = b"
proof -
  have "of_nat (unat b div 16) = drop_bit 4 b"
    using unat_u8_lt [of b]
    by (intro unsigned_word_eqI [where 'a = nat]) (simp add: drop_bit_eq_div unat_div)
  moreover have "of_nat (unat b mod 16) = take_bit 4 b"
    by (rule unsigned_word_eqI [where 'a = nat]) (simp add: unsigned_take_bit_eq unat_of_nat take_bit_eq_mod unat_mod)
  moreover have "push_bit 4 (drop_bit 4 b) OR take_bit 4 b = b"
    by (rule bit_eqI) (auto simp: bit_simps)
  ultimately show ?thesis by simp
qed

lemma hex_pairs_bytes_to_hex: "hex_pairs (bytes_to_hex bs) = Some bs"
proof (induction bs)
  case (Cons b bs)
  have "unat b div 16 < 16" "unat b mod 16 < 16" using unat_u8_lt [of b] by auto
  then show ?case using Cons by (simp add: bytes_to_hex_def from_hex_digit_hex_digit nibbles)
qed (simp add: bytes_to_hex_def)

lemma length_bytes_to_hex: "length (bytes_to_hex bs) = 2 * length bs"
  by (induction bs) (auto simp: bytes_to_hex_def)

lemma hex_to_bytes16_bytes_to_hex: "length bs = 16 \<Longrightarrow> hex_to_bytes16 (bytes_to_hex bs) = Some bs"
  by (simp add: hex_to_bytes16_def length_bytes_to_hex hex_pairs_bytes_to_hex)

end
