(* ===== verification/Protection_Properties.thy ===== *)
theory Protection_Properties
  imports Protection
begin

text \<open>
  What the connection filter guarantees, over any sequence of admission checks, evictions and
  connection closes.
\<close>

section \<open>A sample configuration for the witnesses\<close>

definition sample_config :: protection_config where
  "sample_config = \<lparr>rate_limit_cps = None, rate_limit_burst = None, sustained_cpm = None,
     sustained_burst = None, penalty_box_duration_ms = 0, max_concurrent_per_ip = 1,
     ja3_blocklist = {}, ja4_blocklist = {}, tls_handshake_timeout_ms = 0, require_sni = False,
     allowlist = [], blocklist = [], tokens_per_ns = Fin 0, burst_fp = 0,
     sustained_tokens_per_ns = Fin 0, sustained_burst_fp = 0\<rparr>"

text \<open>A rate of \<open>1 / 2 ^ 20\<close> connections per nanosecond, and a burst of none.\<close>

definition limited_config :: protection_config where
  "limited_config = sample_config\<lparr>rate_limit_cps := Some (Fin (1953125 / 2048)),
     rate_limit_burst := Some (Fin 0), sustained_cpm := Some (Fin (60 * 1953125 / 2048)),
     sustained_burst := Some (Fin 0), penalty_box_duration_ms := 5\<rparr>"

definition sample_net :: "ip_network \<Rightarrow> ipaddr \<Rightarrow> bool" where
  "sample_net network ip = False"

definition sample_ip :: ipaddr where
  "sample_ip = V4 [10, 0, 0, 1]"

lemmas sample_defs = sample_config_def limited_config_def sample_ip_def protection_state_new_def
  precompute_def

lemma rnd_sample: "rnd (1 / 1048576) = Fin (1 / 1048576)"
  by (rule rnd_exact [of 1 "- 20"]) simp_all

lemma limited_rates:
  "tokens_per_ns (precompute limited_config) = Fin (1 / 1048576)" "burst_fp (precompute limited_config) = 0"
  "sustained_tokens_per_ns (precompute limited_config) = Fin (1 / 1048576)"
  by (simp_all add: sample_defs rnd_sample option_or_def unwrap_or_def f64_to_word.simps)

lemma sample_normal: "normal_rate (1 / 1048576)"
  using powi_mono2 [of "- 1021" "- 20"] by (simp add: normal_rate_def)

lemma sample_first:
  "check_at sample_net sample_ip peek_info_default 1 1 (protection_state_new sample_config) =
     (Allow 0, \<lparr>config = precompute sample_config, ip_table = [(sample_ip, 0)],
                heap = [(ip_state_new 1 0 0)\<lparr>active := 1\<rparr>]\<rparr>)"
  by (simp add: check_at_def static_checks_def get_or_create_state_def ip_checks_def boxed_def rate_ok_def
      sustained_ok_def sample_defs option_or_def unwrap_or_def f64_to_word.simps ip_state_new_def)

lemma wf_table_new: "wf_table (protection_state_new c)"
  by (simp add: wf_table_def protection_state_new_def)

section \<open>Properties\<close>

text \<open>C1. Concurrency limit. In every state the filter can reach through checks, closes, evictions and
  configuration swaps, an admission under a limit leaves the address with at most that many live
  connections.\<close>

theorem concurrency_limit:
  assumes "(conn_step contains)\<^sup>*\<^sup>* (protection_state_new c, []) (st, guards)"
    and "check_at contains peer peek now alloc_now st = (Allow ref, st')"
    and "0 < max_concurrent_per_ip (config st)"
  shows "held_for (to_canonical peer) ((to_canonical peer, ref) # guards) \<le> unat (max_concurrent_per_ip (config st))"
  using admission_within_limit [OF conn_inv_reach [OF assms(1)] assms(2,3)]
  by (simp add: held_for_def)

theorem concurrency_limit_witness:
  "held_for sample_ip [(sample_ip, 0)] \<le> 1"
  using concurrency_limit [OF rtranclp.rtrancl_refl sample_first]
  by (simp add: sample_defs)

text \<open>C13. The counter of live connections is exact: in every reachable state the active count of an IP
  state equals the number of connections that hold it, and those connections hold the state the
  table has for their address, so neither eviction nor a close can lose or double count one.\<close>

theorem active_count_exact:
  assumes "(conn_step contains)\<^sup>*\<^sup>* (protection_state_new c, []) (st, guards)" and "(ip, ref) \<in> set guards"
  shows "map_of (ip_table st) ip = Some ref \<and> unat (active (heap st ! ref)) = held_by ref guards"
proof -
  have inv: "conn_inv (st, guards)" by (rule conn_inv_reach [OF assms(1)])
  have m: "map_of (ip_table st) ip = Some ref" by (rule conn_inv_guard [OF inv assms(2)])
  moreover have "ref < length (heap st)" using wf_table_bound [OF _ m] inv by (simp add: conn_inv_def)
  ultimately show ?thesis using inv by (simp add: conn_inv_def)
qed

theorem active_count_exact_witness: "held_by 0 [(sample_ip, 0)] = 1"
proof -
  have "length ([] :: (ipaddr \<times> nat) list) < 2 ^ 32 - 1" by simp
  from active_count_exact [OF r_into_rtranclp [where r = "conn_step sample_net", OF conn_step.admit [OF sample_first this]], of sample_ip 0]
  show ?thesis by (simp add: sample_ip_def)
qed

text \<open>C2. Per-second rate limit. Start from a fresh filter, let any events happen (other clients,
  evictions, closes), and then look at any further stretch of time: an address is admitted at most
  burst plus rate times that time, in thousandths of a connection, up to the rounding of binary64
  and two thousandths. In particular letting its entry be evicted gains a client nothing.\<close>

theorem rate_limit_window:
  assumes "tokens_per_ns (precompute c) = Fin r" "normal_rate r"
    and "prot_run contains es1 (protection_state_new c) = (ds1, st1)" "chronological t0 es1"
    and "prot_run contains es2 st1 = (ds2, st2)" "chronological (end_time t0 es1) es2"
  shows "of_nat (1000 * admitted ip es2 ds2) \<le>
    of_nat (unat (burst_fp (precompute c))) +
    rate_ub r * (of_nat (unat (end_time (end_time t0 es1) es2)) - of_nat (unat (end_time t0 es1))) + 2"
  by (rule per_second.window_limit) (use assms in \<open>simp_all add: protection_state_new_def\<close>)

theorem rate_limit_window_witness:
  "of_nat (1000 * admitted sample_ip [Check sample_ip peek_info_default 7 9]
      (fst (prot_run sample_net [Check sample_ip peek_info_default 7 9]
              (snd (prot_run sample_net [EvictAt 3] (protection_state_new limited_config)))))) \<le>
   of_nat (unat (burst_fp (precompute limited_config))) + rate_ub (1 / 1048576) * 6 + 2"
  using rate_limit_window [OF limited_rates(1) sample_normal, of sample_net "[EvictAt 3]" _ _ 2
      "[Check sample_ip peek_info_default 7 9]" _ _ sample_ip, OF prod.collapse [symmetric] _ prod.collapse [symmetric]]
  by simp

text \<open>C11. Per-minute rate limit: the same bound for the sustained bucket.\<close>

theorem sustained_limit_window:
  assumes "sustained_tokens_per_ns (precompute c) = Fin r" "normal_rate r"
    and "prot_run contains es1 (protection_state_new c) = (ds1, st1)" "chronological t0 es1"
    and "prot_run contains es2 st1 = (ds2, st2)" "chronological (end_time t0 es1) es2"
  shows "of_nat (1000 * admitted ip es2 ds2) \<le>
    of_nat (unat (sustained_burst_fp (precompute c))) +
    rate_ub r * (of_nat (unat (end_time (end_time t0 es1) es2)) - of_nat (unat (end_time t0 es1))) + 2"
  by (rule per_minute.window_limit) (use assms in \<open>simp_all add: protection_state_new_def\<close>)

theorem sustained_limit_window_witness:
  "of_nat (1000 * admitted sample_ip [Check sample_ip peek_info_default 7 9]
      (fst (prot_run sample_net [Check sample_ip peek_info_default 7 9]
              (snd (prot_run sample_net [EvictAt 3] (protection_state_new limited_config)))))) \<le>
   of_nat (unat (sustained_burst_fp (precompute limited_config))) + rate_ub (1 / 1048576) * 6 + 2"
  using sustained_limit_window [OF limited_rates(3) sample_normal, of sample_net "[EvictAt 3]" _ _ 2
      "[Check sample_ip peek_info_default 7 9]" _ _ sample_ip, OF prod.collapse [symmetric] _ prod.collapse [symmetric]]
  by simp

text \<open>C9. The penalty box holds. After an address exhausted a rate limit at \<open>now\<close>, no check of that
  address is admitted before \<open>now\<close> plus the penalty duration, whatever else happens in between,
  evictions included.\<close>

theorem penalty_box_enforced:
  assumes "wf_table st" "0 < penalty_box_duration_ms (config st)"
    and "check_at contains peer peek now alloc_now st = (Block RateLimited, st1)"
    and "prot_run contains es st1 = (ds, st2)"
    and "list_all (event_before (sat_add now (sat_mul (penalty_box_duration_ms (config st)) 1000000))) es"
  shows "admitted (to_canonical peer) es ds = 0"
  using assms(3)
proof (cases rule: check_at_cases)
  case (stateful ref st' blk s')
  note gc = get_or_create_state [OF stateful(2) assms(1)]
  have "blk = Some RateLimited" using stateful(5) by (auto split: option.splits)
  then have "sat_add now (sat_mul (penalty_box_duration_ms (config st)) 1000000) \<le> penalty_deadline_ns s'"
    using ip_checks_deadline(2) [OF stateful(3)] assms(2) by simp
  then have "penalized_until (to_canonical peer)
      (sat_add now (sat_mul (penalty_box_duration_ms (config st)) 1000000)) st1"
    using gc(3,4) by (simp add: penalized_until_def stateful(4))
  moreover have "wf_table st1" "config st1 = config st"
    using gc(1,2) by (simp_all add: stateful(4) wf_table_heap_update)
  ultimately show ?thesis using penalized_until_run [OF assms(4)] assms(2,5) by simp
qed (auto simp: static_checks_def split: if_splits)

lemma limited_check:
  "check_at sample_net sample_ip peek_info_default 1 1 (protection_state_new limited_config) =
     (Block RateLimited, snd (check_at sample_net sample_ip peek_info_default 1 1 (protection_state_new limited_config)))"
proof -
  have "fst (check_at sample_net sample_ip peek_info_default 1 1 (protection_state_new limited_config)) = Block RateLimited"
    by (simp add: check_at_def static_checks_def get_or_create_state_def ip_checks_def boxed_def rate_ok_def
        refill_and_consume_def sat_sub_def ONE_TOKEN_def sustained_ok_def sample_defs option_or_def unwrap_or_def
        f64_to_word.simps ip_state_new_def rnd_sample Let_def)
  then show ?thesis by (metis prod.collapse)
qed

theorem penalty_box_enforced_witness:
  "admitted sample_ip [EvictAt 2, Check sample_ip peek_info_default 4000000 4000000]
     (fst (prot_run sample_net [EvictAt 2, Check sample_ip peek_info_default 4000000 4000000]
        (snd (check_at sample_net sample_ip peek_info_default 1 1 (protection_state_new limited_config))))) = 0"
proof -
  have "0 < penalty_box_duration_ms (config (protection_state_new limited_config))"
    by (simp add: sample_defs)
  moreover have "list_all (event_before (sat_add 1 (sat_mul
      (penalty_box_duration_ms (config (protection_state_new limited_config))) 1000000)))
      [EvictAt 2, Check sample_ip peek_info_default 4000000 4000000]"
    by (simp add: event_before_def sample_defs sat_add_def sat_mul_def)
  ultimately have "admitted (to_canonical sample_ip) [EvictAt 2, Check sample_ip peek_info_default 4000000 4000000]
     (fst (prot_run sample_net [EvictAt 2, Check sample_ip peek_info_default 4000000 4000000]
        (snd (check_at sample_net sample_ip peek_info_default 1 1 (protection_state_new limited_config))))) = 0"
    by (intro penalty_box_enforced [OF wf_table_new _ limited_check prod.collapse [symmetric]])
  then show ?thesis by (simp add: sample_ip_def)
qed

text \<open>C12. The report of blocked addresses is accurate: for an address with an entry, which passes the
  static checks, \<open>blocked_ips\<close> lists it as penalty-boxed, as rate-limited, or (only) as at its
  connection limit exactly when a check at that moment would be refused for that reason.\<close>

theorem blocked_ips_accurate:
  assumes "wf_table st" "map_of (ip_table st) (to_canonical peer) = Some ref"
    and "within_burst (config st) (heap st ! ref)"
    and "static_checks contains (config st) (to_canonical peer) peek = None"
    and "blocked_ips now st = (rl, cl, pb)"
  shows "(to_canonical peer \<in> set pb \<longleftrightarrow>
           fst (check_at contains peer peek now alloc_now st) = Block PenaltyBoxed) \<and>
         (to_canonical peer \<in> set rl \<longleftrightarrow>
           fst (check_at contains peer peek now alloc_now st) = Block RateLimited) \<and>
         (to_canonical peer \<in> set cl - set rl \<longleftrightarrow>
           fst (check_at contains peer peek now alloc_now st) = Block TooManyConnections)"
  using blocked_ips_eq [OF assms(1,2,5)] ip_checks_verdict [OF assms(3), of now]
  by (simp add: check_at_verdict [OF assms(2,4)])

theorem blocked_ips_accurate_witness:
  "fst (check_at sample_net sample_ip peek_info_default 2 2
     (snd (check_at sample_net sample_ip peek_info_default 1 1 (protection_state_new sample_config)))) =
   Block TooManyConnections"
proof -
  let ?st = "\<lparr>config = precompute sample_config, ip_table = [(sample_ip, 0)],
      heap = [(ip_state_new 1 0 0)\<lparr>active := 1\<rparr>]\<rparr>"
  have "wf_table ?st" "map_of (ip_table ?st) (to_canonical sample_ip) = Some 0"
    "within_burst (config ?st) (heap ?st ! 0)"
    "static_checks sample_net (config ?st) (to_canonical sample_ip) peek_info_default = None"
    "blocked_ips 2 ?st = ([], [sample_ip], [])"
    by (simp_all add: wf_table_def within_burst_def static_checks_def blocked_ips_def boxed_def
        report_rate_limited_def sample_defs option_or_def unwrap_or_def f64_to_word.simps ip_state_new_def)
  from blocked_ips_accurate [OF this, of 2] show ?thesis by (simp add: sample_first) (simp add: sample_ip_def)
qed

text \<open>C14. Fail closed. Where a fingerprint blocklist is configured, a client that is not allowlisted
  and whose hello was not read completely is refused, and leaves no trace in the per-IP state.\<close>

theorem incomplete_hello_refused:
  assumes "\<not> list_ex (\<lambda>network. contains network (to_canonical peer)) (allowlist (config st))"
    and "ja3_blocklist (config st) \<noteq> {} \<or> ja4_blocklist (config st) \<noteq> {}" and "\<not> complete peek"
  shows "\<exists>reason. check_at contains peer peek now alloc_now st = (Block reason, st)"
proof -
  have "static_checks contains (config st) (to_canonical peer) peek \<in> {Some (Block CidrBlocked), Some (Block IncompleteHandshake)}"
    using assms by (simp add: static_checks_def)
  then show ?thesis by (auto simp: check_at_def)
qed

theorem incomplete_hello_refused_witness:
  "\<exists>reason. check_at sample_net sample_ip peek_info_default 1 1
      (protection_state_new (sample_config\<lparr>ja4_blocklist := {str ''t''}\<rparr>)) =
      (Block reason, protection_state_new (sample_config\<lparr>ja4_blocklist := {str ''t''}\<rparr>))"
  by (rule incomplete_hello_refused)
    (simp_all add: sample_net_def sample_defs peek_info_default_def list_ex_iff)

text \<open>C18. A per-address limiter, per second or per minute, whose burst is below one token admits no connection,
  ever (only the addresses on the allowlist, which no limiter sees, get through). A positive rate below one
  connection per second, or per minute, without an explicit burst is such a limiter, and so is a burst of 0 with a
  positive rate.\<close>

theorem fractional_rate_blocks_all:
  assumes "tokens_per_ns (precompute c) = Fin r \<and> burst_fp (precompute c) < 1000 \<or>
      sustained_tokens_per_ns (precompute c) = Fin r \<and> sustained_burst_fp (precompute c) < 1000"
    and "0 < r" "prot_run contains es (protection_state_new c) = (ds, st)"
  shows "admitted ip es ds = 0"
proof -
  have fresh: "starved view (protection_state_new c)" "wf_table (protection_state_new c)" for view
    by (simp_all add: protection_state_new_def starved_def wf_table_def)
  show ?thesis
    using assms(1) per_second.starved_run [OF assms(3) fresh(2,1), of r] per_minute.starved_run [OF assms(3) fresh(2,1), of r] assms(2)
    by (auto simp: protection_state_new_def)
qed

theorem fractional_rate_blocks_all_witness:
  "admitted sample_ip [Check sample_ip peek_info_default 5000000000 5000000000]
     (fst (prot_run sample_net [Check sample_ip peek_info_default 5000000000 5000000000]
       (protection_state_new (sample_config\<lparr>rate_limit_cps := Some (Fin (1953125 / 4194304))\<rparr>)))) = 0"
proof -
  let ?c = "sample_config\<lparr>rate_limit_cps := Some (Fin (1953125 / 4194304))\<rparr>"
  have "rnd (1 / 2147483648) = Fin (1 / 2147483648)"
    by (rule rnd_exact [of 1 "- 31"]) simp_all
  then have t: "tokens_per_ns (precompute ?c) = Fin (1 / 2147483648)"
    by (simp add: sample_defs)
  have "rnd (244140625 / 524288) = Fin (244140625 / 524288)"
    by (rule rnd_exact [of 244140625 "- 19"]) simp_all
  moreover have "\<lfloor>244140625 / 524288 :: rat\<rfloor> = 465" by (simp add: floor_eq_iff)
  ultimately have "burst_fp (precompute ?c) < 1000"
    by (simp add: sample_defs option_or_def unwrap_or_def f64_to_word.simps)
  then show ?thesis using t by (intro fractional_rate_blocks_all [OF _ _ prod.collapse [symmetric], where r = "1 / 2147483648"]) simp_all
qed

end
