(* ===== verification/Text.thy ===== *)
theory Text
  imports Prelude
begin

text \<open>
  Text processing of the Rust standard library on \<open>str\<close> values (UTF-8 byte lists): parsing of
  unsigned integers, white space as \<open>char::is_whitespace\<close> sees it, lines and fields.
\<close>

section \<open>Definitions\<close>

text \<open>\<open>str::parse::<uN>()\<close>: an optional \<open>+\<close>, at least one digit, the value below \<open>bound\<close>.\<close>

definition digits_val :: "bytes \<Rightarrow> nat" where
  "digits_val ds = foldl (\<lambda>acc d. 10 * acc + (unat d - 48)) 0 ds"

definition strip_plus :: "bytes \<Rightarrow> bytes" where
  "strip_plus bs = (case bs of [] \<Rightarrow> [] | b # rest \<Rightarrow> if b = 0x2B then rest else bs)"

definition parse_uint :: "nat \<Rightarrow> bytes \<Rightarrow> nat option" where
  "parse_uint bound bs =
     (let ds = strip_plus bs
      in if ds \<noteq> [] \<and> list_all is_ascii_digit ds \<and> digits_val ds < bound
         then Some (digits_val ds) else None)"

definition parse_u32 :: "bytes \<Rightarrow> u32 option" where
  "parse_u32 bs = map_option of_nat (parse_uint (2 ^ 32) bs)"

definition parse_u64 :: "bytes \<Rightarrow> u64 option" where
  "parse_u64 bs = map_option of_nat (parse_uint (2 ^ 64) bs)"

text \<open>The number of bytes of the white space character at the front, 0 when there is none. In
  valid UTF-8 none of the lead bytes can be inside another character.\<close>

definition ws_len :: "bytes \<Rightarrow> nat" where
  "ws_len bs =
     (if take 1 bs \<in> set (map (\<lambda>c. [c]) [9, 10, 11, 12, 13, 32]) then 1
      else if take 2 bs \<in> {[0xC2, 0x85], [0xC2, 0xA0]} then 2
      else if take 3 bs \<in> {[0xE1, 0x9A, 0x80], [0xE2, 0x80, 0xA8], [0xE2, 0x80, 0xA9],
                [0xE2, 0x80, 0xAF], [0xE2, 0x81, 0x9F], [0xE3, 0x80, 0x80]} \<or>
              take 2 bs = [0xE2, 0x80] \<and> 3 \<le> length bs \<and> 0x80 \<le> bs ! 2 \<and> bs ! 2 \<le> 0x8A then 3
      else 0)"

lemma ws_len_le: "ws_len bs \<le> length bs"
proof -
  have l: "take n bs \<in> A \<Longrightarrow> \<forall>x \<in> A. length x = n \<Longrightarrow> n \<le> length bs" for n A
    by (metis length_take min.cobounded1)
  show ?thesis
    using l [of 1 "set (map (\<lambda>c. [c]) [9, 10, 11, 12, 13, 32])"] l [of 2 "{[0xC2, 0x85], [0xC2, 0xA0]}"]
      l [of 3 "{[0xE1, 0x9A, 0x80], [0xE2, 0x80, 0xA8], [0xE2, 0x80, 0xA9],
                [0xE2, 0x80, 0xAF], [0xE2, 0x81, 0x9F], [0xE3, 0x80, 0x80]}"]
    unfolding ws_len_def by simp
qed

lemma ws_len_Nil [simp]: "ws_len [] = 0"
  by (simp add: ws_len_def)

function trim_start :: "bytes \<Rightarrow> bytes" where
  "trim_start bs = (if ws_len bs = 0 then bs else trim_start (drop (ws_len bs) bs))"
  by pat_completeness auto
termination
proof (relation "measure length")
  fix bs assume "ws_len bs \<noteq> 0"
  then show "(drop (ws_len bs) bs, bs) \<in> measure length" by (cases bs) auto
qed simp

declare trim_start.simps [simp del]

text \<open>The number of bytes of the white space character at the end.\<close>

definition ws_end :: "bytes \<Rightarrow> nat" where
  "ws_end bs =
     (if ws_len (drop (length bs - 1) bs) = 1 then 1
      else if ws_len (drop (length bs - 2) bs) = 2 then 2
      else if ws_len (drop (length bs - 3) bs) = 3 then 3 else 0)"

function trim_end :: "bytes \<Rightarrow> bytes" where
  "trim_end bs = (if ws_end bs = 0 then bs else trim_end (take (length bs - ws_end bs) bs))"
  by pat_completeness auto
termination
proof (relation "measure length")
  fix bs assume "ws_end bs \<noteq> 0"
  then show "(take (length bs - ws_end bs) bs, bs) \<in> measure length" by (cases bs) (auto simp: ws_end_def)
qed simp

declare trim_end.simps [simp del]

definition trim :: "bytes \<Rightarrow> bytes" where
  "trim bs = trim_end (trim_start bs)"

text \<open>\<open>split_whitespace\<close>: the non-empty runs between white space; \<open>field\<close> is the run read so far.\<close>

function split_ws :: "bytes \<Rightarrow> bytes \<Rightarrow> bytes list" where
  "split_ws field [] = (if field = [] then [] else [field])"
| "split_ws field (b # bs) =
     (let n = ws_len (b # bs)
      in if n = 0 then split_ws (field @ [b]) bs
         else (if field = [] then [] else [field]) @ split_ws [] (drop n (b # bs)))"
  by pat_completeness auto
termination by (relation "measure (\<lambda>(_, bs). length bs)") auto

definition split_whitespace :: "bytes \<Rightarrow> bytes list" where
  "split_whitespace bs = split_ws [] bs"

text \<open>\<open>str::lines\<close>: a final empty piece is dropped, and so is a carriage return at the end of a line
  that was closed by a line feed.\<close>

definition strip_cr :: "bytes \<Rightarrow> bytes" where
  "strip_cr l = (if l \<noteq> [] \<and> last l = 0x0D then butlast l else l)"

definition lines_of :: "bytes \<Rightarrow> bytes list" where
  "lines_of bs =
     (let ps = split_on (\<lambda>b. b = 0x0A) bs
      in map strip_cr (butlast ps) @ (if last ps = [] then [] else [last ps]))"

text \<open>What follows the last occurrence of a byte.\<close>

definition after_last :: "u8 \<Rightarrow> bytes \<Rightarrow> bytes option" where
  "after_last c bs = (if c \<in> set bs then Some (rev (takeWhile (\<lambda>b. b \<noteq> c) (rev bs))) else None)"

section \<open>Lemmas\<close>

lemma digits_val_Nil [simp]: "digits_val [] = 0"
  by (simp add: digits_val_def)

lemma digits_val_snoc [simp]: "digits_val (ds @ [d]) = 10 * digits_val ds + (unat d - 48)"
  by (simp add: digits_val_def)

lemma digits_val_single [simp]: "digits_val [d] = unat d - 48"
  by (simp add: digits_val_def)

lemma digit_byte: "n < 10 \<Longrightarrow> is_ascii_digit (of_nat (48 + n))"
  by (simp add: is_ascii_digit_def word_le_nat_alt del: of_nat_add)

lemma dec_not_Nil [simp]: "dec n \<noteq> []"
  by (subst dec.simps) auto

lemma dec_digits: "list_all is_ascii_digit (dec n)"
proof (induction n rule: dec.induct)
  case (1 n)
  then show ?case by (subst dec.simps) (auto simp: digit_byte simp del: of_nat_add)
qed

lemma digits_val_dec [simp]: "digits_val (dec n) = n"
proof (induction n rule: dec.induct)
  case (1 n)
  then show ?case by (subst dec.simps) (auto simp del: of_nat_add)
qed

lemma length_dec_le: "n < 10 ^ k \<Longrightarrow> 0 < k \<Longrightarrow> length (dec n) \<le> k"
proof (induction k arbitrary: n)
  case (Suc k)
  show ?case
  proof (cases "n < 10")
    case True
    then show ?thesis by (subst dec.simps) simp
  next
    case False
    then have "0 < k" using Suc.prems(1) by (cases k) auto
    moreover have "n div 10 < 10 ^ k" using Suc.prems(1) by (simp add: less_mult_imp_div_less mult.commute)
    ultimately show ?thesis using Suc.IH False by (subst dec.simps) simp
  qed
qed simp

lemma strip_plus_digits: "list_all is_ascii_digit ds \<Longrightarrow> strip_plus ds = ds"
  by (cases ds) (auto simp: strip_plus_def is_ascii_digit_def word_le_nat_alt)

lemma parse_uint_dec: "parse_uint bound (dec n) = (if n < bound then Some n else None)"
  by (simp add: parse_uint_def strip_plus_digits dec_digits)

lemma parse_uint_lt: "parse_uint bound bs = Some n \<Longrightarrow> n < bound"
  by (auto simp: parse_uint_def Let_def split: if_splits)

lemma parse_u32_dec: "parse_u32 (dec (unat v)) = Some v"
  using unsigned_less [of v] by (simp add: parse_u32_def parse_uint_dec)

lemma parse_u64_dec: "parse_u64 (dec (unat v)) = Some v"
  using unsigned_less [of v] by (simp add: parse_u64_def parse_uint_dec)

lemma ws_len_digit:
  assumes "is_ascii_digit b" shows "ws_len (b # bs) = 0"
proof -
  have "b \<noteq> 9" "b \<noteq> 10" "b \<noteq> 11" "b \<noteq> 12" "b \<noteq> 13" "b \<noteq> 32" "b \<noteq> 0xC2" "b \<noteq> 0xE1" "b \<noteq> 0xE2" "b \<noteq> 0xE3"
    using assms by (auto simp: is_ascii_digit_def word_le_nat_alt)
  then show ?thesis by (simp add: ws_len_def)
qed

lemma ws_len_space [simp]: "ws_len (0x20 # bs) = 1"
  by (simp add: ws_len_def)

lemma split_ws_digits:
  "list_all is_ascii_digit ds \<Longrightarrow> split_ws field (ds @ 0x20 # bs) =
     (if field @ ds = [] then [] else [field @ ds]) @ split_ws [] bs"
  by (induction ds arbitrary: field) (auto simp: ws_len_digit)

lemma split_on_not_Nil [simp]: "split_on P xs \<noteq> []"
  by (induction xs) (auto split: list.splits)

end
