(* ===== verification/ThreadCpu.thy ===== *)
theory ThreadCpu
  imports Float64 Text
begin

text \<open>
  The CPU utilisation of the worker threads behind UDS slots and the smoothed load of a balancer
  (\<open>thread_cpu.rs\<close>). What \<open>/proc\<close> shows is a record \<open>procfs\<close> of the contents of its files, the
  socket file's inode a function of the path; \<open>f64::exp\<close> is a parameter. A slot's mutex and its
  atomic copy of the utilisation are the record \<open>thread_cpu\<close>.
\<close>

section \<open>Definitions\<close>

definition SAMPLE_VALID_NS :: u64 where "SAMPLE_VALID_NS = 1000000000"

definition DISCOVERY_RETRY_NS :: u64 where "DISCOVERY_RETRY_NS = 5000000000"

definition OWNER_RECHECK_NS :: u64 where "OWNER_RECHECK_NS = 30000000000"

definition MAX_CONCURRENT_DISCOVERIES :: nat where "MAX_CONCURRENT_DISCOVERIES = 64"

definition LOAD_TIME_CONSTANT_NS :: f64 where "LOAD_TIME_CONSTANT_NS = Fin 3000000000"

text \<open>\<open>v\<close> is what \<open>sysconf(_SC_CLK_TCK)\<close> returns.\<close>

definition clk_tck_hz :: "int \<Rightarrow> u64" where
  "clk_tck_hz v = (if 0 < v then of_int v else 100)"

subsection \<open>Reading \<open>/proc\<close>\<close>

record task_stat =
  ticks :: u64
  start :: u64

definition parse_task_stat :: "bytes \<Rightarrow> task_stat option" where
  "parse_task_stat content = do {
     after_comm \<leftarrow> after_last 0x29 content;
     let fields = split_whitespace (trim_start after_comm);
     utime \<leftarrow> (if 11 < length fields then parse_u64 (fields ! 11) else None);
     stime \<leftarrow> (if 12 < length fields then parse_u64 (fields ! 12) else None);
     st \<leftarrow> (if 19 < length fields then parse_u64 (fields ! 19) else None);
     Some \<lparr>ticks = utime + stime, start = st\<rparr>
   }"

definition parse_nspid :: "bytes \<Rightarrow> u32 list option" where
  "parse_nspid status = do {
     line \<leftarrow> find (starts_with (str ''NSpid:'')) (lines_of status);
     ids \<leftarrow> those (map parse_u32 (split_whitespace (drop 6 line)));
     if ids = [] then None else Some ids
   }"

record procfs =
  stat_file :: "u32 \<Rightarrow> u32 \<Rightarrow> bytes option"
  status_file :: "u32 \<Rightarrow> bytes option"
  task_dir :: "u32 \<Rightarrow> bytes option list option"

definition read_to_string :: "bytes option \<Rightarrow> bytes option" where
  "read_to_string file = (case file of Some c \<Rightarrow> if utf8_valid c then Some c else None | None \<Rightarrow> None)"

definition task_stat_of :: "procfs \<Rightarrow> u32 \<Rightarrow> u32 \<Rightarrow> task_stat option" where
  "task_stat_of proc pid tid = Option.bind (read_to_string (stat_file proc pid tid)) parse_task_stat"

definition nspid :: "bytes option \<Rightarrow> u32 list option" where
  "nspid file = Option.bind (read_to_string file) parse_nspid"

record proc_view =
  innermost_pid :: u32
  nested :: bool
  threads :: "u32 \<Rightarrow> u32 option"

definition process_view :: "procfs \<Rightarrow> u32 \<Rightarrow> proc_view option" where
  "process_view proc host_pid = do {
     ids \<leftarrow> nspid (status_file proc host_pid);
     if length ids = 1 then Some \<lparr>innermost_pid = last ids, nested = False, threads = (\<lambda>_. None)\<rparr>
     else do {
       entries \<leftarrow> task_dir proc host_pid;
       Some \<lparr>innermost_pid = last ids, nested = True,
             threads = foldl (\<lambda>m entry. case nspid entry of Some ids \<Rightarrow> m(last ids \<mapsto> hd ids) | None \<Rightarrow> m)
                         (\<lambda>_. None) entries\<rparr>
     }
   }"

datatype identity = Unresolved | Discovered u32 u32 u64 | Literal

type_synonym views = "u32 \<Rightarrow> proc_view option option"

text \<open>\<open>views.entry(owner).or_insert_with(..)\<close>.\<close>

definition cached_view :: "procfs \<Rightarrow> u32 \<Rightarrow> views \<Rightarrow> proc_view option \<times> views" where
  "cached_view proc owner views =
     (case views owner of
        Some v \<Rightarrow> (v, views)
      | None \<Rightarrow> (process_view proc owner, views(owner \<mapsto> process_view proc owner)))"

definition resolve_in ::
    "u32 \<Rightarrow> u32 \<Rightarrow> u32 \<Rightarrow> procfs \<Rightarrow> proc_view option \<Rightarrow> identity" where
  "resolve_in configured_pid configured_tid owner proc view =
     (case view of
        None \<Rightarrow> Unresolved
      | Some v \<Rightarrow>
          let discovered_as = (\<lambda>host_tid. case task_stat_of proc owner host_tid of
                Some stat \<Rightarrow> Discovered owner host_tid (start stat) | None \<Rightarrow> Unresolved)
          in if innermost_pid v = configured_pid \<and> \<not> nested v then discovered_as configured_tid
             else if innermost_pid v = configured_pid then
               (case threads v configured_tid of Some tid \<Rightarrow> discovered_as tid | None \<Rightarrow> Unresolved)
             else if owner = configured_pid then discovered_as configured_tid
             else Literal)"

definition resolve ::
    "u32 \<Rightarrow> u32 \<Rightarrow> u32 \<Rightarrow> procfs \<Rightarrow> views \<Rightarrow> identity \<times> views" where
  "resolve configured_pid configured_tid owner proc views =
     (let (view, views') = cached_view proc owner views
      in (resolve_in configured_pid configured_tid owner proc view, views'))"

subsection \<open>One slot's thread\<close>

record discovery =
  disc_owner :: "u32 option"
  disc_inode :: "u64 option"

record sample_state =
  identity :: identity
  next_discovery_ns :: u64
  discovered :: "discovery option"
  inode :: "u64 option"
  next_recheck_ns :: u64
  owner_changed :: bool
  last_pass_ns :: u64
  last_ticks :: u64
  last_ns :: u64
  valid_until_ns :: u64
  sample_util :: u32

record thread_cpu =
  cpu_path :: bytes
  cpu_pid :: u32
  cpu_tid :: u32
  util_permille :: u32
  sampling :: sample_state

definition thread_cpu_new :: "bool \<Rightarrow> bytes \<Rightarrow> u32 \<Rightarrow> u32 \<Rightarrow> thread_cpu" where
  "thread_cpu_new linux path pid tid =
     \<lparr>cpu_path = path, cpu_pid = pid, cpu_tid = tid, util_permille = 0,
      sampling = \<lparr>identity = (if linux then Unresolved else Literal), next_discovery_ns = 0,
        discovered = None, inode = None, next_recheck_ns = - 1, owner_changed = False,
        last_pass_ns = 0, last_ticks = 0, last_ns = 0, valid_until_ns = 0, sample_util = 0\<rparr>\<rparr>"

definition configured :: "thread_cpu \<Rightarrow> bytes \<times> u32 \<times> u32" where
  "configured cpu = (cpu_path cpu, cpu_pid cpu, cpu_tid cpu)"

definition begin_discovery :: "bool \<Rightarrow> u64 \<Rightarrow> thread_cpu \<Rightarrow> bool \<times> thread_cpu" where
  "begin_discovery linux now cpu =
     (if \<not> linux \<or> now < next_discovery_ns (sampling cpu) then (False, cpu)
      else (True, cpu\<lparr>sampling := (sampling cpu)\<lparr>next_discovery_ns := sat_add now DISCOVERY_RETRY_NS\<rparr>\<rparr>))"

definition finish_discovery :: "discovery \<Rightarrow> thread_cpu \<Rightarrow> thread_cpu" where
  "finish_discovery d cpu = cpu\<lparr>sampling := (sampling cpu)\<lparr>discovered := Some d\<rparr>\<rparr>"

definition apply_discovery ::
    "thread_cpu \<Rightarrow> sample_state \<Rightarrow> discovery \<Rightarrow> u64 \<Rightarrow> procfs \<Rightarrow> views \<Rightarrow> sample_state \<times> views" where
  "apply_discovery cpu s d now proc views =
     (case disc_owner d of
        None \<Rightarrow> (s\<lparr>next_discovery_ns := sat_add now DISCOVERY_RETRY_NS\<rparr>, views)
      | Some owner \<Rightarrow>
          let (ident, views') = resolve (cpu_pid cpu) (cpu_tid cpu) owner proc views;
              s1 = s\<lparr>owner_changed := False\<rparr>;
              s2 = (if ident = Unresolved
                    then s1\<lparr>next_discovery_ns := sat_add now DISCOVERY_RETRY_NS, next_recheck_ns := - 1\<rparr>
                    else s1\<lparr>next_discovery_ns := - 1, next_recheck_ns := sat_add now OWNER_RECHECK_NS,
                            inode := disc_inode d\<rparr>);
              s3 = (if ident \<noteq> identity s2 then s2\<lparr>identity := ident, last_ns := 0, valid_until_ns := 0\<rparr>
                    else s2)
          in (s3, views'))"

definition recheck_owner :: "(bytes \<Rightarrow> u64 option) \<Rightarrow> u64 \<Rightarrow> thread_cpu \<Rightarrow> sample_state \<Rightarrow> sample_state" where
  "recheck_owner socket_inode now cpu s =
     (if now < next_recheck_ns s then s
      else
        let s1 = s\<lparr>next_recheck_ns := sat_add now OWNER_RECHECK_NS\<rparr>
        in if socket_inode (cpu_path cpu) \<noteq> inode s1
           then s1\<lparr>next_discovery_ns := now, owner_changed := True, valid_until_ns := 0\<rparr>
           else s1)"

definition utilisation :: "u64 \<Rightarrow> u64 \<Rightarrow> u64 \<Rightarrow> u32" where
  "utilisation clk delta_ticks elapsed =
     (let delta_secs = f64_div (f64_of_nat (unat elapsed)) (Fin 1000000000)
      in f64_to_u32 (f64_min_of
           (f64_mul (f64_div (f64_of_nat (unat delta_ticks)) (f64_mul delta_secs (f64_of_nat (unat clk))))
             (Fin 1000))
           (Fin 1000)))"

definition take_sample ::
    "u64 \<Rightarrow> procfs \<Rightarrow> u64 \<Rightarrow> u32 \<Rightarrow> u32 \<Rightarrow> u64 option \<Rightarrow> thread_cpu \<Rightarrow> sample_state \<Rightarrow> thread_cpu" where
  "take_sample clk proc now pid tid started cpu s =
     (case (case task_stat_of proc pid tid of
              Some stat \<Rightarrow> if started = None \<or> started = Some (start stat) then Some stat else None
            | None \<Rightarrow> None) of
        None \<Rightarrow>
          let s1 = s\<lparr>last_ns := 0, valid_until_ns := 0, sample_util := 0\<rparr>;
              s2 = (if started \<noteq> None
                    then s1\<lparr>identity := Unresolved, next_discovery_ns := now, next_recheck_ns := - 1\<rparr>
                    else s1)
          in cpu\<lparr>util_permille := 0, sampling := s2\<rparr>
      | Some stat \<Rightarrow>
          let (cpu1, s1) =
                (if 0 < last_ns s then
                   let util = utilisation clk (sat_sub (ticks stat) (last_ticks s)) (now - last_ns s);
                       s' = s\<lparr>sample_util := util\<rparr>
                   in (cpu\<lparr>util_permille := util\<rparr>,
                       if started \<noteq> None \<and> \<not> owner_changed s'
                       then s'\<lparr>valid_until_ns := now + SAMPLE_VALID_NS\<rparr> else s')
                 else (cpu, s))
          in cpu1\<lparr>sampling := s1\<lparr>last_ticks := ticks stat, last_ns := now\<rparr>\<rparr>)"

definition read_thread :: "u64 \<Rightarrow> procfs \<Rightarrow> u64 \<Rightarrow> thread_cpu \<Rightarrow> sample_state \<Rightarrow> thread_cpu" where
  "read_thread clk proc now cpu s =
     (case identity s of
        Discovered pid tid st \<Rightarrow> take_sample clk proc now pid tid (Some st) cpu s
      | Literal \<Rightarrow> take_sample clk proc now (cpu_pid cpu) (cpu_tid cpu) None cpu s
      | Unresolved \<Rightarrow> cpu\<lparr>util_permille := 0, sampling := s\<lparr>sample_util := 0\<rparr>\<rparr>)"

definition sample ::
    "u64 \<Rightarrow> (bytes \<Rightarrow> u64 option) \<Rightarrow> procfs \<Rightarrow> u64 \<Rightarrow> views \<Rightarrow> thread_cpu \<Rightarrow> thread_cpu \<times> views" where
  "sample clk socket_inode proc now views cpu =
     (let s = sampling cpu
      in if now \<le> last_pass_ns s then (cpu, views)
         else
           let s0 = s\<lparr>last_pass_ns := now\<rparr>;
               (s1, views') = (case discovered s0 of
                   Some d \<Rightarrow> apply_discovery cpu (s0\<lparr>discovered := None\<rparr>) d now proc views
                 | None \<Rightarrow> (s0, views))
           in (read_thread clk proc now cpu (recheck_owner socket_inode now cpu s1), views'))"

definition load_sample :: "u64 \<Rightarrow> thread_cpu \<Rightarrow> u32 option" where
  "load_sample now cpu =
     (if now < valid_until_ns (sampling cpu) then Some (sample_util (sampling cpu)) else None)"

subsection \<open>Claiming discoveries\<close>

text \<open>One pass of \<open>sample_periodically\<close> over the monitored threads (references into the heap of
  \<open>ThreadCpu\<close>s): from the cursor on, each due thread is claimed while connects are to be had. The
  result: the claimed threads, the heap, the cursor.\<close>

fun claim_loop ::
    "bool \<Rightarrow> u64 \<Rightarrow> nat list \<Rightarrow> nat \<Rightarrow> nat \<Rightarrow> nat list \<Rightarrow> thread_cpu list \<Rightarrow> nat list \<times> thread_cpu list \<times> nat" where
  "claim_loop linux now cpus cursor in_flight [] heap = ([], heap, cursor)"
| "claim_loop linux now cpus cursor in_flight (i # is) heap =
     (if MAX_CONCURRENT_DISCOVERIES \<le> in_flight then ([], heap, (cursor + i) mod length cpus)
      else
        let ref = cpus ! ((cursor + i) mod length cpus);
            (due, cpu') = begin_discovery linux now (heap ! ref)
        in if due
           then (let (claimed, heap', cursor') =
                       claim_loop linux now cpus cursor (in_flight + 1) is (heap[ref := cpu'])
                 in (ref # claimed, heap', cursor'))
           else claim_loop linux now cpus cursor in_flight is heap)"

definition claim_discoveries ::
    "bool \<Rightarrow> u64 \<Rightarrow> nat list \<Rightarrow> nat \<Rightarrow> nat \<Rightarrow> thread_cpu list \<Rightarrow> nat list \<times> thread_cpu list \<times> nat" where
  "claim_discoveries linux now cpus cursor in_flight heap =
     claim_loop linux now cpus cursor in_flight [0..<length cpus] heap"

subsection \<open>The smoothed load\<close>

record load_ewma =
  ewma_value :: "(f64 \<times> u64) option"
  ewma_last_pass_ns :: u64
  published :: u64

definition load_ewma_default :: load_ewma where
  "load_ewma_default = \<lparr>ewma_value = None, ewma_last_pass_ns = 0, published = 0\<rparr>"

definition load_get :: "u64 \<Rightarrow> load_ewma \<Rightarrow> (u32 \<times> u64) option" where
  "load_get now l =
     (let packed = published l; until_ms = drop_bit 10 packed
      in if now div 1000000 < until_ms then Some (ucast (packed AND 0x3FF), until_ms) else None)"

definition smoothed :: "(f64 \<Rightarrow> f64) \<Rightarrow> (f64 \<times> u64) option \<Rightarrow> u32 \<Rightarrow> u64 \<Rightarrow> f64" where
  "smoothed exp_f64 value mean now =
     (case value of
        Some (v, taken) \<Rightarrow>
          if now - taken < 3 * f64_to_u64 LOAD_TIME_CONSTANT_NS then
            let alpha = f64_sub (Fin 1)
                  (exp_f64 (f64_div (f64_neg (f64_of_nat (unat (now - taken)))) LOAD_TIME_CONSTANT_NS))
            in f64_add v (f64_mul alpha (f64_sub (f64_of_nat (unat mean)) v))
          else f64_of_nat (unat mean)
      | None \<Rightarrow> f64_of_nat (unat mean))"

definition load_update :: "(f64 \<Rightarrow> f64) \<Rightarrow> u32 option \<Rightarrow> u64 \<Rightarrow> load_ewma \<Rightarrow> load_ewma" where
  "load_update exp_f64 mean now l =
     (if now \<le> ewma_last_pass_ns l then l
      else case mean of
        None \<Rightarrow> l\<lparr>ewma_last_pass_ns := now, published := 0\<rparr>
      | Some m \<Rightarrow>
          let v = smoothed exp_f64 (ewma_value l) m now;
              permille = min (f64_to_u64 (f64_round v)) 1000;
              until_ms = (now + SAMPLE_VALID_NS) div 1000000
          in l\<lparr>ewma_last_pass_ns := now, ewma_value := Some (v, now),
               published := push_bit 10 until_ms OR permille\<rparr>)"

section \<open>Lemmas\<close>

lemma f64_min_of_1000: "unat (f64_to_u32 (f64_min_of x (Fin 1000))) \<le> 1000"
proof -
  have thousand: "unat (f64_to_u32 (Fin 1000)) = 1000" by (simp add: f64_to_word.simps)
  show ?thesis
  proof (cases x)
    case (Fin v)
    show ?thesis
    proof (cases "1000 < v")
      case True
      then show ?thesis by (simp add: Fin f64_min_of_def thousand)
    next
      case False
      have fl: "\<lfloor>v\<rfloor> \<le> 1000" using False by (simp add: floor_le_iff)
      have "unat (f64_to_u32 (Fin v)) \<le> 1000"
      proof (cases "v < 0")
        case True
        then show ?thesis by (simp add: f64_to_word.simps)
      next
        case pos: False
        then have nn: "0 \<le> \<lfloor>v\<rfloor>" by simp
        have "unat (f64_to_u32 (Fin v)) = nat \<lfloor>v\<rfloor>"
          using pos nn fl by (simp add: f64_to_word.simps unsigned_of_int take_bit_int_eq_self)
        then show ?thesis using nat_mono [OF fl] by simp
      qed
      then show ?thesis using False by (simp add: Fin f64_min_of_def)
    qed
  qed (simp_all add: f64_min_of_def thousand)
qed

lemma utilisation_le: "unat (utilisation clk d e) \<le> 1000"
  by (simp add: utilisation_def Let_def f64_min_of_1000)

subsection \<open>What the threads' samples mean\<close>

definition is_discovered :: "identity \<Rightarrow> bool" where
  "is_discovered i = (case i of Discovered _ _ _ \<Rightarrow> True | _ \<Rightarrow> False)"

definition state_inv :: "sample_state \<Rightarrow> bool" where
  "state_inv s \<longleftrightarrow>
     (valid_until_ns s \<noteq> 0 \<longrightarrow> is_discovered (identity s) \<and> \<not> owner_changed s) \<and> last_ns s \<le> last_pass_ns s"

definition cpu_inv :: "thread_cpu \<Rightarrow> bool" where
  "cpu_inv cpu \<longleftrightarrow> state_inv (sampling cpu) \<and> sample_util (sampling cpu) = util_permille cpu \<and>
     unat (util_permille cpu) \<le> 1000"

lemma is_discovered_simps [simp]:
  "\<not> is_discovered Unresolved" "is_discovered (Discovered pid tid st)" "\<not> is_discovered Literal"
  by (simp_all add: is_discovered_def)

lemma apply_discovery_inv:
  assumes "apply_discovery cpu s d now proc views = (s', views')" "state_inv s"
  shows "state_inv s' \<and> sample_util s' = sample_util s \<and> last_pass_ns s' = last_pass_ns s"
  using assms by (auto simp: apply_discovery_def state_inv_def Let_def split: option.splits prod.splits if_splits)

lemma recheck_owner_inv:
  "state_inv s \<Longrightarrow> state_inv (recheck_owner f now cpu s) \<and> sample_util (recheck_owner f now cpu s) = sample_util s \<and>
     last_pass_ns (recheck_owner f now cpu s) = last_pass_ns s"
  by (auto simp: recheck_owner_def state_inv_def Let_def)

lemma take_sample_inv:
  assumes "state_inv s" "sample_util s = util_permille cpu" "unat (util_permille cpu) \<le> 1000"
    and "last_pass_ns s = now" "started \<noteq> None \<longleftrightarrow> is_discovered (identity s)"
  shows "cpu_inv (take_sample clk proc now pid tid started cpu s)"
  using assms utilisation_le
  by (auto simp: take_sample_def cpu_inv_def state_inv_def Let_def split: option.splits)

lemma read_thread_inv:
  assumes "state_inv s" "sample_util s = util_permille cpu" "unat (util_permille cpu) \<le> 1000" "last_pass_ns s = now"
  shows "cpu_inv (read_thread clk proc now cpu s)"
  using assms take_sample_inv [OF assms]
  by (auto simp: read_thread_def cpu_inv_def state_inv_def split: identity.splits)

lemma sample_inv:
  assumes "cpu_inv cpu"
  shows "cpu_inv (fst (sample clk f proc now views cpu))"
proof (cases "now \<le> last_pass_ns (sampling cpu)")
  case False
  let ?s = "(sampling cpu)\<lparr>last_pass_ns := now\<rparr>"
  have s: "state_inv ?s" "state_inv (?s\<lparr>discovered := None\<rparr>)" "sample_util (sampling cpu) = util_permille cpu"
    "unat (util_permille cpu) \<le> 1000"
    using assms False by (auto simp: cpu_inv_def state_inv_def)
  obtain s1 views' where a: "(case discovered ?s of
      Some d \<Rightarrow> apply_discovery cpu (?s\<lparr>discovered := None\<rparr>) d now proc views | None \<Rightarrow> (?s, views)) = (s1, views')"
    by fastforce
  then have "state_inv s1 \<and> sample_util s1 = util_permille cpu \<and> last_pass_ns s1 = now"
    using s apply_discovery_inv [OF _ s(2)] by (fastforce split: option.splits)
  then have "cpu_inv (read_thread clk proc now cpu (recheck_owner f now cpu s1))"
    using recheck_owner_inv [of s1 f now cpu] s(4) by (intro read_thread_inv) auto
  then show ?thesis using False a by (simp add: sample_def Let_def)
qed (simp add: sample_def assms)

inductive cpu_step :: "u64 \<Rightarrow> thread_cpu \<Rightarrow> thread_cpu \<Rightarrow> bool" for clk where
  pass: "cpu_step clk cpu (fst (sample clk socket_inode proc now views cpu))"
| begin_disc: "cpu_step clk cpu (snd (begin_discovery linux now cpu))"
| finish_disc: "cpu_step clk cpu (finish_discovery d cpu)"

lemma cpu_step_inv: "cpu_step clk cpu cpu' \<Longrightarrow> cpu_inv cpu \<Longrightarrow> cpu_inv cpu'"
proof (induction rule: cpu_step.induct)
  case (pass cpu socket_inode proc now views)
  then show ?case by (rule sample_inv)
qed (auto simp: begin_discovery_def finish_discovery_def cpu_inv_def state_inv_def)

lemma cpu_inv_new: "cpu_inv (thread_cpu_new linux path pid tid)"
  by (simp add: cpu_inv_def thread_cpu_new_def state_inv_def)

lemma cpu_inv_reach: "(cpu_step clk)\<^sup>*\<^sup>* (thread_cpu_new linux path pid tid) cpu \<Longrightarrow> cpu_inv cpu"
  by (induction rule: rtranclp_induct) (auto intro: cpu_step_inv cpu_inv_new)

lemma load_sample_inv:
  "cpu_inv cpu \<Longrightarrow> load_sample now cpu = Some u \<Longrightarrow>
   unat u \<le> 1000 \<and> is_discovered (identity (sampling cpu)) \<and> \<not> owner_changed (sampling cpu)"
  by (auto simp: load_sample_def cpu_inv_def state_inv_def split: if_splits)

lemma resolve_in_Discovered:
  "resolve_in cpid ctid owner proc view = Discovered pid tid st \<Longrightarrow>
   pid = owner \<and> (\<exists>stat. task_stat_of proc owner tid = Some stat \<and> start stat = st) \<and>
   (\<exists>v. view = Some v \<and>
      (innermost_pid v = cpid \<and> (if nested v then threads v ctid = Some tid else tid = ctid) \<or>
       innermost_pid v \<noteq> cpid \<and> owner = cpid \<and> tid = ctid))"
  by (auto simp: resolve_in_def Let_def split: option.splits if_splits)

subsection \<open>Claims\<close>

definition due :: "u64 \<Rightarrow> thread_cpu \<Rightarrow> bool" where
  "due now cpu \<longleftrightarrow> next_discovery_ns (sampling cpu) \<le> now"

lemma begin_discovery_due: "begin_discovery True now cpu = (b, cpu') \<Longrightarrow> b = due now cpu"
  by (auto simp: begin_discovery_def due_def not_less split: if_splits)

lemma begin_discovery_not_due:
  assumes "now < - 1" "begin_discovery True now cpu = (b, cpu')"
  shows "\<not> due now cpu'"
proof -
  have "now < sat_add now DISCOVERY_RETRY_NS"
    using assms(1) by (simp add: word_less_nat_alt unat_sat_add unat_minus_one_eq DISCOVERY_RETRY_NS_def)
  then show ?thesis using assms(2) by (auto simp: begin_discovery_def due_def split: if_splits)
qed

lemma claim_loop_length:
  "claim_loop linux now cpus cursor k is heap = (cl, heap', cursor') \<Longrightarrow> k \<le> MAX_CONCURRENT_DISCOVERIES \<Longrightarrow>
   k + length cl \<le> MAX_CONCURRENT_DISCOVERIES"
  by (induction linux now cpus cursor k "is" heap arbitrary: cl heap' cursor' rule: claim_loop.induct)
    (fastforce simp: Let_def split: if_splits prod.splits)+

lemma claim_loop_complete:
  "now < - 1 \<Longrightarrow> claim_loop True now cpus cursor k is heap = (cl, heap', cursor') \<Longrightarrow>
    k + length cl < MAX_CONCURRENT_DISCOVERIES \<Longrightarrow>
    (\<forall>ref. \<not> due now (heap ! ref) \<longrightarrow> \<not> due now (heap' ! ref)) \<and>
    (\<forall>i \<in> set is. cpus ! ((cursor + i) mod length cpus) < length heap \<longrightarrow>
       \<not> due now (heap' ! (cpus ! ((cursor + i) mod length cpus))))"
proof (induction "True" now cpus cursor k "is" heap arbitrary: cl heap' cursor' rule: claim_loop.induct)
  case (2 now cpus cursor k i "is" heap)
  define ref where "ref = cpus ! ((cursor + i) mod length cpus)"
  obtain b cpu' where b: "begin_discovery True now (heap ! ref) = (b, cpu')"
    by fastforce
  have k: "\<not> MAX_CONCURRENT_DISCOVERIES \<le> k" using "2.prems"(3) by simp
  show ?case
  proof (cases b)
    case True
    then obtain cl1 where c: "claim_loop True now cpus cursor (k + 1) is (heap[ref := cpu']) = (cl1, heap', cursor')"
        "cl = ref # cl1"
      using "2.prems"(2) k b by (auto simp: Let_def ref_def split: prod.splits)
    note IH = "2.hyps"(1) [OF k ref_def b [symmetric] refl True "2.prems"(1) c(1)]
    have nd: "\<not> due now cpu'" by (rule begin_discovery_not_due [OF "2.prems"(1) b])
    have "\<not> due now (heap[ref := cpu'] ! r)" if "\<not> due now (heap ! r)" for r
      using that nd by (cases "r = ref"; cases "ref < length heap") (auto simp: list_update_beyond)
    moreover have "\<not> due now (heap[ref := cpu'] ! ref)" if "ref < length heap" using that nd by simp
    ultimately show ?thesis using IH "2.prems"(3) c(2) by (auto simp: ref_def)
  next
    case False
    then have c: "claim_loop True now cpus cursor k is heap = (cl, heap', cursor')"
      using "2.prems"(2) k b by (auto simp: Let_def ref_def split: prod.splits)
    have "\<not> due now (heap ! ref)" using begin_discovery_due [OF b] False by simp
    then show ?thesis using "2.hyps"(2) [OF k ref_def b [symmetric] refl False "2.prems"(1) c "2.prems"(3)] by (auto simp: ref_def)
  qed
qed simp

subsection \<open>The published load\<close>

lemma pack_permille:
  assumes "unat (until :: u64) < 2 ^ 54" "unat (p :: u64) < 2 ^ 10"
  shows "drop_bit 10 (push_bit 10 until OR p) = until" "(push_bit 10 until OR p) AND 0x3FF = p"
proof -
  have "take_bit 54 until = until" "take_bit 10 p = p"
    using assms by (simp_all add: word_unat_eq_iff unsigned_take_bit_eq take_bit_nat_eq_self)
  then have hi: "bit until n \<Longrightarrow> n < 54" and lo: "bit p n \<Longrightarrow> n < 10" for n
    by (metis bit_take_bit_iff)+
  show "drop_bit 10 (push_bit 10 until OR p) = until"
    by (rule bit_word_eqI) (auto simp: bit_simps dest: hi lo)
  have "(0x3FF :: u64) = mask 10" by (simp add: mask_eq_exp_minus_1)
  then show "(push_bit 10 until OR p) AND 0x3FF = p"
    by (simp add: bit_eq_iff) (auto simp: bit_simps dest: lo)
qed

lemma load_get_update:
  assumes "ewma_last_pass_ns l < now" "unat now + 1000000000 < 2 ^ 64"
  shows "\<exists>permille. unat permille \<le> 1000 \<and>
    (\<forall>t. load_get t (load_update e (Some m) now l) =
      (if unat t div 1000000 < unat now div 1000000 + 1000
       then Some (permille, of_nat (unat now div 1000000 + 1000)) else None))"
proof -
  let ?until = "(now + SAMPLE_VALID_NS) div 1000000"
  let ?v = "smoothed e (ewma_value l) m now"
  let ?p = "min (f64_to_u64 (f64_round ?v)) 1000"
  have s: "unat (now + SAMPLE_VALID_NS) = unat now + 1000000000"
    using assms(2) by (simp add: SAMPLE_VALID_NS_def unat_word_ariths)
  have u: "unat ?until = unat now div 1000000 + 1000"
    by (simp add: unat_div_distrib s)
  then have uo: "?until = of_nat (unat now div 1000000 + 1000)" by (metis word_of_nat_unat)
  have "unat ?until < 2 ^ 54" using u assms(2) by simp
  moreover have p: "unat ?p \<le> 1000" by (simp add: min_def word_le_nat_alt)
  ultimately have pack: "drop_bit 10 (push_bit 10 ?until OR ?p) = ?until" "(push_bit 10 ?until OR ?p) AND 0x3FF = ?p"
    using pack_permille [of ?until ?p] by auto
  have up: "published (load_update e (Some m) now l) = push_bit 10 ?until OR ?p"
    using assms(1) by (simp add: load_update_def Let_def linorder_not_less [symmetric])
  have "load_get t (load_update e (Some m) now l) =
      (if unat t div 1000000 < unat now div 1000000 + 1000
       then Some (ucast ?p, of_nat (unat now div 1000000 + 1000)) else None)" for t
    unfolding load_get_def up Let_def pack by (simp only: word_less_nat_alt unat_div_distrib [of t] u) (simp add: uo)
  moreover have "unat (ucast ?p :: u32) \<le> 1000" using p by (simp add: unsigned_ucast_eq take_bit_nat_eq_self)
  ultimately show ?thesis by blast
qed

lemma load_get_unknown: "ewma_last_pass_ns l < now \<Longrightarrow> load_get t (load_update e None now l) = None"
  by (simp add: load_get_def load_update_def linorder_not_less [symmetric])

end
