(* ===== verification/Balancer.thy ===== *)
theory Balancer
  imports ThreadCpu Net "HOL-Library.List_Lexorder" "HOL-Library.Product_Lexorder"
begin

text \<open>
  The balancer of a route's UDS sockets (\<open>balancer.rs\<close>). The cells that route-table rebuilds
  share through an \<open>Arc\<close> (slot health, thread samples, smoothed loads, the balancers themselves)
  are lists in a \<open>store\<close>, and a reference is an index. Every operation that reads the clock takes
  the time as an argument.
\<close>

section \<open>Definitions\<close>

subsection \<open>State\<close>

record uds_slot_spec =
  spec_path :: bytes
  spec_pid :: "u32 option"
  spec_tid :: "u32 option"

record uds_slot =
  slot_path :: bytes
  slot_active :: u32
  slot_health :: "nat option"
  slot_cpu :: "nat option"

record affinity_map =
  aff_entries :: "ipaddr \<Rightarrow> (u32 \<times> u64) option"
  ttl_ns :: u64

record uds_balancer =
  sockets :: "uds_slot list"
  affinity :: "affinity_map option"
  load_ref :: nat

text \<open>A cell of \<open>healths\<close> is \<open>refused_at_ns\<close>.\<close>

record store =
  healths :: "u64 list"
  cpus :: "thread_cpu list"
  loads :: "load_ewma list"
  balancers :: "uds_balancer list"

definition store_empty :: store where
  "store_empty = \<lparr>healths = [], cpus = [], loads = [], balancers = []\<rparr>"

subsection \<open>Slot health\<close>

definition slot_health_new :: "u64 \<Rightarrow> bool \<Rightarrow> u64" where
  "slot_health_new now is_refusing = (if is_refusing then max now 1 else 0)"

definition health_refusing :: "store \<Rightarrow> nat \<Rightarrow> bool" where
  "health_refusing st h \<longleftrightarrow> healths st ! h \<noteq> 0"

definition mark_refused :: "u64 \<Rightarrow> nat \<Rightarrow> store \<Rightarrow> store" where
  "mark_refused now h st = st\<lparr>healths := (healths st)[h := max now 1]\<rparr>"

definition clear_if_unchanged :: "u64 \<Rightarrow> nat \<Rightarrow> store \<Rightarrow> bool \<times> store" where
  "clear_if_unchanged observed h st =
     (if healths st ! h = observed then (True, st\<lparr>healths := (healths st)[h := 0]\<rparr>) else (False, st))"

definition refusing :: "store \<Rightarrow> uds_slot \<Rightarrow> bool" where
  "refusing st s = (case slot_health s of Some h \<Rightarrow> health_refusing st h | None \<Rightarrow> False)"

definition score :: "store \<Rightarrow> uds_slot \<Rightarrow> nat" where
  "score st s =
     unat (slot_active s) * 1000 +
     (case slot_cpu s of Some c \<Rightarrow> unat (util_permille (cpus st ! c)) | None \<Rightarrow> 0)"

subsection \<open>Construction\<close>

fun make_slots :: "bool \<Rightarrow> uds_slot_spec list \<Rightarrow> store \<Rightarrow> uds_slot list \<times> store" where
  "make_slots linux [] st = ([], st)"
| "make_slots linux (s # ss) st =
     (let (cpu, st1) = (case (spec_pid s, spec_tid s) of
            (Some pid, Some tid) \<Rightarrow>
              (Some (length (cpus st)), st\<lparr>cpus := cpus st @ [thread_cpu_new linux (spec_path s) pid tid]\<rparr>)
          | _ \<Rightarrow> (None, st));
          (rest, st2) = make_slots linux ss st1
      in (\<lparr>slot_path = spec_path s, slot_active = 0, slot_health = None, slot_cpu = cpu\<rparr> # rest, st2))"

definition uds_balancer_new ::
    "bool \<Rightarrow> uds_slot_spec list \<Rightarrow> bool \<Rightarrow> u64 \<Rightarrow> store \<Rightarrow> uds_balancer \<times> store" where
  "uds_balancer_new linux slots ip_affinity affinity_ttl_ms st =
     (let (ss, st1) = make_slots linux slots st
      in (\<lparr>sockets = ss,
           affinity = (if ip_affinity
             then Some \<lparr>aff_entries = (\<lambda>_. None), ttl_ns = affinity_ttl_ms * 1000000\<rparr> else None),
           load_ref = length (loads st1)\<rparr>,
          st1\<lparr>loads := loads st1 @ [load_ewma_default]\<rparr>))"

definition thread_cpus :: "uds_balancer \<Rightarrow> nat list" where
  "thread_cpus b = List.map_filter slot_cpu (sockets b)"

definition slot_ids :: "store \<Rightarrow> uds_balancer \<Rightarrow> (bytes \<times> u32 \<times> u32) list" where
  "slot_ids st b = sort (map (\<lambda>s. case slot_cpu s of
       Some c \<Rightarrow> configured (cpus st ! c) | None \<Rightarrow> (slot_path s, 0, 0)) (sockets b))"

definition inherit_cpu :: "store \<Rightarrow> uds_balancer \<Rightarrow> uds_slot \<Rightarrow> uds_slot" where
  "inherit_cpu st prev s =
     (case slot_cpu s of
        None \<Rightarrow> s
      | Some c \<Rightarrow>
          (case find (\<lambda>p. configured (cpus st ! p) = configured (cpus st ! c)) (thread_cpus prev) of
             Some inherited \<Rightarrow> s\<lparr>slot_cpu := Some inherited\<rparr>
           | None \<Rightarrow> s))"

definition with_cpu_from :: "uds_balancer option \<Rightarrow> store \<Rightarrow> uds_balancer \<Rightarrow> uds_balancer" where
  "with_cpu_from previous st b =
     (case previous of
        None \<Rightarrow> b
      | Some prev \<Rightarrow>
          let b1 = b\<lparr>sockets := map (inherit_cpu st prev) (sockets b)\<rparr>
          in if slot_ids st b1 = slot_ids st prev then b1\<lparr>load_ref := load_ref prev\<rparr> else b1)"

definition inherited_health :: "uds_balancer option \<Rightarrow> bytes \<Rightarrow> nat option" where
  "inherited_health previous path =
     (case previous of
        None \<Rightarrow> None
      | Some prev \<Rightarrow>
          (case find (\<lambda>p. slot_path p = path) (sockets prev) of Some p \<Rightarrow> slot_health p | None \<Rightarrow> None))"

fun health_slots ::
    "uds_balancer option \<Rightarrow> bool \<Rightarrow> u64 \<Rightarrow> uds_slot list \<Rightarrow> store \<Rightarrow> uds_slot list \<times> store" where
  "health_slots previous refuse_new now [] st = ([], st)"
| "health_slots previous refuse_new now (s # ss) st =
     (let (h, st1) = (case inherited_health previous (slot_path s) of
            Some h \<Rightarrow> (h, st)
          | None \<Rightarrow> (length (healths st), st\<lparr>healths := healths st @ [slot_health_new now refuse_new]\<rparr>));
          (rest, st2) = health_slots previous refuse_new now ss st1
      in (s\<lparr>slot_health := Some h\<rparr> # rest, st2))"

definition with_health ::
    "uds_balancer option \<Rightarrow> bool \<Rightarrow> u64 \<Rightarrow> uds_balancer \<Rightarrow> store \<Rightarrow> uds_balancer \<times> store" where
  "with_health previous refuse_new now b st =
     (let (ss, st1) = health_slots previous refuse_new now (sockets b) st
      in (b\<lparr>sockets := ss\<rparr>, st1))"

definition respec :: "store \<Rightarrow> uds_slot \<Rightarrow> uds_slot_spec" where
  "respec st s =
     \<lparr>spec_path = slot_path s,
      spec_pid = map_option (\<lambda>c. cpu_pid (cpus st ! c)) (slot_cpu s),
      spec_tid = map_option (\<lambda>c. cpu_tid (cpus st ! c)) (slot_cpu s)\<rparr>"

definition retracked :: "bool \<Rightarrow> u64 \<Rightarrow> bool \<Rightarrow> uds_balancer \<Rightarrow> store \<Rightarrow> uds_balancer \<times> store" where
  "retracked linux now track b st =
     (let (ip_affinity, ttl_ms) = (case affinity b of Some a \<Rightarrow> (True, ttl_ns a div 1000000) | None \<Rightarrow> (False, 0));
          (b1, st1) = uds_balancer_new linux (map (respec st) (sockets b)) ip_affinity ttl_ms st;
          b2 = with_cpu_from (Some b) st1 b1
      in if track then with_health (Some b) False now b2 st1 else (b2, st1))"

subsection \<open>Choosing a slot\<close>

definition slot_key :: "store \<Rightarrow> nat \<times> uds_slot \<Rightarrow> bool \<times> nat" where
  "slot_key st p = (refusing st (snd p), score st (snd p))"

definition best_score_idx :: "store \<Rightarrow> uds_balancer \<Rightarrow> nat" where
  "best_score_idx st b =
     (case min_by_key (slot_key st) (enumerate 0 (sockets b)) of Some (i, _) \<Rightarrow> i | None \<Rightarrow> 0)"

definition bind_affinity :: "ipaddr \<Rightarrow> nat \<Rightarrow> u64 \<Rightarrow> uds_balancer \<Rightarrow> uds_balancer" where
  "bind_affinity ip idx now b =
     (case affinity b of
        Some a \<Rightarrow> b\<lparr>affinity := Some (a\<lparr>aff_entries := (aff_entries a)(ip \<mapsto> (of_nat idx, now))\<rparr>)\<rparr>
      | None \<Rightarrow> b)"

definition affinity_hit :: "store \<Rightarrow> u64 \<Rightarrow> ipaddr \<Rightarrow> uds_balancer \<Rightarrow> affinity_map \<Rightarrow> nat option" where
  "affinity_hit st now ip b a =
     (case aff_entries a ip of
        Some (i, last_seen) \<Rightarrow>
          if unat i < length (sockets b) \<and> sat_sub now last_seen < ttl_ns a \<and>
             \<not> refusing st (sockets b ! unat i)
          then Some (unat i) else None
      | None \<Rightarrow> None)"

definition pick :: "store \<Rightarrow> u64 \<Rightarrow> ipaddr option \<Rightarrow> uds_balancer \<Rightarrow> nat option \<times> uds_balancer" where
  "pick st now peer_ip b =
     (if sockets b = [] then (None, b)
      else case (affinity b, peer_ip) of
        (Some a, Some ip) \<Rightarrow>
          (case affinity_hit st now ip b a of
             Some idx \<Rightarrow> (Some idx, b\<lparr>affinity := Some (a\<lparr>aff_entries :=
                 (aff_entries a)(ip := map_option (\<lambda>(i, _). (i, now)) (aff_entries a ip))\<rparr>)\<rparr>)
           | None \<Rightarrow>
               let idx = best_score_idx st b in (Some idx, bind_affinity ip idx now b))
      | _ \<Rightarrow> (Some (best_score_idx st b), b))"

definition next_untried :: "store \<Rightarrow> bool list \<Rightarrow> uds_balancer \<Rightarrow> nat option" where
  "next_untried st tried b =
     map_option fst (min_by_key (slot_key st)
       (filter (\<lambda>(i, _). \<not> (i < length tried \<and> tried ! i)) (enumerate 0 (sockets b))))"

definition rebind_affinity :: "u64 \<Rightarrow> ipaddr option \<Rightarrow> nat \<Rightarrow> uds_balancer \<Rightarrow> uds_balancer" where
  "rebind_affinity now peer_ip idx b =
     (case (affinity b, peer_ip) of (Some _, Some ip) \<Rightarrow> bind_affinity ip idx now b | _ \<Rightarrow> b)"

definition all_refusing :: "store \<Rightarrow> uds_balancer \<Rightarrow> bool" where
  "all_refusing st b \<longleftrightarrow> sockets b \<noteq> [] \<and> list_all (refusing st) (sockets b)"

definition tracked_slots :: "uds_balancer \<Rightarrow> (bytes \<times> nat) list" where
  "tracked_slots b = List.map_filter (\<lambda>s. map_option (Pair (slot_path s)) (slot_health s)) (sockets b)"

definition has_affinity :: "uds_balancer \<Rightarrow> bool" where
  "has_affinity b \<longleftrightarrow> affinity b \<noteq> None"

definition has_monitored_slots :: "uds_balancer \<Rightarrow> bool" where
  "has_monitored_slots b \<longleftrightarrow> list_ex (\<lambda>s. slot_cpu s \<noteq> None) (sockets b)"

definition shares_load_with :: "uds_balancer \<Rightarrow> uds_balancer \<Rightarrow> bool" where
  "shares_load_with a b \<longleftrightarrow> load_ref a = load_ref b"

subsection \<open>Active connections\<close>

fun update_first :: "('a \<Rightarrow> bool) \<Rightarrow> ('a \<Rightarrow> 'a) \<Rightarrow> 'a list \<Rightarrow> 'a list" where
  "update_first P f [] = []"
| "update_first P f (x # xs) = (if P x then f x # xs else x # update_first P f xs)"

definition increment :: "bytes \<Rightarrow> uds_balancer \<Rightarrow> uds_balancer" where
  "increment path b = b\<lparr>sockets := update_first (\<lambda>s. slot_path s = path)
     (\<lambda>s. s\<lparr>slot_active := slot_active s + 1\<rparr>) (sockets b)\<rparr>"

definition decrement :: "bytes \<Rightarrow> uds_balancer \<Rightarrow> uds_balancer" where
  "decrement path b = b\<lparr>sockets := update_first (\<lambda>s. slot_path s = path)
     (\<lambda>s. s\<lparr>slot_active := sat_sub (slot_active s) 1\<rparr>) (sockets b)\<rparr>"

subsection \<open>Eviction and sampling\<close>

definition evict_affinity :: "u64 \<Rightarrow> uds_balancer \<Rightarrow> uds_balancer" where
  "evict_affinity now b =
     (case affinity b of
        None \<Rightarrow> b
      | Some a \<Rightarrow> b\<lparr>affinity := Some (a\<lparr>aff_entries := (\<lambda>ip. case aff_entries a ip of
            Some (i, last_seen) \<Rightarrow> if sat_sub now last_seen < ttl_ns a then Some (i, last_seen) else None
          | None \<Rightarrow> None)\<rparr>)\<rparr>)"

text \<open>The threads of one balancer, sampled in order: the sum and the number of the samples that
  count as load.\<close>

fun sample_cpus ::
    "u64 \<Rightarrow> (bytes \<Rightarrow> u64 option) \<Rightarrow> procfs \<Rightarrow> u64 \<Rightarrow> nat list \<Rightarrow> views \<Rightarrow> thread_cpu list \<Rightarrow>
     nat \<times> nat \<times> views \<times> thread_cpu list" where
  "sample_cpus clk socket_inode proc now [] views heap = (0, 0, views, heap)"
| "sample_cpus clk socket_inode proc now (c # cs) views heap =
     (let (cpu, views1) = sample clk socket_inode proc now views (heap ! c);
          (sum, count, views2, heap2) = sample_cpus clk socket_inode proc now cs views1 (heap[c := cpu])
      in (case load_sample now cpu of
            Some util \<Rightarrow> (unat util + sum, count + 1, views2, heap2)
          | None \<Rightarrow> (sum, count, views2, heap2)))"

fun sample_balancers ::
    "(f64 \<Rightarrow> f64) \<Rightarrow> u64 \<Rightarrow> (bytes \<Rightarrow> u64 option) \<Rightarrow> procfs \<Rightarrow> u64 \<Rightarrow> nat list \<Rightarrow> views \<Rightarrow> store \<Rightarrow> store" where
  "sample_balancers exp_f64 clk socket_inode proc now [] views st = st"
| "sample_balancers exp_f64 clk socket_inode proc now (r # rs) views st =
     (let b = balancers st ! r;
          (sum, count, views1, heap) = sample_cpus clk socket_inode proc now (thread_cpus b) views (cpus st);
          mean = (if 0 < count then Some (of_nat (sum div count)) else None);
          st1 = st\<lparr>cpus := heap,
                   loads := (loads st)[load_ref b := load_update exp_f64 mean now (loads st ! load_ref b)]\<rparr>
      in sample_balancers exp_f64 clk socket_inode proc now rs views1 st1)"

definition sample_table ::
    "(f64 \<Rightarrow> f64) \<Rightarrow> u64 \<Rightarrow> (bytes \<Rightarrow> u64 option) \<Rightarrow> procfs \<Rightarrow> u64 \<Rightarrow> nat list \<Rightarrow> store \<Rightarrow> store" where
  "sample_table exp_f64 clk socket_inode proc now monitored st =
     sample_balancers exp_f64 clk socket_inode proc now monitored (\<lambda>_. None) st"

section \<open>Lemmas\<close>

subsection \<open>Choosing a slot\<close>

lemma enumerate_mem: "(i, s) \<in> set (enumerate 0 xs) \<longleftrightarrow> i < length xs \<and> s = xs ! i"
  by (auto simp: in_set_enumerate_eq)

lemma best_score_idx:
  assumes "sockets b \<noteq> []"
  shows "best_score_idx st b < length (sockets b)"
    and "j < length (sockets b) \<Longrightarrow>
      slot_key st (i, sockets b ! best_score_idx st b) \<le> slot_key st (i, sockets b ! j)"
proof -
  obtain k s where m: "min_by_key (slot_key st) (enumerate 0 (sockets b)) = Some (k, s)"
    using assms by (cases "min_by_key (slot_key st) (enumerate 0 (sockets b))") (auto dest: arg_cong [where f = length])
  then have best: "best_score_idx st b = k" by (simp add: best_score_idx_def)
  have k: "k < length (sockets b)" "s = sockets b ! k"
    using min_by_key_in [OF m] by (simp_all add: enumerate_mem)
  then show "best_score_idx st b < length (sockets b)" by (simp add: best)
  show "slot_key st (i, sockets b ! best_score_idx st b) \<le> slot_key st (i, sockets b ! j)"
    if "j < length (sockets b)"
    using min_by_key_least [OF m, of "(j, sockets b ! j)"] that k
    by (simp add: enumerate_mem slot_key_def best)
qed

lemma best_not_refusing:
  assumes "sockets b \<noteq> []" "refusing st (sockets b ! best_score_idx st b)"
  shows "all_refusing st b"
proof -
  have "refusing st (sockets b ! j)" if "j < length (sockets b)" for j
    using best_score_idx(2) [OF assms(1) that, of st 0] assms(2) by (auto simp: slot_key_def less_eq_prod_def)
  then show ?thesis using assms(1) by (simp add: all_refusing_def list_all_length)
qed

lemma affinity_hit_Some:
  "affinity_hit st now ip b a = Some i \<Longrightarrow>
   i < length (sockets b) \<and> \<not> refusing st (sockets b ! i) \<and>
   (\<exists>t. aff_entries a ip = Some (of_nat i, t) \<and> sat_sub now t < ttl_ns a)"
  by (auto simp: affinity_hit_def split: option.splits prod.splits if_splits)

lemma pick_cases:
  assumes "pick st now peer_ip b = (r, b')"
  obtains (none) "sockets b = []" "r = None" "b' = b"
    | (hit) ip a i where "sockets b \<noteq> []" "peer_ip = Some ip" "affinity b = Some a"
        "affinity_hit st now ip b a = Some i" "r = Some i"
        "b' = b\<lparr>affinity := Some (a\<lparr>aff_entries := (aff_entries a)(ip \<mapsto> (of_nat i, now))\<rparr>)\<rparr>"
    | (score) "sockets b \<noteq> []" "r = Some (best_score_idx st b)"
        "b' = (case peer_ip of Some ip \<Rightarrow> bind_affinity ip (best_score_idx st b) now b | None \<Rightarrow> b)"
proof (cases "sockets b = []")
  case True
  then show ?thesis using assms by (intro none) (simp_all add: pick_def)
next
  case False
  show ?thesis
  proof (cases "\<exists>ip a i. peer_ip = Some ip \<and> affinity b = Some a \<and> affinity_hit st now ip b a = Some i")
    case True
    then obtain ip a i where h: "peer_ip = Some ip" "affinity b = Some a" "affinity_hit st now ip b a = Some i"
      by auto
    obtain t where "aff_entries a ip = Some (of_nat i, t)" using affinity_hit_Some [OF h(3)] by auto
    then show ?thesis using assms False h by (intro hit [OF False h]) (auto simp: pick_def)
  next
    case no: False
    have "r = Some (best_score_idx st b)"
      "b' = (case peer_ip of Some ip \<Rightarrow> bind_affinity ip (best_score_idx st b) now b | None \<Rightarrow> b)"
      using assms False no
      by (auto simp: pick_def bind_affinity_def Let_def split: option.splits)
    then show ?thesis by (rule score [OF False])
  qed
qed

lemma pick_sockets: "pick st now peer_ip b = (r, b') \<Longrightarrow> sockets b' = sockets b"
  by (erule pick_cases) (auto simp: bind_affinity_def split: option.splits)

lemma pick_in_range:
  assumes "pick st now peer_ip b = (Some i, b')"
  shows "i < length (sockets b) \<and> (refusing st (sockets b ! i) \<longrightarrow> all_refusing st b)"
  using assms
proof (cases rule: pick_cases)
  case (hit ip a j)
  then show ?thesis using affinity_hit_Some [OF hit(4)] by auto
next
  case score
  then show ?thesis using best_score_idx(1) best_not_refusing by auto
qed simp

lemma pick_Some: "sockets b \<noteq> [] \<Longrightarrow> \<exists>i b'. pick st now peer_ip b = (Some i, b')"
  by (auto simp: pick_def Let_def split: option.splits)

subsection \<open>Sticky clients\<close>

text \<open>\<open>bound_to ip i t\<close>: the entry of \<open>ip\<close> names slot \<open>i\<close> and was used at \<open>t\<close> or later.\<close>

definition bound_to :: "ipaddr \<Rightarrow> nat \<Rightarrow> u64 \<Rightarrow> uds_balancer \<Rightarrow> bool" where
  "bound_to ip i t b \<longleftrightarrow>
     (\<exists>a t'. affinity b = Some a \<and> aff_entries a ip = Some (of_nat i, t') \<and> t \<le> t')"

text \<open>What other connections, guards and the eviction task may do to the balancer before \<open>until\<close>.\<close>

inductive others_step :: "ipaddr \<Rightarrow> u64 \<Rightarrow> uds_balancer \<Rightarrow> uds_balancer \<Rightarrow> bool" for ip until where
  pick_other: "pick st now peer b = (r, b') \<Longrightarrow> peer \<noteq> Some ip \<Longrightarrow> others_step ip until b b'"
| rebind_other: "peer \<noteq> Some ip \<Longrightarrow> others_step ip until b (rebind_affinity now peer i b)"
| evict: "now \<le> until \<Longrightarrow> others_step ip until b (evict_affinity now b)"
| guard_new: "others_step ip until b (increment path b)"
| guard_drop: "others_step ip until b (decrement path b)"

lemma ttl_bind_affinity [simp]: "map_option ttl_ns (affinity (bind_affinity ip i now b)) = map_option ttl_ns (affinity b)"
  by (auto simp: bind_affinity_def split: option.splits)

lemma sat_sub_mono: "sat_sub until t < ttl \<Longrightarrow> now \<le> until \<Longrightarrow> t \<le> t' \<Longrightarrow> sat_sub now t' < ttl"
  by (simp add: word_less_nat_alt word_le_nat_alt unat_sat_sub)

lemma length_update_first [simp]: "length (update_first P f xs) = length xs"
  by (induction xs) auto

lemma others_step_bound:
  assumes "others_step ip until b b'" "bound_to ip i t b" "affinity b = Some a" "sat_sub until t < ttl_ns a"
  shows "bound_to ip i t b' \<and> map_option ttl_ns (affinity b') = Some (ttl_ns a) \<and>
    length (sockets b') = length (sockets b)"
  using assms
proof (induction rule: others_step.induct)
  case (pick_other st now peer b r b')
  show ?case using pick_other(1)
  proof (cases rule: pick_cases)
    case (hit ip' a' j)
    then show ?thesis using pick_other(2-) by (auto simp: bound_to_def)
  next
    case score
    then show ?thesis using pick_other(2-) by (auto simp: bound_to_def bind_affinity_def split: option.splits)
  qed (use pick_other in auto)
next
  case (rebind_other peer b now j)
  then show ?case by (auto simp: bound_to_def rebind_affinity_def bind_affinity_def split: option.splits)
next
  case (evict now b)
  then show ?case using sat_sub_mono [of until t "ttl_ns a" now] by (auto simp: bound_to_def evict_affinity_def)
qed (auto simp: bound_to_def increment_def decrement_def)

lemma others_reach_bound:
  assumes "(others_step ip until)\<^sup>*\<^sup>* b b'" "bound_to ip i t b" "affinity b = Some a" "sat_sub until t < ttl_ns a"
  shows "bound_to ip i t b' \<and> map_option ttl_ns (affinity b') = Some (ttl_ns a) \<and>
    length (sockets b') = length (sockets b)"
  using assms(1)
proof (induction rule: rtranclp_induct)
  case (step b1 b2)
  then obtain a1 where "affinity b1 = Some a1" "ttl_ns a1 = ttl_ns a" by auto
  then show ?case using others_step_bound [OF step(2), of i t a1] step(3) assms(4) by auto
qed (use assms in auto)

lemma pick_binds:
  assumes "pick st now (Some ip) b = (Some i, b')" "affinity b = Some a"
  shows "bound_to ip i now b' \<and> map_option ttl_ns (affinity b') = Some (ttl_ns a)"
  using assms(1)
  by (cases rule: pick_cases) (use assms(2) in \<open>auto simp: bound_to_def bind_affinity_def\<close>)

lemma pick_bound:
  assumes "bound_to ip i t b" "affinity b = Some a" "i < length (sockets b)" "length (sockets b) \<le> 2 ^ 32"
    and "sat_sub now t < ttl_ns a" "\<not> refusing st (sockets b ! i)"
  shows "fst (pick st now (Some ip) b) = Some i"
proof -
  obtain t' where e: "aff_entries a ip = Some (of_nat i, t')" "t \<le> t'"
    using assms(1,2) by (auto simp: bound_to_def)
  have i: "unat (of_nat i :: u32) = i" using assms(3,4) by (simp add: unsigned_of_nat take_bit_nat_eq_self)
  have "affinity_hit st now ip b a = Some i"
    using e i assms(3,6) sat_sub_mono [OF assms(5) order_refl e(2)] by (simp add: affinity_hit_def)
  then show ?thesis using assms(2,3) by (auto simp: pick_def)
qed

subsection \<open>Active connections\<close>

definition active_of :: "bytes \<Rightarrow> uds_balancer \<Rightarrow> nat" where
  "active_of path b = (case find (\<lambda>s. slot_path s = path) (sockets b) of
     Some s \<Rightarrow> unat (slot_active s) | None \<Rightarrow> 0)"

text \<open>The life of a balancer: guards come and go, clients are placed, entries are evicted. The
  second component lists the paths of the live guards.\<close>

inductive guard_step :: "uds_balancer \<times> bytes list \<Rightarrow> uds_balancer \<times> bytes list \<Rightarrow> bool" where
  open_guard: "i < length (sockets b) \<Longrightarrow> path = slot_path (sockets b ! i) \<Longrightarrow> length gs < 2 ^ 32 - 1 \<Longrightarrow>
     guard_step (b, gs) (increment path b, path # gs)"
| close_guard: "path \<in> set gs \<Longrightarrow> guard_step (b, gs) (decrement path b, remove1 path gs)"
| place: "pick st now peer b = (r, b') \<Longrightarrow> guard_step (b, gs) (b', gs)"
| rebind: "guard_step (b, gs) (rebind_affinity now peer i b, gs)"
| expire: "guard_step (b, gs) (evict_affinity now b, gs)"

lemma sockets_affinity [simp]:
  "sockets (bind_affinity ip i now b) = sockets b" "sockets (rebind_affinity now peer i b) = sockets b"
  "sockets (evict_affinity now b) = sockets b"
  by (auto simp: bind_affinity_def rebind_affinity_def evict_affinity_def split: option.split)

lemma find_update_first:
  assumes "\<And>s. slot_path (f s) = slot_path s"
  shows "find (\<lambda>s. slot_path s = path) (update_first (\<lambda>s. slot_path s = p) f ss) =
    (if path = p then map_option f (find (\<lambda>s. slot_path s = path) ss) else find (\<lambda>s. slot_path s = path) ss)"
  using assms by (induction ss) auto

lemma active_increment:
  "active_of path (increment p b) = (case find (\<lambda>s. slot_path s = path) (sockets b) of
     Some s \<Rightarrow> if path = p then unat (slot_active s + 1) else unat (slot_active s) | None \<Rightarrow> 0)"
  by (auto simp: active_of_def increment_def find_update_first split: option.splits)

lemma active_decrement:
  "active_of path (decrement p b) = active_of path b - (if path = p then 1 else 0)"
  by (auto simp: active_of_def decrement_def find_update_first unat_sat_sub split: option.splits)

lemma count_list_remove1: "x \<in> set xs \<Longrightarrow> count_list (remove1 x xs) y = count_list xs y - (if x = y then 1 else 0)"
  by (induction xs) auto

lemma guard_step_active:
  assumes "guard_step w w'" "\<forall>path. active_of path (fst w) = count_list (snd w) path"
  shows "active_of path (fst w') = count_list (snd w') path"
  using assms
proof (induction rule: guard_step.induct)
  case (open_guard i b p gs)
  show ?case
  proof (cases "path = p")
    case True
    have "find (\<lambda>s. slot_path s = p) (sockets b) \<noteq> None"
      unfolding find_None_iff using open_guard(2) nth_mem [OF open_guard(1)] by metis
    then obtain s where s: "find (\<lambda>s. slot_path s = p) (sockets b) = Some s" by blast
    then have "unat (slot_active s) = count_list gs p"
      using open_guard(4) [rule_format, of p] by (simp add: active_of_def)
    moreover have "count_list gs p \<le> length gs" by (rule count_le_length)
    ultimately show ?thesis using True s open_guard(3) by (simp add: active_increment unat_word_ariths)
  next
    case False
    then have "active_of path (increment p b) = active_of path b"
      unfolding active_increment by (simp add: active_of_def split: option.split)
    then show ?thesis using open_guard(4) False by simp
  qed
next
  case (close_guard p gs b)
  then show ?case by (auto simp: active_decrement count_list_remove1)
next
  case (place st now peer b r b' gs)
  then show ?case using pick_sockets [OF place(1)] by (simp add: active_of_def)
qed (simp_all add: active_of_def)

lemma make_slots_active:
  "make_slots linux specs st = (ss, st') \<Longrightarrow> list_all (\<lambda>s. slot_active s = 0 \<and> slot_health s = None) ss"
  by (induction specs arbitrary: st ss) (fastforce simp: Let_def split: prod.splits option.splits)+

lemma active_of_fresh:
  assumes "list_all (\<lambda>s. slot_active s = 0) (sockets b)" shows "active_of path b = 0"
  using assms by (auto simp: active_of_def list_all_iff find_Some_iff split: option.splits)

lemma guard_reach_active:
  assumes "guard_step\<^sup>*\<^sup>* (b, []) w" "list_all (\<lambda>s. slot_active s = 0) (sockets b)"
  shows "active_of path (fst w) = count_list (snd w) path"
  using assms(1)
proof (induction arbitrary: path rule: rtranclp_induct)
  case base
  then show ?case by (simp add: active_of_fresh [OF assms(2)])
next
  case (step w w')
  then show ?case using guard_step_active [OF step(2)] by blast
qed

subsection \<open>Health across rebuilds\<close>

lemma health_slots_spec:
  "health_slots previous refuse_new now ss st = (ss', st') \<Longrightarrow>
   (\<And>path h. inherited_health previous path = Some h \<Longrightarrow> h < length (healths st)) \<Longrightarrow>
   length ss' = length ss \<and> length (healths st) \<le> length (healths st') \<and>
   (\<forall>h < length (healths st). healths st' ! h = healths st ! h) \<and>
   (\<forall>i < length ss. slot_path (ss' ! i) = slot_path (ss ! i) \<and> slot_active (ss' ! i) = slot_active (ss ! i) \<and>
      refusing st' (ss' ! i) = (case inherited_health previous (slot_path (ss ! i)) of
        Some h \<Rightarrow> health_refusing st h | None \<Rightarrow> refuse_new))"
proof (induction ss arbitrary: st ss')
  case (Cons s ss)
  obtain h st1 where h: "(case inherited_health previous (slot_path s) of
            Some h \<Rightarrow> (h, st)
          | None \<Rightarrow> (length (healths st), st\<lparr>healths := healths st @ [slot_health_new now refuse_new]\<rparr>)) = (h, st1)"
    by fastforce
  obtain rest where r: "health_slots previous refuse_new now ss st1 = (rest, st')" "ss' = s\<lparr>slot_health := Some h\<rparr> # rest"
    using Cons.prems(1) h by (auto simp: Let_def split: prod.splits)
  have len: "length (healths st) \<le> length (healths st1)" "h < length (healths st1)"
    and old: "\<forall>h < length (healths st). healths st1 ! h = healths st ! h"
    and val: "health_refusing st1 h = (case inherited_health previous (slot_path s) of
        Some h \<Rightarrow> health_refusing st h | None \<Rightarrow> refuse_new)"
    using h Cons.prems(2)
    by (auto simp: nth_append health_refusing_def slot_health_new_def max_def split: option.splits if_splits)
  have b: "\<And>path h. inherited_health previous path = Some h \<Longrightarrow> h < length (healths st1)"
    using Cons.prems(2) len(1) by (meson less_le_trans)
  have IH: "length rest = length ss \<and> length (healths st1) \<le> length (healths st') \<and>
   (\<forall>h < length (healths st1). healths st' ! h = healths st1 ! h) \<and>
   (\<forall>i < length ss. slot_path (rest ! i) = slot_path (ss ! i) \<and> slot_active (rest ! i) = slot_active (ss ! i) \<and>
      refusing st' (rest ! i) = (case inherited_health previous (slot_path (ss ! i)) of
        Some h \<Rightarrow> health_refusing st1 h | None \<Rightarrow> refuse_new))"
    by (rule Cons.IH [OF r(1)]) (erule b)
  have "health_refusing st1 h' = health_refusing st h'" if "inherited_health previous p = Some h'" for p h'
    using Cons.prems(2) [OF that] old by (simp add: health_refusing_def)
  then have "refusing st' (rest ! i) = (case inherited_health previous (slot_path (ss ! i)) of
        Some h \<Rightarrow> health_refusing st h | None \<Rightarrow> refuse_new)" if "i < length ss" for i
    using IH that by (auto split: option.splits)
  moreover have "refusing st' (s\<lparr>slot_health := Some h\<rparr>) = health_refusing st1 h"
    using IH len(2) by (simp add: refusing_def health_refusing_def)
  ultimately show ?case using IH len old val unfolding r(2) by (auto simp: nth_Cons split: nat.split)
qed simp

subsection \<open>Sampling\<close>

definition store_inv :: "store \<Rightarrow> bool" where
  "store_inv st \<longleftrightarrow> list_all cpu_inv (cpus st)"

lemma list_all_update: "list_all P xs \<Longrightarrow> P x \<Longrightarrow> list_all P (xs[i := x])"
  by (auto simp: list_all_iff dest!: set_update_subset_insert [THEN subsetD])

lemma sample_cpus_spec:
  "sample_cpus clk f proc now cs views heap = (sm, cn, views', heap') \<Longrightarrow> list_all cpu_inv heap \<Longrightarrow>
   \<forall>c \<in> set cs. c < length heap \<Longrightarrow>
   list_all cpu_inv heap' \<and> length heap' = length heap \<and> sm \<le> 1000 * cn"
proof (induction cs arbitrary: views heap sm cn)
  case (Cons c cs)
  obtain cpu views1 where s: "sample clk f proc now views (heap ! c) = (cpu, views1)" by fastforce
  obtain sm1 cn1 where r: "sample_cpus clk f proc now cs views1 (heap[c := cpu]) = (sm1, cn1, views', heap')"
    and sc: "(sm, cn) = (case load_sample now cpu of Some u \<Rightarrow> (unat u + sm1, cn1 + 1) | None \<Rightarrow> (sm1, cn1))"
    using Cons.prems(1) s by (auto simp: Let_def split: prod.splits option.splits)
  have "cpu_inv (heap ! c)" using Cons.prems(2,3) by (simp add: list_all_length)
  then have inv: "cpu_inv cpu" using sample_inv [of "heap ! c" clk f proc now views] s by simp
  have IH: "list_all cpu_inv heap' \<and> length heap' = length heap \<and> sm1 \<le> 1000 * cn1"
    using Cons.IH [OF r list_all_update [OF Cons.prems(2) inv]] Cons.prems(3) by simp
  then show ?case using sc load_sample_inv [OF inv, of now] by (cases "load_sample now cpu") auto
qed simp

lemma sample_balancers_inv:
  "store_inv st \<Longrightarrow> \<forall>r \<in> set rs. \<forall>c \<in> set (thread_cpus (balancers st ! r)). c < length (cpus st) \<Longrightarrow>
   store_inv (sample_balancers e clk f proc now rs views st)"
proof (induction rs arbitrary: views st)
  case (Cons r rs)
  obtain sm cn views1 heap where
    s: "sample_cpus clk f proc now (thread_cpus (balancers st ! r)) views (cpus st) = (sm, cn, views1, heap)"
    by (metis prod_cases4)
  have "list_all cpu_inv heap \<and> length heap = length (cpus st)"
    using sample_cpus_spec [OF s] Cons.prems by (simp add: store_inv_def)
  then have "store_inv (sample_balancers e clk f proc now rs views1 (st\<lparr>cpus := heap, loads := l\<rparr>))" for l
    using Cons.prems(2) by (intro Cons.IH) (auto simp: store_inv_def)
  then show ?case using s by (simp add: Let_def)
qed simp

end
