(* ===== verification/Upstream.thy ===== *)
theory Upstream
  imports Balancer
begin

text \<open>
  Connecting to an upstream (\<open>upstream.rs\<close>): a TCP destination, or the slots of a balancer tried
  in turn, and the PROXY protocol headers written ahead of the client's bytes. What the network
  does is an environment: the outcome of each connect, the two clocks and whether the deadline has
  passed, by number of the attempt. \<open>BalancerGuard\<close> is the increment on success and the decrement
  when the connection ends.
\<close>

section \<open>Definitions\<close>

subsection \<open>Errors and destinations\<close>

datatype error_kind =
    ConnectionRefused | NotFound | ConnectTimedOut | WouldBlock | HostUnreachable
  | NetworkUnreachable | NetworkDown | OtherKind

record io_error =
  kind :: error_kind
  raw_os_error :: "int option"

datatype upstream_error = Io io_error | NoSockets | OutOfBounds

datatype destination = Tcp socket_addr | UdsSet nat

datatype upstream_stream = TcpStream socket_addr | UdsStream nat bytes

definition connect_timed_out :: io_error where
  "connect_timed_out = \<lparr>kind = ConnectTimedOut, raw_os_error = None\<rparr>"

definition is_refusal :: "int \<Rightarrow> io_error \<Rightarrow> bool" where
  "is_refusal EHOSTDOWN e \<longleftrightarrow>
     kind e \<in> {ConnectionRefused, NotFound, ConnectTimedOut, WouldBlock, HostUnreachable,
       NetworkUnreachable, NetworkDown} \<or> raw_os_error e = Some EHOSTDOWN"

subsection \<open>The environment\<close>

datatype connect_outcome = Connected | Failed io_error | Elapsed

record connect_env =
  attempt :: "nat \<Rightarrow> bytes \<Rightarrow> connect_outcome"
  tcp_attempt :: "socket_addr \<Rightarrow> connect_outcome"
  nodelay_error :: "io_error option"
  mono_clock :: "nat \<Rightarrow> u64"
  wall_clock :: "nat \<Rightarrow> u64"
  in_time :: "nat \<Rightarrow> bool"
  ehostdown :: int

text \<open>The error of a connect under its timeout, \<open>None\<close> when it succeeds.\<close>

fun connect_error :: "connect_outcome \<Rightarrow> io_error option" where
  "connect_error Connected = None"
| "connect_error (Failed e) = Some e"
| "connect_error Elapsed = Some connect_timed_out"

subsection \<open>Connecting\<close>

definition mark_slot :: "u64 \<Rightarrow> uds_slot \<Rightarrow> store \<Rightarrow> store" where
  "mark_slot now s st = (case slot_health s of Some h \<Rightarrow> mark_refused now h st | None \<Rightarrow> st)"

lemma mark_slot_balancers [simp]: "balancers (mark_slot now s st) = balancers st"
  by (simp add: mark_slot_def mark_refused_def split: option.split)

definition resized :: "nat \<Rightarrow> bool list \<Rightarrow> bool list" where
  "resized n tried = (if tried = [] then replicate n False else tried)"

lemma next_untried_Some:
  assumes "next_untried st tried b = Some i"
  shows "i < length (sockets b) \<and> \<not> (i < length tried \<and> tried ! i)"
proof -
  obtain s where "min_by_key (slot_key st)
      (filter (\<lambda>(i, _). \<not> (i < length tried \<and> tried ! i)) (enumerate 0 (sockets b))) = Some (i, s)"
    using assms by (auto simp: next_untried_def)
  from min_by_key_in [OF this] show ?thesis by (auto simp: enumerate_mem)
qed

lemma filter_update_Not:
  "i < length xs \<Longrightarrow> length (filter Not (xs[i := True])) = length (filter Not xs) - (if xs ! i then 0 else 1) \<and>
   (\<not> xs ! i \<longrightarrow> 0 < length (filter Not xs))"
  by (induction xs arbitrary: i) (auto split: nat.splits simp: nth_Cons)

function uds_loop ::
    "connect_env \<Rightarrow> ipaddr option \<Rightarrow> nat \<Rightarrow> nat \<Rightarrow> nat \<Rightarrow> bool list \<Rightarrow> store \<Rightarrow>
     (upstream_error + upstream_stream) \<times> store" where
  "uds_loop env peer_ip ref n idx tried st =
     (let b = balancers st ! ref
      in if length (sockets b) \<le> idx then (Inl OutOfBounds, st)
         else
           let path = slot_path (sockets b ! idx)
           in case connect_error (attempt env n path) of
                None \<Rightarrow>
                  let b1 = (if tried = [] then b else rebind_affinity (wall_clock env n) peer_ip idx b)
                  in (Inr (UdsStream ref path), st\<lparr>balancers := (balancers st)[ref := increment path b1]\<rparr>)
              | Some e \<Rightarrow>
                  if is_refusal (ehostdown env) e then
                    let st1 = mark_slot (mono_clock env n) (sockets b ! idx) st;
                        tried1 = resized (length (sockets b)) tried
                    in if length tried1 \<le> idx then (Inl OutOfBounds, st1)
                       else case next_untried st1 (tried1[idx := True]) b of
                         Some next_idx \<Rightarrow>
                           if in_time env n then uds_loop env peer_ip ref (n + 1) next_idx (tried1[idx := True]) st1
                           else (Inl (Io e), st1)
                       | None \<Rightarrow> (Inl (Io e), st1)
                  else (Inl (Io e), st))"
  by pat_completeness auto
termination
proof (relation "measure (\<lambda>(_, _, ref, _, idx, tried, st).
    let t = resized (length (sockets (balancers st ! ref))) tried
    in length (filter Not (t[idx := True])) + (if idx < length t then 1 else 0))")
  fix env :: connect_env and peer_ip and ref n idx :: nat and tried and st :: store and b path e st1 tried1 next_idx
  assume b: "b = balancers st ! ref" and st1: "st1 = mark_slot (mono_clock env n) (sockets b ! idx) st"
    and t1: "tried1 = resized (length (sockets b)) tried" and idx: "\<not> length tried1 \<le> idx"
    and nxt: "next_untried st1 (tried1[idx := True]) b = Some next_idx"
  let ?t = "tried1[idx := True]"
  have "?t \<noteq> []" using idx by auto
  moreover have "\<not> (next_idx < length ?t \<and> ?t ! next_idx)" using next_untried_Some [OF nxt] by simp
  ultimately show "((env, peer_ip, ref, n + 1, next_idx, ?t, st1), env, peer_ip, ref, n, idx, tried, st)
      \<in> measure (\<lambda>(_, _, ref, _, idx, tried, st).
        let t = resized (length (sockets (balancers st ! ref))) tried
        in length (filter Not (t[idx := True])) + (if idx < length t then 1 else 0))"
    using filter_update_Not [of next_idx ?t] idx
    by (auto simp: resized_def [of _ ?t] Let_def st1 b [symmetric] t1 [symmetric] list_update_beyond)
qed simp

declare uds_loop.simps [simp del]

definition connect_uds ::
    "connect_env \<Rightarrow> ipaddr option \<Rightarrow> nat \<Rightarrow> store \<Rightarrow> (upstream_error + upstream_stream) \<times> store" where
  "connect_uds env peer_ip ref st =
     (case pick st (wall_clock env 0) peer_ip (balancers st ! ref) of
        (None, b) \<Rightarrow> (Inl NoSockets, st)
      | (Some idx, b) \<Rightarrow> uds_loop env peer_ip ref 0 idx [] (st\<lparr>balancers := (balancers st)[ref := b]\<rparr>))"

definition connect ::
    "connect_env \<Rightarrow> destination \<Rightarrow> ipaddr option \<Rightarrow> nat option \<Rightarrow> store \<Rightarrow>
     (upstream_error + upstream_stream) \<times> store" where
  "connect env dest peer_ip tcp_health st =
     (case dest of
        Tcp addr \<Rightarrow>
          (case connect_error (tcp_attempt env addr) of
             Some e \<Rightarrow>
               (Inl (Io e), case tcp_health of
                  Some h \<Rightarrow> if is_refusal (ehostdown env) e then mark_refused (mono_clock env 0) h st else st
                | None \<Rightarrow> st)
           | None \<Rightarrow>
               (case nodelay_error env of Some e \<Rightarrow> Inl (Io e) | None \<Rightarrow> Inr (TcpStream addr), st))
      | UdsSet ref \<Rightarrow> connect_uds env peer_ip ref st)"

text \<open>Dropping the stream drops its guard.\<close>

definition close_upstream :: "upstream_stream \<Rightarrow> store \<Rightarrow> store" where
  "close_upstream s st =
     (case s of
        TcpStream _ \<Rightarrow> st
      | UdsStream ref path \<Rightarrow> st\<lparr>balancers := (balancers st)[ref := decrement path (balancers st ! ref)]\<rparr>)"

subsection \<open>Printing addresses\<close>

fun hex_lower :: "nat \<Rightarrow> bytes" where
  "hex_lower n = (if n < 16 then [hex_digit n] else hex_lower (n div 16) @ [hex_digit (n mod 16)])"

declare hex_lower.simps [simp del]

definition fmt_ipv4 :: "bytes \<Rightarrow> bytes" where
  "fmt_ipv4 os = join (str ''.'') (map (\<lambda>b. dec (unat b)) os)"

definition segments :: "bytes \<Rightarrow> u16 list" where
  "segments os = map (\<lambda>(a, b). u16_be a b) (chunks2 os)"

text \<open>The longest run of zero segments, the first of several: \<open>(start, len)\<close>.\<close>

fun zero_span :: "nat \<Rightarrow> nat \<times> nat \<Rightarrow> nat \<times> nat \<Rightarrow> u16 list \<Rightarrow> nat \<times> nat" where
  "zero_span i longest current [] = longest"
| "zero_span i longest current (s # ss) =
     (if s = 0 then
        let cur = (if snd current = 0 then (i, 1) else (fst current, snd current + 1))
        in zero_span (i + 1) (if snd longest < snd cur then cur else longest) cur ss
      else zero_span (i + 1) longest (0, 0) ss)"

definition fmt_subslice :: "u16 list \<Rightarrow> bytes" where
  "fmt_subslice ss = join (str '':'') (map (\<lambda>s. hex_lower (unat s)) ss)"

definition fmt_ipv6 :: "bytes \<Rightarrow> bytes" where
  "fmt_ipv6 os =
     (case to_ipv4_mapped os of
        Some v4 \<Rightarrow> str ''::ffff:'' @ fmt_ipv4 v4
      | None \<Rightarrow>
          let ss = segments os; (s, len) = zero_span 0 (0, 0) (0, 0) ss
          in if 1 < len then fmt_subslice (take s ss) @ str ''::'' @ fmt_subslice (drop (s + len) ss)
             else fmt_subslice ss)"

fun fmt_ip :: "ipaddr \<Rightarrow> bytes" where
  "fmt_ip (V4 os) = fmt_ipv4 os"
| "fmt_ip (V6 os) = fmt_ipv6 os"

subsection \<open>PROXY protocol headers\<close>

definition crlf :: bytes where "crlf = [0x0D, 0x0A]"

definition proxy_v1_header :: "socket_addr \<Rightarrow> bytes" where
  "proxy_v1_header peer_addr =
     (let (proto, src_ip, dst_ip) = (case sa_ip peer_addr of
            V4 ip \<Rightarrow> (str ''TCP4'', fmt_ipv4 ip, str ''127.0.0.1'')
          | V6 ip \<Rightarrow> (case to_ipv4_mapped ip of
              Some v4 \<Rightarrow> (str ''TCP4'', fmt_ipv4 v4, str ''127.0.0.1'')
            | None \<Rightarrow> (str ''TCP6'', fmt_ipv6 ip, str ''::1'')))
      in str ''PROXY '' @ proto @ str '' '' @ src_ip @ str '' '' @ dst_ip @ str '' '' @
         dec (unat (sa_port peer_addr)) @ str '' 0'' @ crlf)"

definition PROXY_V2_SIGNATURE :: bytes where
  "PROXY_V2_SIGNATURE = [0x0D, 0x0A, 0x0D, 0x0A, 0x00, 0x0D, 0x0A, 0x51, 0x55, 0x49, 0x54, 0x0A]"

definition PP2_TYPE_JA3 :: u8 where "PP2_TYPE_JA3 = 0xE0"
definition PP2_TYPE_JA4 :: u8 where "PP2_TYPE_JA4 = 0xE1"
definition PP2_TYPE_CLIENT_CERT :: u8 where "PP2_TYPE_CLIENT_CERT = 0xE2"
definition PP2_TYPE_ALPN :: u8 where "PP2_TYPE_ALPN = 0x01"
definition PP2_TYPE_AUTHORITY :: u8 where "PP2_TYPE_AUTHORITY = 0x02"
definition PP2_TYPE_SSL :: u8 where "PP2_TYPE_SSL = 0x20"
definition PP2_SUBTYPE_SSL_VERSION :: u8 where "PP2_SUBTYPE_SSL_VERSION = 0x21"
definition PP2_SUBTYPE_SSL_CIPHER :: u8 where "PP2_SUBTYPE_SSL_CIPHER = 0x23"
definition PP2_CLIENT_SSL :: u8 where "PP2_CLIENT_SSL = 0x01"
definition PP2_CLIENT_CERT_CONN :: u8 where "PP2_CLIENT_CERT_CONN = 0x02"

text \<open>\<open>V2Addr\<close> is an \<open>ipaddr\<close>: \<open>normalize_v2_addr\<close> unwraps an IPv4-mapped address.\<close>

definition normalize_v2_addr :: "ipaddr \<Rightarrow> ipaddr" where
  "normalize_v2_addr ip =
     (case ip of
        V4 v4 \<Rightarrow> V4 v4
      | V6 v6 \<Rightarrow> (case to_ipv4_mapped v6 of Some v4 \<Rightarrow> V4 v4 | None \<Rightarrow> V6 v6))"

definition addr_block :: "socket_addr \<Rightarrow> socket_addr option \<Rightarrow> u8 \<times> bytes" where
  "addr_block peer_addr local_addr =
     (let dst = map_option (\<lambda>a. normalize_v2_addr (sa_ip a)) local_addr;
          dst_port = (case local_addr of Some a \<Rightarrow> sa_port a | None \<Rightarrow> 0);
          ports = u16_to_be (sa_port peer_addr) @ u16_to_be dst_port
      in case normalize_v2_addr (sa_ip peer_addr) of
           V4 src_ip \<Rightarrow>
             (0x11, src_ip @ (case dst of Some (V4 ip) \<Rightarrow> ip | _ \<Rightarrow> [127, 0, 0, 1]) @ ports)
         | V6 src_ip \<Rightarrow>
             (0x21, src_ip @ (case dst of Some (V6 ip) \<Rightarrow> ip | _ \<Rightarrow> replicate 15 0 @ [1]) @ ports))"

fun tlv_block :: "(u8 \<times> bytes) list \<Rightarrow> bytes option" where
  "tlv_block [] = Some []"
| "tlv_block ((ty, bs) # tlvs) =
     (if bs = [] then tlv_block tlvs
      else if length bs < 65536
      then map_option (\<lambda>rest. ty # u16_to_be (of_nat (length bs)) @ bs @ rest) (tlv_block tlvs)
      else None)"

text \<open>\<open>None\<close>: the error \<open>InvalidInput\<close>, nothing is written.\<close>

definition proxy_v2_header :: "socket_addr \<Rightarrow> socket_addr option \<Rightarrow> (u8 \<times> bytes) list \<Rightarrow> bytes option" where
  "proxy_v2_header peer_addr local_addr tlvs =
     (let (family, addrs) = addr_block peer_addr local_addr
      in case tlv_block tlvs of
           None \<Rightarrow> None
         | Some tlvs' \<Rightarrow>
             if length addrs + length tlvs' < 65536
             then Some (PROXY_V2_SIGNATURE @ [0x21, family] @
                    u16_to_be (of_nat (length addrs + length tlvs')) @ addrs @ tlvs')
             else None)"

section \<open>Lemmas\<close>

subsection \<open>Trying the slots\<close>

definition wf_tried :: "uds_balancer \<Rightarrow> nat \<Rightarrow> bool list \<Rightarrow> bool" where
  "wf_tried b idx tried \<longleftrightarrow> idx < length (sockets b) \<and> (tried = [] \<or> length tried = length (sockets b))"

definition was_tried :: "bool list \<Rightarrow> nat \<Rightarrow> bool" where
  "was_tried tried i \<longleftrightarrow> i < length tried \<and> tried ! i"

lemma was_tried_resized: "was_tried (resized n tried) i = was_tried tried i"
  by (simp add: was_tried_def resized_def)

lemma was_tried_update:
  "i < length tried \<Longrightarrow> was_tried (tried[i := True]) j \<longleftrightarrow> j = i \<or> was_tried tried j"
  by (auto simp: was_tried_def nth_list_update)

lemma next_untried_None:
  "next_untried st tried b = None \<Longrightarrow> i < length (sockets b) \<Longrightarrow> was_tried tried i"
  by (auto simp: next_untried_def filter_empty_conv enumerate_mem was_tried_def)

text \<open>One round of the loop, in the terms the proofs use.\<close>

lemma uds_loop_cases:
  assumes "wf_tried (balancers st ! ref) idx tried"
  obtains (accepted) "connect_error (attempt env n (slot_path (sockets (balancers st ! ref) ! idx))) = None"
      "\<exists>b1. sockets b1 = sockets (balancers st ! ref) \<and>
        uds_loop env peer_ip ref n idx tried st =
          (Inr (UdsStream ref (slot_path (sockets (balancers st ! ref) ! idx))),
           st\<lparr>balancers := (balancers st)[ref := increment (slot_path (sockets (balancers st ! ref) ! idx)) b1]\<rparr>)"
    | (failed) e where "connect_error (attempt env n (slot_path (sockets (balancers st ! ref) ! idx))) = Some e"
      "\<not> is_refusal (ehostdown env) e" "uds_loop env peer_ip ref n idx tried st = (Inl (Io e), st)"
    | (stopped) e st1 tried1 where
      "connect_error (attempt env n (slot_path (sockets (balancers st ! ref) ! idx))) = Some e"
      "is_refusal (ehostdown env) e" "st1 = mark_slot (mono_clock env n) (sockets (balancers st ! ref) ! idx) st"
      "\<And>j. was_tried tried1 j \<longleftrightarrow> j = idx \<or> was_tried tried j"
      "next_untried st1 tried1 (balancers st ! ref) = None \<or> \<not> in_time env n"
      "uds_loop env peer_ip ref n idx tried st = (Inl (Io e), st1)"
    | (retry) e st1 tried1 idx1 where
      "connect_error (attempt env n (slot_path (sockets (balancers st ! ref) ! idx))) = Some e"
      "is_refusal (ehostdown env) e" "st1 = mark_slot (mono_clock env n) (sockets (balancers st ! ref) ! idx) st"
      "tried1 = (resized (length (sockets (balancers st ! ref))) tried)[idx := True]"
      "\<And>j. was_tried tried1 j \<longleftrightarrow> j = idx \<or> was_tried tried j"
      "next_untried st1 tried1 (balancers st ! ref) = Some idx1" "in_time env n"
      "wf_tried (balancers st1 ! ref) idx1 tried1"
      "uds_loop env peer_ip ref n idx tried st = uds_loop env peer_ip ref (n + 1) idx1 tried1 st1"
proof (cases "connect_error (attempt env n (slot_path (sockets (balancers st ! ref) ! idx)))")
  case None
  have idx: "\<not> length (sockets (balancers st ! ref)) \<le> idx" using assms by (simp add: wf_tried_def)
  show ?thesis
    by (rule accepted [OF None], rule exI [where x = "if tried = [] then balancers st ! ref
          else rebind_affinity (wall_clock env n) peer_ip idx (balancers st ! ref)"],
        subst uds_loop.simps) (use None idx in \<open>simp add: Let_def\<close>)
next
  case (Some e)
  have idx: "\<not> length (sockets (balancers st ! ref)) \<le> idx" using assms by (simp add: wf_tried_def)
  let ?st1 = "mark_slot (mono_clock env n) (sockets (balancers st ! ref) ! idx) st"
  let ?r = "resized (length (sockets (balancers st ! ref))) tried"
  have len: "length ?r = length (sockets (balancers st ! ref))" using assms by (auto simp: wf_tried_def resized_def)
  have t: "was_tried (?r[idx := True]) j \<longleftrightarrow> j = idx \<or> was_tried tried j" for j
    using was_tried_update [of idx ?r j] idx len by (simp add: was_tried_resized)
  have step: "uds_loop env peer_ip ref n idx tried st =
      (if is_refusal (ehostdown env) e
       then case next_untried ?st1 (?r[idx := True]) (balancers st ! ref) of
          Some idx1 \<Rightarrow> if in_time env n then uds_loop env peer_ip ref (n + 1) idx1 (?r[idx := True]) ?st1
            else (Inl (Io e), ?st1)
        | None \<Rightarrow> (Inl (Io e), ?st1)
       else (Inl (Io e), st))"
    by (subst uds_loop.simps) (use Some idx len in \<open>simp add: Let_def\<close>)
  show ?thesis
  proof (cases "is_refusal (ehostdown env) e")
    case False
    then show ?thesis using step by (intro failed [OF Some]) simp_all
  next
    case True
    show ?thesis
    proof (cases "next_untried ?st1 (?r[idx := True]) (balancers st ! ref)")
      case None
      then show ?thesis using step True by (intro stopped [OF Some True refl t]) simp_all
    next
      case nxt: (Some idx1)
      have "wf_tried (balancers ?st1 ! ref) idx1 (?r[idx := True])"
        using next_untried_Some [OF nxt] len by (simp add: wf_tried_def)
      then have "in_time env n \<Longrightarrow> thesis" using step True nxt by (intro retry [OF Some True refl refl t nxt]) simp_all
      moreover have "\<not> in_time env n \<Longrightarrow> thesis" using step True nxt by (intro stopped [OF Some True refl t]) simp_all
      ultimately show ?thesis by blast
    qed
  qed
qed

lemma uds_loop_rounds [consumes 1, case_names round]:
  assumes "wf_tried (balancers st ! ref) idx tried"
    and "\<And>n idx tried st. wf_tried (balancers st ! ref) idx tried \<Longrightarrow>
      (\<And>e st1 tried1 idx1. connect_error (attempt env n (slot_path (sockets (balancers st ! ref) ! idx))) = Some e \<Longrightarrow>
         is_refusal (ehostdown env) e \<Longrightarrow> st1 = mark_slot (mono_clock env n) (sockets (balancers st ! ref) ! idx) st \<Longrightarrow>
         tried1 = (resized (length (sockets (balancers st ! ref))) tried)[idx := True] \<Longrightarrow>
         next_untried st1 tried1 (balancers st ! ref) = Some idx1 \<Longrightarrow> in_time env n \<Longrightarrow>
         wf_tried (balancers st1 ! ref) idx1 tried1 \<Longrightarrow> P (n + 1) idx1 tried1 st1) \<Longrightarrow> P n idx tried st"
  shows "P n idx tried st"
  using assms(1)
proof (induction "length (filter Not ((resized (length (sockets (balancers st ! ref))) tried)[idx := True]))"
    arbitrary: n idx tried st rule: less_induct)
  case less
  show ?case
  proof (rule assms(2) [OF less.prems])
    fix e st1 tried1 idx1
    assume st1: "st1 = mark_slot (mono_clock env n) (sockets (balancers st ! ref) ! idx) st"
      and t1: "tried1 = (resized (length (sockets (balancers st ! ref))) tried)[idx := True]"
      and nxt: "next_untried st1 tried1 (balancers st ! ref) = Some idx1"
      and wf: "wf_tried (balancers st1 ! ref) idx1 tried1"
    have "tried1 \<noteq> []" using less.prems by (auto simp: t1 wf_tried_def resized_def)
    moreover from this have "idx1 < length tried1" using wf by (auto simp: wf_tried_def)
    ultimately have "length (filter Not ((resized (length (sockets (balancers st1 ! ref))) tried1)[idx1 := True])) <
        length (filter Not tried1)"
      using filter_update_Not [of idx1 tried1] next_untried_Some [OF nxt] by (simp add: resized_def)
    then show "P (n + 1) idx1 tried1 st1" using less.hyps wf by (simp add: t1)
  qed
qed

lemma uds_loop_in_bounds:
  "wf_tried (balancers st ! ref) idx tried \<Longrightarrow> fst (uds_loop env peer_ip ref n idx tried st) \<noteq> Inl OutOfBounds"
proof (induction n idx tried st rule: uds_loop_rounds [where env = env])
  case (round n idx tried st)
  from round(1) show ?case
  proof (cases rule: uds_loop_cases [where env = env and n = n and peer_ip = peer_ip])
    case (retry e st1 tried1 idx1)
    then show ?thesis using round(2) [OF retry(1-4,6-8)] by simp
  qed auto
qed

lemma uds_loop_accepts:
  assumes "\<And>m i e. i < length (sockets b) \<Longrightarrow> connect_error (attempt env m (slot_path (sockets b ! i))) = Some e \<Longrightarrow>
      is_refusal (ehostdown env) e" "\<And>m. in_time env m"
    and "j < length (sockets b)" "\<And>m. connect_error (attempt env m (slot_path (sockets b ! j))) = None"
  shows "wf_tried (balancers st ! ref) idx tried \<Longrightarrow> balancers st ! ref = b \<Longrightarrow> \<not> was_tried tried j \<Longrightarrow>
    \<exists>path st'. uds_loop env peer_ip ref n idx tried st = (Inr (UdsStream ref path), st') \<and>
      path \<in> slot_path ` set (sockets b) \<and> (\<exists>m. connect_error (attempt env m path) = None)"
proof (induction n idx tried st rule: uds_loop_rounds [where env = env])
  case (round n idx tried st)
  have idx: "idx < length (sockets b)" using round(1,3) by (simp add: wf_tried_def)
  from round(1) show ?case
  proof (cases rule: uds_loop_cases [where env = env and n = n and peer_ip = peer_ip])
    case accepted
    then show ?thesis using idx round(3) by auto
  next
    case (failed e)
    then show ?thesis using assms(1) [OF idx, of n e] round(3) by simp
  next
    case (stopped e st1 tried1)
    have "was_tried tried1 j" using stopped(5) assms(2) next_untried_None [OF _ assms(3), of st1 tried1] round(3) by auto
    then have "j = idx" using stopped(4) round(4) by blast
    then show ?thesis using stopped(1) assms(4) [of n] round(3) by simp
  next
    case (retry e st1 tried1 idx1)
    have "\<not> was_tried tried1 j" using retry(1,5) assms(4) [of n] round(3,4) by auto
    then show ?thesis using round(2) [OF retry(1-4,6-8)] retry(3,9) round(3) by simp
  qed
qed

lemma uds_loop_all_refused:
  "wf_tried (balancers st ! ref) idx tried \<Longrightarrow> balancers st ! ref = b \<Longrightarrow>
    (\<And>m i. i < length (sockets b) \<Longrightarrow>
      \<exists>e. connect_error (attempt env m (slot_path (sockets b ! i))) = Some e \<and> is_refusal (ehostdown env) e) \<Longrightarrow>
    \<exists>e st'. uds_loop env peer_ip ref n idx tried st = (Inl (Io e), st') \<and> is_refusal (ehostdown env) e"
proof (induction n idx tried st rule: uds_loop_rounds [where env = env])
  case (round n idx tried st)
  have idx: "idx < length (sockets b)" using round(1,3) by (simp add: wf_tried_def)
  obtain e0 where e0: "connect_error (attempt env n (slot_path (sockets b ! idx))) = Some e0" "is_refusal (ehostdown env) e0"
    using round(4) [OF idx] by blast
  from round(1) show ?case
  proof (cases rule: uds_loop_cases [where env = env and n = n and peer_ip = peer_ip])
    case (retry e st1 tried1 idx1)
    then show ?thesis using round(2) [OF retry(1-4,6-8)] retry(3,9) round(3,4) by simp
  qed (use e0 round(3) in auto)
qed

text \<open>A refusal marks the slot, and no later step of the loop clears a mark.\<close>

definition wf_health :: "store \<Rightarrow> uds_balancer \<Rightarrow> bool" where
  "wf_health st b \<longleftrightarrow> (\<forall>s \<in> set (sockets b). \<exists>h. slot_health s = Some h \<and> h < length (healths st))"

lemma mark_slot_refusing:
  assumes "slot_health s = Some h" "h < length (healths st)"
  shows "refusing (mark_slot now s st) s" "refusing st s' \<Longrightarrow> refusing (mark_slot now s st) s'"
    "wf_health st b \<Longrightarrow> wf_health (mark_slot now s st) b"
proof -
  have "max now (1 :: u64) \<noteq> 0" by (auto simp: max_def)
  then show "refusing (mark_slot now s st) s" "refusing st s' \<Longrightarrow> refusing (mark_slot now s st) s'"
    using assms
    by (auto simp: refusing_def mark_slot_def mark_refused_def health_refusing_def nth_list_update split: option.splits)
  show "wf_health st b \<Longrightarrow> wf_health (mark_slot now s st) b"
    by (simp add: wf_health_def mark_slot_def mark_refused_def split: option.split)
qed

lemma uds_loop_refused:
  assumes "\<And>m. in_time env m"
  shows "wf_tried (balancers st ! ref) idx tried \<Longrightarrow> balancers st ! ref = b \<Longrightarrow> wf_health st b \<Longrightarrow>
    (\<forall>i < length (sockets b). was_tried tried i \<longrightarrow> refusing st (sockets b ! i)) \<Longrightarrow>
    uds_loop env peer_ip ref n idx tried st = (Inl (Io e), st') \<Longrightarrow> is_refusal (ehostdown env) e \<Longrightarrow>
    all_refusing st' b \<and> balancers st' = balancers st"
proof (induction n idx tried st rule: uds_loop_rounds [where env = env])
  case (round n idx tried st)
  have idx: "idx < length (sockets b)" using round(1,3) by (simp add: wf_tried_def)
  then obtain h where h: "slot_health (sockets b ! idx) = Some h" "h < length (healths st)"
    using round(4) nth_mem [OF idx] unfolding wf_health_def by blast
  from round(1) show ?case
  proof (cases rule: uds_loop_cases [where env = env and n = n and peer_ip = peer_ip])
    case (stopped e' st1 tried1)
    have "was_tried tried1 i" if "i < length (sockets b)" for i
      using stopped(5) assms next_untried_None [of st1 tried1 b i] that round(3) by auto
    then have "refusing st1 (sockets b ! i)" if "i < length (sockets b)" for i
      using that stopped(3,4) round(3,5) mark_slot_refusing(1,2) [OF h] by metis
    then have "all_refusing st1 b" using idx by (auto simp: all_refusing_def list_all_length)
    then show ?thesis using stopped(3,6) round(6) by simp
  next
    case (retry e' st1 tried1 idx1)
    have "\<forall>i < length (sockets b). was_tried tried1 i \<longrightarrow> refusing st1 (sockets b ! i)"
      using retry(3,5) round(3,5) mark_slot_refusing(1,2) [OF h] by metis
    moreover have "wf_health st1 b" using mark_slot_refusing(3) [OF h round(4)] retry(3) round(3) by simp
    ultimately show ?thesis
      using round(2) [OF retry(1-4,6-8)] retry(3,9) round(3,6,7) by simp
  qed (use round(6,7) in auto)
qed

subsection \<open>Header bytes\<close>

lemma length_tlv_block: "tlv_block tlvs = Some bs \<Longrightarrow> length bs = (\<Sum>(_, v) \<leftarrow> filter (\<lambda>(_, v). v \<noteq> []) tlvs. 3 + length v)"
  by (induction tlvs arbitrary: bs rule: tlv_block.induct) (auto split: if_splits)

lemma normalize_canonical: "normalize_v2_addr ip = to_canonical ip"
  by (simp add: normalize_v2_addr_def split: ipaddr.split)

lemma wf_normalize: "wf_ip ip \<Longrightarrow> wf_ip (normalize_v2_addr ip)"
  by (simp add: normalize_canonical wf_to_canonical)

lemma addr_block_V4:
  assumes "wf_addr peer" "pred_option wf_addr local_addr" "to_canonical (sa_ip peer) = V4 src"
  shows "\<exists>dst dp. addr_block peer local_addr = (0x11, src @ dst @ u16_to_be (sa_port peer) @ u16_to_be dp) \<and>
    length src = 4 \<and> length dst = 4"
proof -
  have "length src = 4" using wf_to_canonical [of "sa_ip peer"] assms(1,3) by (simp add: wf_addr_def)
  moreover have "wf_ip (to_canonical (sa_ip a))" if "local_addr = Some a" for a
    using wf_to_canonical assms(2) that by (simp add: wf_addr_def)
  ultimately show ?thesis
    using assms(3)
    by (auto simp: addr_block_def normalize_canonical Let_def split: option.splits ipaddr.splits)
qed

lemma addr_block_V6:
  assumes "wf_addr peer" "pred_option wf_addr local_addr" "to_canonical (sa_ip peer) = V6 src"
  shows "\<exists>dst dp. addr_block peer local_addr = (0x21, src @ dst @ u16_to_be (sa_port peer) @ u16_to_be dp) \<and>
    length src = 16 \<and> length dst = 16"
proof -
  have "length src = 16" using wf_to_canonical [of "sa_ip peer"] assms(1,3) by (simp add: wf_addr_def)
  moreover have "wf_ip (to_canonical (sa_ip a))" if "local_addr = Some a" for a
    using wf_to_canonical assms(2) that by (simp add: wf_addr_def)
  ultimately show ?thesis
    using assms(3)
    by (auto simp: addr_block_def normalize_canonical Let_def split: option.splits ipaddr.splits)
qed

end
