(* ===== verification/Balancing_Properties.thy ===== *)
theory Balancing_Properties
  imports Upstream
begin

text \<open>
  The properties of the balancer, of connecting to a route's sockets and of the load a balancer
  publishes, each with a witness where it has hypotheses.
\<close>

section \<open>Connecting\<close>

lemma connect_uds_cases:
  assumes "sockets (balancers st ! ref) \<noteq> []" "ref < length (balancers st)"
  obtains idx b where "connect env (UdsSet ref) peer_ip h st =
      uds_loop env peer_ip ref 0 idx [] (st\<lparr>balancers := (balancers st)[ref := b]\<rparr>)"
    "sockets b = sockets (balancers st ! ref)" "idx < length (sockets b)"
proof -
  obtain idx b where p: "pick st (wall_clock env 0) peer_ip (balancers st ! ref) = (Some idx, b)"
    using pick_Some [OF assms(1)] by blast
  then show ?thesis using pick_sockets [OF p] pick_in_range [OF p] by (intro that [of idx b]) (simp_all add: connect_def connect_uds_def)
qed

text \<open>C26. A connection to a set of sockets reaches one that accepts, whichever slot is picked first,
  as long as every failing socket refuses and the deadline allows another attempt.\<close>

theorem connect_reaches_accepting:
  assumes "ref < length (balancers st)" "j < length (sockets (balancers st ! ref))"
    and "\<forall>m. connect_error (attempt env m (slot_path (sockets (balancers st ! ref) ! j))) = None"
    and "\<forall>m. \<forall>s \<in> set (sockets (balancers st ! ref)).
      pred_option (is_refusal (ehostdown env)) (connect_error (attempt env m (slot_path s)))"
    and "\<forall>m. in_time env m"
  shows "\<exists>path st'. connect env (UdsSet ref) peer_ip tcp_health st = (Inr (UdsStream ref path), st') \<and>
    path \<in> slot_path ` set (sockets (balancers st ! ref)) \<and> (\<exists>m. connect_error (attempt env m path) = None)"
proof -
  have "sockets (balancers st ! ref) \<noteq> []" using assms(2) by auto
  then obtain idx b where c: "connect env (UdsSet ref) peer_ip tcp_health st =
      uds_loop env peer_ip ref 0 idx [] (st\<lparr>balancers := (balancers st)[ref := b]\<rparr>)"
    and b: "sockets b = sockets (balancers st ! ref)" "idx < length (sockets b)"
    using assms(1) by (rule connect_uds_cases)
  have "is_refusal (ehostdown env) e"
    if "i < length (sockets b)" "connect_error (attempt env m (slot_path (sockets b ! i))) = Some e" for m i e
    using assms(4) that nth_mem [OF that(1)] b(1) by (metis option.pred_inject(2))
  then show ?thesis
    unfolding c b(1) [symmetric]
    by (rule uds_loop_accepts [where j = j]) (use assms b in \<open>simp_all add: wf_tried_def was_tried_def\<close>)
qed

definition two_slots :: store where
  "two_slots = \<lparr>healths = [0, 0], cpus = [], loads = [load_ewma_default],
     balancers = [\<lparr>sockets = [\<lparr>slot_path = str ''/a'', slot_active = 0, slot_health = Some 0, slot_cpu = None\<rparr>,
         \<lparr>slot_path = str ''/b'', slot_active = 3, slot_health = Some 1, slot_cpu = None\<rparr>],
       affinity = Some \<lparr>aff_entries = (\<lambda>_. None), ttl_ns = 1000\<rparr>, load_ref = 0\<rparr>]\<rparr>"

definition network :: "(bytes \<Rightarrow> connect_outcome) \<Rightarrow> connect_env" where
  "network f = \<lparr>attempt = (\<lambda>_. f), tcp_attempt = (\<lambda>_. Connected), nodelay_error = None,
     mono_clock = (\<lambda>n. of_nat n), wall_clock = (\<lambda>n. of_nat n), in_time = (\<lambda>_. True), ehostdown = 112\<rparr>"

definition refused_error :: io_error where
  "refused_error = \<lparr>kind = ConnectionRefused, raw_os_error = Some 111\<rparr>"

theorem connect_reaches_accepting_witness:
  "\<exists>path st'. connect (network (\<lambda>p. if p = str ''/b'' then Connected else Failed refused_error)) (UdsSet 0) None None two_slots =
      (Inr (UdsStream 0 path), st') \<and> path \<in> slot_path ` set (sockets (balancers two_slots ! 0)) \<and>
      (\<exists>m. connect_error (attempt (network (\<lambda>p. if p = str ''/b'' then Connected else Failed refused_error)) m path) = None)"
  by (rule connect_reaches_accepting [where j = 1])
    (simp_all add: two_slots_def network_def refused_error_def is_refusal_def str_def)

text \<open>C31. When every attempt is refused, the connection reports a refusal and every slot of the set is
  marked as refusing, so that the route counts as down.\<close>

theorem connect_total_refusal:
  assumes "ref < length (balancers st)" "sockets (balancers st ! ref) \<noteq> []" "wf_health st (balancers st ! ref)"
    and "\<forall>m. \<forall>s \<in> set (sockets (balancers st ! ref)). \<exists>e.
      connect_error (attempt env m (slot_path s)) = Some e \<and> is_refusal (ehostdown env) e"
    and "\<forall>m. in_time env m"
  shows "\<exists>e st'. connect env (UdsSet ref) peer_ip tcp_health st = (Inl (Io e), st') \<and>
    is_refusal (ehostdown env) e \<and> all_refusing st' (balancers st' ! ref)"
proof -
  obtain idx b where c: "connect env (UdsSet ref) peer_ip tcp_health st =
      uds_loop env peer_ip ref 0 idx [] (st\<lparr>balancers := (balancers st)[ref := b]\<rparr>)"
    and b: "sockets b = sockets (balancers st ! ref)" "idx < length (sockets b)"
    using assms(2,1) by (rule connect_uds_cases)
  let ?st = "st\<lparr>balancers := (balancers st)[ref := b]\<rparr>"
  have wf: "wf_tried (balancers ?st ! ref) idx []" using b assms(1) by (simp add: wf_tried_def)
  have all: "\<exists>e. connect_error (attempt env m (slot_path (sockets b ! i))) = Some e \<and> is_refusal (ehostdown env) e"
    if "i < length (sockets b)" for m i
    using assms(4) nth_mem [OF that] b(1) by simp
  obtain e st' where out: "uds_loop env peer_ip ref 0 idx [] ?st = (Inl (Io e), st')" "is_refusal (ehostdown env) e"
    using uds_loop_all_refused [where peer_ip = peer_ip and n = 0, OF wf _ all] assms(1) by auto
  have "all_refusing st' b \<and> balancers st' = balancers ?st"
    by (rule uds_loop_refused [OF assms(5) [rule_format] wf _ _ _ out])
      (use assms b in \<open>simp_all add: wf_health_def was_tried_def\<close>)
  then show ?thesis using c out assms(1) by auto
qed

theorem connect_total_refusal_witness:
  "\<exists>e st'. connect (network (\<lambda>_. Failed refused_error)) (UdsSet 0) None None two_slots = (Inl (Io e), st') \<and>
    is_refusal (ehostdown (network (\<lambda>_. Failed refused_error))) e \<and> all_refusing st' (balancers st' ! 0)"
  by (rule connect_total_refusal)
    (simp_all add: two_slots_def network_def refused_error_def is_refusal_def wf_health_def)

section \<open>Balancing\<close>

text \<open>C32. Sticky clients: once a client has been placed on a slot, its next connection goes to the same
  slot, whatever other clients, guards and the eviction task did in between, as long as its entry has
  not expired, the slot is not refusing and there are at most \<open>2\<^sup>3\<^sup>2\<close> sockets.\<close>

theorem pick_sticky:
  assumes "pick st0 t (Some ip) b = (Some i, b1)" "affinity b = Some a" "length (sockets b) \<le> 2 ^ 32"
    and "(others_step ip now)\<^sup>*\<^sup>* b1 b2" "sat_sub now t < ttl_ns a" "\<not> refusing st (sockets b2 ! i)"
  shows "fst (pick st now (Some ip) b2) = Some i"
proof -
  have b1: "bound_to ip i t b1" "map_option ttl_ns (affinity b1) = Some (ttl_ns a)"
    using pick_binds [OF assms(1,2)] by simp_all
  then obtain a1 where a1: "affinity b1 = Some a1" "ttl_ns a1 = ttl_ns a" by auto
  have b2: "bound_to ip i t b2 \<and> map_option ttl_ns (affinity b2) = Some (ttl_ns a1) \<and> length (sockets b2) = length (sockets b1)"
    by (rule others_reach_bound [OF assms(4) b1(1) a1(1)]) (use assms(5) a1(2) in simp)
  then obtain a2 where a2: "affinity b2 = Some a2" "ttl_ns a2 = ttl_ns a" using a1(2) by auto
  show ?thesis
    by (rule pick_bound [OF _ a2(1), where t = t])
      (use a2(2) b2 pick_in_range [OF assms(1)] pick_sockets [OF assms(1)] assms(3,5,6) in simp_all)
qed

theorem pick_sticky_witness:
  "fst (pick two_slots 500 (Some (V4 [10, 0, 0, 1])) (evict_affinity 400 (increment (str ''/a'')
      (snd (pick two_slots 0 (Some (V4 [10, 0, 0, 1])) (balancers two_slots ! 0)))))) = Some 0"
proof (rule pick_sticky [where a = "\<lparr>aff_entries = (\<lambda>_. None), ttl_ns = 1000\<rparr>"])
  show "pick two_slots 0 (Some (V4 [10, 0, 0, 1])) (balancers two_slots ! 0) =
      (Some 0, snd (pick two_slots 0 (Some (V4 [10, 0, 0, 1])) (balancers two_slots ! 0)))"
    by (simp add: pick_def two_slots_def affinity_hit_def best_score_idx_def slot_key_def score_def refusing_def health_refusing_def Let_def)
  show "(others_step (V4 [10, 0, 0, 1]) 500)\<^sup>*\<^sup>* (snd (pick two_slots 0 (Some (V4 [10, 0, 0, 1])) (balancers two_slots ! 0)))
      (evict_affinity 400 (increment (str ''/a'') (snd (pick two_slots 0 (Some (V4 [10, 0, 0, 1])) (balancers two_slots ! 0)))))"
    by (rule converse_rtranclp_into_rtranclp, rule others_step.guard_new, rule r_into_rtranclp, rule others_step.evict) simp
qed (simp_all add: two_slots_def sat_sub_def evict_affinity_def increment_def pick_def affinity_hit_def best_score_idx_def
      slot_key_def score_def refusing_def health_refusing_def bind_affinity_def Let_def str_def)







section \<open>Load\<close>

text \<open>A thread counts towards the load only when it was found in the process that owns the socket and
  that owner has not changed; what it contributes is at most 1000 permille.\<close>

theorem load_counts_discovered:
  assumes "(cpu_step clk)\<^sup>*\<^sup>* (thread_cpu_new linux path pid tid) cpu" "load_sample now cpu = Some util"
  shows "unat util \<le> 1000 \<and> is_discovered (identity (sampling cpu)) \<and> \<not> owner_changed (sampling cpu)"
  by (rule load_sample_inv [OF cpu_inv_reach [OF assms(1)] assms(2)])

definition busy_proc :: procfs where
  "busy_proc = \<lparr>stat_file = (\<lambda>_ _. Some (str ''9 (worker) S 1 1 1 0 0 0 0 0 0 0 5 6 0 0 0 0 0 0 42'')),
     status_file = (\<lambda>_. Some (str ''NSpid: 7'')), task_dir = (\<lambda>_. None)\<rparr>"

definition worker :: thread_cpu where
  "worker = fst (sample 100 (\<lambda>_. None) busy_proc 2000 (\<lambda>_. None) (fst (sample 100 (\<lambda>_. None) busy_proc 1000 (\<lambda>_. None)
     (finish_discovery \<lparr>disc_owner = Some 7, disc_inode = None\<rparr> (thread_cpu_new True (str ''/a'') 7 9)))))"

lemma busy_proc_reads:
  "task_stat_of busy_proc pid tid = Some \<lparr>ticks = 11, start = 42\<rparr>"
  "process_view busy_proc pid = Some \<lparr>innermost_pid = 7, nested = False, threads = (\<lambda>_. None)\<rparr>"
proof -
  have "parse_task_stat (str ''9 (worker) S 1 1 1 0 0 0 0 0 0 0 5 6 0 0 0 0 0 0 42'') = Some \<lparr>ticks = 11, start = 42\<rparr>"
    "utf8_valid (str ''9 (worker) S 1 1 1 0 0 0 0 0 0 0 5 6 0 0 0 0 0 0 42'')"
    "parse_nspid (str ''NSpid: 7'') = Some [7]" "utf8_valid (str ''NSpid: 7'')"
    by code_simp+
  then show "task_stat_of busy_proc pid tid = Some \<lparr>ticks = 11, start = 42\<rparr>"
    "process_view busy_proc pid = Some \<lparr>innermost_pid = 7, nested = False, threads = (\<lambda>_. None)\<rparr>"
    by (simp_all add: task_stat_of_def busy_proc_def read_to_string_def process_view_def nspid_def)
qed

theorem load_counts_discovered_witness:
  "\<exists>util. load_sample 3000 worker = Some util \<and> unat util \<le> 1000 \<and> is_discovered (identity (sampling worker)) \<and>
    \<not> owner_changed (sampling worker)"
proof -
  have "(cpu_step 100)\<^sup>*\<^sup>* (thread_cpu_new True (str ''/a'') 7 9) worker"
    unfolding worker_def
    by (intro rtranclp.rtrancl_into_rtrancl [OF rtranclp.rtrancl_into_rtrancl [OF r_into_rtranclp [where r = "cpu_step 100"]]])
      (rule cpu_step.intros)+
  moreover have "\<exists>util. load_sample 3000 worker = Some util"
    by (simp add: worker_def load_sample_def sample_def finish_discovery_def thread_cpu_new_def apply_discovery_def
        resolve_def cached_view_def resolve_in_def busy_proc_reads recheck_owner_def read_thread_def take_sample_def
        sat_add_def OWNER_RECHECK_NS_def SAMPLE_VALID_NS_def Let_def)
  ultimately show ?thesis using load_counts_discovered by blast
qed

text \<open>A load that a pass publishes is at most 1000 permille and is answered for one second, to the
  millisecond, after the pass; then there is none.\<close>

theorem load_published_for_a_second:
  assumes "ewma_last_pass_ns l < now" "unat now + 1000000000 < 2 ^ 64"
  shows "\<exists>permille. unat permille \<le> 1000 \<and>
    (\<forall>t. load_get t (load_update exp_f64 (Some mean) now l) =
      (if unat t div 1000000 < unat now div 1000000 + 1000
       then Some (permille, of_nat (unat now div 1000000 + 1000)) else None))"
  using assms by (rule load_get_update)

theorem load_published_for_a_second_witness:
  "\<exists>permille. unat permille \<le> 1000 \<and>
    (\<forall>t. load_get t (load_update (\<lambda>_. Fin 0) (Some 300) 5000000 load_ewma_default) =
      (if unat t div 1000000 < unat (5000000 :: u64) div 1000000 + 1000
       then Some (permille, of_nat (unat (5000000 :: u64) div 1000000 + 1000)) else None))"
  by (rule load_published_for_a_second) (simp_all add: load_ewma_default_def)

end
