(* ===== verification/Ingress.thy ===== *)
theory Ingress
  imports Upstream
begin

text \<open>
  The receiving end of peer failover (\<open>ingress.rs\<close>) and the source allowlists it shares with the
  router (\<open>router.rs\<close>, \<open>SourceAllowlist\<close>). A byte stream is what the peer sends and what follows:
  it closes, or stays silent until the limit. Parsing of CIDRs and the checked constructor of an
  IPv4 network (crate \<open>ipnetwork\<close>) are parameters; their errors are the printed reason.
\<close>

section \<open>Definitions\<close>

subsection \<open>Source allowlists\<close>

type_synonym source_allowlist = "ip_network list"

type_synonym net_parser = "bytes \<Rightarrow> bytes + ip_network"

type_synonym net_new = "bytes \<Rightarrow> u8 \<Rightarrow> bytes + ip_network"

definition permits :: "(ip_network \<Rightarrow> ipaddr \<Rightarrow> bool) \<Rightarrow> source_allowlist \<Rightarrow> ipaddr \<Rightarrow> bool" where
  "permits contains allow peer = list_ex (\<lambda>network. contains network (to_canonical peer)) allow"

definition invalid_cidr :: "bytes \<Rightarrow> bytes \<Rightarrow> bytes \<Rightarrow> bytes" where
  "invalid_cidr label entry reason =
     str ''invalid '' @ label @ str '' CIDR '' @ [0x27] @ entry @ [0x27] @ str '': '' @ reason"

definition parse_source_network :: "net_parser \<Rightarrow> net_new \<Rightarrow> bytes \<Rightarrow> bytes \<Rightarrow> bytes + ip_network" where
  "parse_source_network parse_net new_v4 entry label =
     (case parse_net entry of
        Inl e \<Rightarrow> Inl (invalid_cidr label entry e)
      | Inr (NetV6 ip plen) \<Rightarrow>
          (case to_ipv4_mapped ip of
             Some v4 \<Rightarrow>
               (if plen < 96 then Inl (invalid_cidr label entry
                  (str ''an IPv4-mapped CIDR needs a prefix of at least 96 (or write it as IPv4)''))
                else case new_v4 v4 (plen - 96) of
                  Inl e \<Rightarrow> Inl (invalid_cidr label entry e) | Inr n \<Rightarrow> Inr n)
           | None \<Rightarrow> Inr (NetV6 ip plen))
      | Inr (NetV4 ip plen) \<Rightarrow> Inr (NetV4 ip plen))"

fun parse_required :: "net_parser \<Rightarrow> net_new \<Rightarrow> bytes list \<Rightarrow> bytes \<Rightarrow> bytes + source_allowlist" where
  "parse_required parse_net new_v4 [] label = Inr []"
| "parse_required parse_net new_v4 (entry # entries) label =
     (case parse_source_network parse_net new_v4 entry label of
        Inl e \<Rightarrow> Inl e
      | Inr n \<Rightarrow> map_sum id (Cons n) (parse_required parse_net new_v4 entries label))"

definition parse_allowlist :: "net_parser \<Rightarrow> net_new \<Rightarrow> bytes list \<Rightarrow> bytes + source_allowlist option" where
  "parse_allowlist parse_net new_v4 entries =
     (if entries = [] then Inr None
      else map_sum id Some (parse_required parse_net new_v4 entries (str ''allowedSources'')))"

subsection \<open>Constants and headers\<close>

definition SIGNATURE :: bytes where
  "SIGNATURE = [0x0D, 0x0A, 0x0D, 0x0A, 0x00, 0x0D, 0x0A, 0x51, 0x55, 0x49, 0x54, 0x0A]"

definition MAX_PAYLOAD :: nat where "MAX_PAYLOAD = 512"
definition LOAD_QUERY_TLV :: u8 where "LOAD_QUERY_TLV = 0xE3"
definition MAX_QUERY_NAMES :: nat where "MAX_QUERY_NAMES = 64"
definition MAX_NAME_LEN :: nat where "MAX_NAME_LEN = 253"
definition MAX_LOCAL_PAYLOAD :: nat where "MAX_LOCAL_PAYLOAD = MAX_QUERY_NAMES * (3 + MAX_NAME_LEN)"
definition LOAD_ANSWER_MAGIC :: bytes where "LOAD_ANSWER_MAGIC = str ''SYMPHONY-LOAD/1'' @ [0x0A]"

definition trusts :: "(ip_network \<Rightarrow> ipaddr \<Rightarrow> bool) \<Rightarrow> source_allowlist \<Rightarrow> ipaddr \<Rightarrow> bool" where
  "trusts contains trusted peer = permits contains trusted peer"

datatype header = ProxyHeader socket_addr | LoadQuery "bytes option list"

datatype header_reject = RejectInvalid | RejectLocal | RejectV1 | RejectTimeout

datatype command = ProxyCommand nat | LocalCommand nat

subsection \<open>Reading a header\<close>

datatype stream_end = Closed | Silent

type_synonym stream_in = "bytes \<times> stream_end"

definition read_exact :: "nat \<Rightarrow> stream_in \<Rightarrow> header_reject + bytes \<times> stream_in" where
  "read_exact n s =
     (if n \<le> length (fst s) then Inr (take n (fst s), drop n (fst s), snd s)
      else Inl (case snd s of Closed \<Rightarrow> RejectInvalid | Silent \<Rightarrow> RejectTimeout))"

definition address_len :: "u8 \<Rightarrow> nat option" where
  "address_len family =
     (if family = 0x00 then Some 0 else if family = 0x11 then Some 12
      else if family = 0x21 then Some 36 else None)"

definition parse_fixed :: "bytes \<Rightarrow> header_reject + command" where
  "parse_fixed hdr =
     (if starts_with (str ''PROXY '') hdr then Inl RejectV1
      else if take 12 hdr \<noteq> SIGNATURE \<or> drop_bit 4 (hdr ! 12) \<noteq> 2 then Inl RejectInvalid
      else
        let len = unat (u16_be (hdr ! 14) (hdr ! 15)); cmd = hdr ! 12 AND 0x0F
        in if cmd = 0 then
             (case address_len (hdr ! 13) of
                Some addr_len \<Rightarrow>
                  if addr_len \<le> len \<and> len \<le> MAX_LOCAL_PAYLOAD then Inr (LocalCommand len) else Inl RejectInvalid
              | None \<Rightarrow> Inl RejectInvalid)
           else if cmd \<noteq> 1 then Inl RejectInvalid
           else if hdr ! 13 = 0x11 then
             (if len < 12 \<or> MAX_PAYLOAD < len then Inl RejectInvalid else Inr (ProxyCommand len))
           else if hdr ! 13 = 0x21 then
             (if len < 36 \<or> MAX_PAYLOAD < len then Inl RejectInvalid else Inr (ProxyCommand len))
           else Inl RejectInvalid)"

definition valid_name :: "bytes \<Rightarrow> bytes option" where
  "valid_name v = (if 1 \<le> length v \<and> length v \<le> MAX_NAME_LEN \<and> utf8_valid v then Some v else None)"

function query_names :: "bytes \<Rightarrow> bytes option list \<Rightarrow> header_reject + bytes option list" where
  "query_names [] names = Inr names"
| "query_names [a] names = Inl RejectInvalid"
| "query_names [a, b] names = Inl RejectInvalid"
| "query_names (k # hi # lo # rest) names =
     (let len = unat (u16_be hi lo)
      in if length rest < len then Inl RejectInvalid
         else if k = LOAD_QUERY_TLV then
           (if length names = MAX_QUERY_NAMES then Inl RejectInvalid
            else query_names (drop len rest) (names @ [valid_name (take len rest)]))
         else query_names (drop len rest) names)"
  by pat_completeness auto
termination by (relation "measure (length \<circ> fst)") auto

definition parse_load_query :: "u8 \<Rightarrow> bytes \<Rightarrow> header_reject + bytes option list" where
  "parse_load_query family payload =
     (case address_len family of
        None \<Rightarrow> Inl RejectInvalid
      | Some n \<Rightarrow>
          (case query_names (drop n payload) [] of
             Inl e \<Rightarrow> Inl e
           | Inr names \<Rightarrow> if names = [] then Inl RejectLocal else Inr names))"

function discard_tlvs :: "nat \<Rightarrow> stream_in \<Rightarrow> header_reject + stream_in" where
  "discard_tlvs tlvs s =
     (if tlvs = 0 then Inr s
      else case read_exact (min tlvs 64) s of
        Inl e \<Rightarrow> Inl e
      | Inr (_, s') \<Rightarrow> discard_tlvs (tlvs - min tlvs 64) s')"
  by pat_completeness auto
termination by (relation "measure fst") auto

declare discard_tlvs.simps [simp del]

definition parse_source :: "u8 \<Rightarrow> bytes \<Rightarrow> header_reject + socket_addr" where
  "parse_source family payload =
     (if family = 0x11 then
        Inr \<lparr>sa_ip = V4 (slice payload 0 4), sa_port = u16_be (payload ! 8) (payload ! 9)\<rparr>
      else if family = 0x21 then
        Inr \<lparr>sa_ip = to_canonical (V6 (slice payload 0 16)), sa_port = u16_be (payload ! 32) (payload ! 33)\<rparr>
      else Inl RejectInvalid)"

definition read_proxy_v2 :: "stream_in \<Rightarrow> header_reject + header \<times> stream_in" where
  "read_proxy_v2 s =
     (case read_exact 16 s of
        Inl e \<Rightarrow> Inl e
      | Inr (hdr, s1) \<Rightarrow>
          (case parse_fixed hdr of
             Inl e \<Rightarrow> Inl e
           | Inr (LocalCommand len) \<Rightarrow>
               (case read_exact len s1 of
                  Inl e \<Rightarrow> Inl e
                | Inr (payload, s2) \<Rightarrow> map_sum id (\<lambda>names. (LoadQuery names, s2)) (parse_load_query (hdr ! 13) payload))
           | Inr (ProxyCommand len) \<Rightarrow>
               let addr_len = (if hdr ! 13 = 0x11 then 12 else 36)
               in case read_exact addr_len s1 of
                    Inl e \<Rightarrow> Inl e
                  | Inr (addresses, s2) \<Rightarrow>
                      (case discard_tlvs (len - addr_len) s2 of
                         Inl e \<Rightarrow> Inl e
                       | Inr s3 \<Rightarrow> map_sum id (\<lambda>a. (ProxyHeader a, s3)) (parse_source (hdr ! 13) addresses))))"

subsection \<open>Load queries and answers\<close>

function chunks :: "nat \<Rightarrow> 'a list \<Rightarrow> 'a list list" where
  "chunks n xs = (if xs = [] \<or> n = 0 then [] else take n xs # chunks n (drop n xs))"
  by pat_completeness auto
termination by (relation "measure (length \<circ> snd)") auto

declare chunks.simps [simp del]

definition load_query_chunks :: "bytes list \<Rightarrow> bytes list list" where
  "load_query_chunks names = chunks MAX_QUERY_NAMES names"

definition query_tlv :: "bytes \<Rightarrow> bytes" where
  "query_tlv name =
     (let name' = (if length name \<le> MAX_NAME_LEN then name else [])
      in LOAD_QUERY_TLV # u16_to_be (of_nat (length name')) @ name')"

definition encode_load_query :: "bytes list \<Rightarrow> bytes" where
  "encode_load_query names =
     (let tlvs = concat (map query_tlv names)
      in SIGNATURE @ [0x20, 0x00] @ u16_to_be (of_nat (length tlvs)) @ tlvs)"

definition answer_line :: "u32 option \<Rightarrow> bytes" where
  "answer_line load = (case load of Some permille \<Rightarrow> dec (unat (min permille 1000)) | None \<Rightarrow> str ''-'')"

definition encode_load_answer :: "u32 option list \<Rightarrow> bytes" where
  "encode_load_answer permilles = LOAD_ANSWER_MAGIC @ concat (map (\<lambda>l. answer_line l @ [0x0A]) permilles)"

definition max_load_answer_len :: "nat \<Rightarrow> nat" where
  "max_load_answer_len names = length LOAD_ANSWER_MAGIC + names * 5"

definition parse_answer_line :: "bytes \<Rightarrow> u32 option option" where
  "parse_answer_line line =
     (if line = str ''-'' then Some None
      else if 1 \<le> length line \<and> length line \<le> 4 \<and> list_all is_ascii_digit line then
        (case parse_u32 line of Some v \<Rightarrow> if v \<le> 1000 then Some (Some v) else None | None \<Rightarrow> None)
      else None)"

definition parse_load_answer :: "bytes \<Rightarrow> nat \<Rightarrow> u32 option list option" where
  "parse_load_answer answer expected =
     (if max_load_answer_len expected < length answer then None
      else case strip_prefix LOAD_ANSWER_MAGIC answer of
        None \<Rightarrow> None
      | Some text \<Rightarrow>
          if \<not> utf8_valid text then None
          else
            let body = (if text \<noteq> [] \<and> last text = 0x0A then butlast text else text);
                lines = (if body = [] then [] else split_on (\<lambda>b. b = 0x0A) body)
            in if length lines \<noteq> expected \<or> \<not> (answer \<noteq> [] \<and> last answer = 0x0A) then None
               else those (map parse_answer_line lines))"

section \<open>Lemmas\<close>

subsection \<open>Reading\<close>

lemma read_exact_append: "length xs = n \<Longrightarrow> read_exact n (xs @ ys, e) = Inr (xs, ys, e)"
  by (simp add: read_exact_def)

lemma discard_tlvs_eq:
  "discard_tlvs n (bs, e) =
     (if n \<le> length bs then Inr (drop n bs, e)
      else Inl (case e of Closed \<Rightarrow> RejectInvalid | Silent \<Rightarrow> RejectTimeout))"
proof (induction n arbitrary: bs rule: less_induct)
  case (less n)
  show ?case
  proof (cases "n = 0")
    case False
    then show ?thesis
      by (subst discard_tlvs.simps) (auto simp: read_exact_def less.IH min_def not_le)
  qed (simp add: discard_tlvs.simps)
qed

lemma signature_length [simp]: "length SIGNATURE = 12"
  by (simp add: SIGNATURE_def)

lemma signature_eq: "PROXY_V2_SIGNATURE = SIGNATURE"
  by (simp add: PROXY_V2_SIGNATURE_def SIGNATURE_def)

lemma signature_not_v1: "\<not> starts_with (str ''PROXY '') (SIGNATURE @ xs)"
  by (simp add: starts_with_def SIGNATURE_def str_def)

lemma parse_fixed_hdr:
  "parse_fixed (SIGNATURE @ cmd # family # u16_to_be len) =
     (if drop_bit 4 cmd \<noteq> 2 then Inl RejectInvalid
      else if cmd AND 0x0F = 0 then
        (case address_len family of
           Some n \<Rightarrow> if n \<le> unat len \<and> unat len \<le> MAX_LOCAL_PAYLOAD then Inr (LocalCommand (unat len)) else Inl RejectInvalid
         | None \<Rightarrow> Inl RejectInvalid)
      else if cmd AND 0x0F \<noteq> 1 then Inl RejectInvalid
      else if family = 0x11 then
        (if unat len < 12 \<or> MAX_PAYLOAD < unat len then Inl RejectInvalid else Inr (ProxyCommand (unat len)))
      else if family = 0x21 then
        (if unat len < 36 \<or> MAX_PAYLOAD < unat len then Inl RejectInvalid else Inr (ProxyCommand (unat len)))
      else Inl RejectInvalid)"
proof -
  obtain hi lo where u: "u16_to_be len = [hi, lo]" "u16_be hi lo = len" by (rule u16_to_be_cases)
  have nth: "(SIGNATURE @ [cmd, family, hi, lo]) ! 12 = cmd" "(SIGNATURE @ [cmd, family, hi, lo]) ! 13 = family"
    "(SIGNATURE @ [cmd, family, hi, lo]) ! 14 = hi" "(SIGNATURE @ [cmd, family, hi, lo]) ! 15 = lo"
    by (simp_all add: nth_append)
  show ?thesis
    using signature_not_v1 [of "[cmd, family, hi, lo]"]
    by (simp add: parse_fixed_def u nth Let_def del: unat_u16_be)
qed

lemma read_hdr:
  "read_exact 16 (SIGNATURE @ cmd # family # u16_to_be len @ rest, e) =
     Inr (SIGNATURE @ cmd # family # u16_to_be len, rest, e)"
  using read_exact_append [of "SIGNATURE @ cmd # family # u16_to_be len" 16 rest e] by simp

lemma parse_source_V4:
  assumes "length src = 4" "length dst = 4"
  shows "parse_source 0x11 (src @ dst @ u16_to_be port @ u16_to_be dp) = Inr \<lparr>sa_ip = V4 src, sa_port = port\<rparr>"
proof -
  obtain hi lo where u: "u16_to_be port = [hi, lo]" "u16_be hi lo = port" by (rule u16_to_be_cases)
  show ?thesis using assms by (simp add: parse_source_def slice_def nth_append u)
qed

lemma parse_source_V6:
  assumes "length src = 16" "length dst = 16"
  shows "parse_source 0x21 (src @ dst @ u16_to_be port @ u16_to_be dp) =
    Inr \<lparr>sa_ip = to_canonical (V6 src), sa_port = port\<rparr>"
proof -
  obtain hi lo where u: "u16_to_be port = [hi, lo]" "u16_be hi lo = port" by (rule u16_to_be_cases)
  show ?thesis using assms by (simp add: parse_source_def slice_def nth_append u)
qed

lemma read_proxy_header:
  assumes "family = 0x11 \<and> length addrs = 12 \<or> family = 0x21 \<and> length addrs = 36"
    and "length addrs + length tlvs \<le> MAX_PAYLOAD" "parse_source family addrs = Inr a"
  shows "read_proxy_v2 (SIGNATURE @ [0x21, family] @ u16_to_be (of_nat (length addrs + length tlvs)) @ addrs @ tlvs @ rest, e) =
    Inr (ProxyHeader a, rest, e)"
proof -
  have len: "unat (of_nat (length addrs + length tlvs) :: u16) = length addrs + length tlvs"
    using assms(2) by (simp add: MAX_PAYLOAD_def del: of_nat_add)
  have r: "read_exact (length addrs) (addrs @ tlvs @ rest, e) = Inr (addrs, tlvs @ rest, e)"
    by (rule read_exact_append) simp
  show ?thesis
    using assms r
    by (auto simp: read_proxy_v2_def read_hdr parse_fixed_hdr len nth_append discard_tlvs_eq Let_def simp del: of_nat_add)
qed

lemma read_written_header:
  assumes "wf_addr peer" "pred_option wf_addr local_addr"
    and "proxy_v2_header peer local_addr tlvs = Some h" "length h \<le> 16 + MAX_PAYLOAD"
  shows "read_proxy_v2 (h @ rest, e) = Inr (ProxyHeader (peer\<lparr>sa_ip := to_canonical (sa_ip peer)\<rparr>), rest, e)"
proof -
  obtain family addrs ts where ab: "addr_block peer local_addr = (family, addrs)" and ts: "tlv_block tlvs = Some ts"
    and h: "h = SIGNATURE @ [0x21, family] @ u16_to_be (of_nat (length addrs + length ts)) @ addrs @ ts"
    using assms(3) by (auto simp: proxy_v2_header_def signature_eq split: prod.splits option.splits if_splits)
  have len: "length addrs + length ts \<le> MAX_PAYLOAD" using assms(4) by (simp add: h)
  have "(family = 0x11 \<and> length addrs = 12 \<or> family = 0x21 \<and> length addrs = 36) \<and>
    parse_source family addrs = Inr (peer\<lparr>sa_ip := to_canonical (sa_ip peer)\<rparr>)"
  proof (cases "to_canonical (sa_ip peer)")
    case (V4 src)
    then show ?thesis using addr_block_V4 [OF assms(1,2) V4] ab by (auto simp: parse_source_V4)
  next
    case (V6 src)
    have "to_canonical (V6 src) = V6 src" using to_canonical_idem [of "sa_ip peer"] by (simp add: V6)
    then show ?thesis using addr_block_V6 [OF assms(1,2) V6] ab V6 by (auto simp: parse_source_V6)
  qed
  then show ?thesis using read_proxy_header [OF _ len] by (simp add: h)
qed

subsection \<open>Load queries\<close>

lemma query_tlv_Cons:
  "query_tlv name @ rest =
     LOAD_QUERY_TLV # of_nat (length (if length name \<le> MAX_NAME_LEN then name else []) div 256)
       # of_nat (length (if length name \<le> MAX_NAME_LEN then name else []) mod 256)
       # (if length name \<le> MAX_NAME_LEN then name else []) @ rest"
  by (simp add: query_tlv_def u16_to_be_def MAX_NAME_LEN_def)

lemma query_names_encoded:
  "length acc + length names \<le> MAX_QUERY_NAMES \<Longrightarrow>
   query_names (concat (map query_tlv names)) acc = Inr (acc @ map valid_name names)"
proof (induction names arbitrary: acc)
  case (Cons name names)
  let ?n = "if length name \<le> MAX_NAME_LEN then name else []"
  have v: "valid_name ?n = valid_name name" by (auto simp: valid_name_def)
  have l: "unat (u16_be (of_nat (length ?n div 256)) (of_nat (length ?n mod 256))) = length ?n"
    by (simp add: MAX_NAME_LEN_def)
  have "query_names (concat (map query_tlv (name # names))) acc =
      query_names (concat (map query_tlv names)) (acc @ [valid_name name])"
    using Cons.prems by (simp add: query_tlv_Cons Let_def l v del: unat_u16_be)
  then show ?case using Cons by simp
qed simp

lemma length_query_tlvs: "length (concat (map query_tlv names)) \<le> length names * (3 + MAX_NAME_LEN)"
  by (induction names) (auto simp: query_tlv_def)

lemma read_load_query:
  assumes "names \<noteq> []" "length names \<le> MAX_QUERY_NAMES"
  shows "read_proxy_v2 (encode_load_query names @ rest, e) = Inr (LoadQuery (map valid_name names), rest, e)"
proof -
  let ?t = "concat (map query_tlv names)"
  have "length ?t \<le> MAX_LOCAL_PAYLOAD"
    unfolding MAX_LOCAL_PAYLOAD_def
    by (rule order_trans [OF length_query_tlvs mult_le_mono1 [OF assms(2)]])
  moreover from this have "unat (of_nat (length ?t) :: u16) = length ?t"
    by (simp add: MAX_LOCAL_PAYLOAD_def MAX_QUERY_NAMES_def MAX_NAME_LEN_def)
  moreover have "read_exact (length ?t) (?t @ rest, e) = Inr (?t, rest, e)" by (rule read_exact_append) simp
  ultimately show ?thesis
    using assms query_names_encoded [of "[]" names]
    by (simp add: encode_load_query_def read_proxy_v2_def read_hdr parse_fixed_hdr Let_def address_len_def nth_append parse_load_query_def)
qed

subsection \<open>Framing\<close>

text \<open>A self-delimiting message: the decoder recovers what the encoder put in and leaves exactly the
  bytes that follow.\<close>

locale framing =
  fixes enc :: "'a \<Rightarrow> bytes" and dec_msg :: "stream_in \<Rightarrow> 'e + 'b \<times> stream_in" and view :: "'a \<Rightarrow> 'b"
    and ok :: "'a \<Rightarrow> bool"
  assumes frame: "ok x \<Longrightarrow> dec_msg (enc x @ rest, e) = Inr (view x, rest, e)"
begin

lemma unambiguous: "ok x \<Longrightarrow> ok y \<Longrightarrow> enc x @ r = enc y @ s \<Longrightarrow> view x = view y \<and> r = s"
  using frame [of x r Closed] frame [of y s Closed] by simp

lemma no_prefix: "ok x \<Longrightarrow> ok y \<Longrightarrow> view x \<noteq> view y \<Longrightarrow> \<not> prefix (enc x) (enc y)"
  using unambiguous [of y x "[]"] by (auto simp: prefix_def)

end

interpretation proxy_frame: framing "\<lambda>(peer, local_addr). the (proxy_v2_header peer local_addr [])" read_proxy_v2
    "\<lambda>(peer, local_addr). ProxyHeader (peer\<lparr>sa_ip := to_canonical (sa_ip peer)\<rparr>)"
    "\<lambda>(peer, local_addr). wf_addr peer \<and> pred_option wf_addr local_addr"
proof
  fix x :: "socket_addr \<times> socket_addr option" and rest e
  obtain peer local_addr where x: "x = (peer, local_addr)" by fastforce
  assume "case x of (peer, local_addr) \<Rightarrow> wf_addr peer \<and> pred_option wf_addr local_addr"
  then have wf: "wf_addr peer" "pred_option wf_addr local_addr" by (auto simp: x)
  obtain family addrs where ab: "addr_block peer local_addr = (family, addrs)" by fastforce
  have "length addrs \<le> 36"
    using addr_block_V4 [OF wf] addr_block_V6 [OF wf] ab by (cases "to_canonical (sa_ip peer)") auto
  then obtain h where "proxy_v2_header peer local_addr [] = Some h" "length h \<le> 16 + MAX_PAYLOAD"
    by (auto simp: proxy_v2_header_def ab signature_eq MAX_PAYLOAD_def)
  then show "read_proxy_v2 ((case x of (peer, local_addr) \<Rightarrow> the (proxy_v2_header peer local_addr [])) @ rest, e) =
      Inr (case x of (peer, local_addr) \<Rightarrow> ProxyHeader (peer\<lparr>sa_ip := to_canonical (sa_ip peer)\<rparr>), rest, e)"
    using read_written_header [OF wf] by (simp add: x)
qed

interpretation query_frame: framing encode_load_query read_proxy_v2 "\<lambda>names. LoadQuery (map valid_name names)"
    "\<lambda>names. names \<noteq> [] \<and> length names \<le> MAX_QUERY_NAMES"
  by unfold_locales (simp add: read_load_query)

subsection \<open>Segmentation\<close>

text \<open>What the reader has decided after the bytes seen so far, with the number of bytes it took;
  \<open>None\<close> while it waits for more.\<close>

definition header_decision :: "bytes \<Rightarrow> (header_reject + header \<times> nat) option" where
  "header_decision bs =
     (case read_proxy_v2 (bs, Silent) of
        Inl RejectTimeout \<Rightarrow> None
      | Inl e \<Rightarrow> Some (Inl e)
      | Inr (h, rest, _) \<Rightarrow> Some (Inr (h, length bs - length rest)))"

lemma read_exact_Silent:
  "read_exact n (bs, Silent) = (if n \<le> length bs then Inr (take n bs, drop n bs, Silent) else Inl RejectTimeout)"
  by (simp add: read_exact_def)

lemma query_names_not_timeout: "query_names bs names \<noteq> Inl RejectTimeout"
  by (induction bs names rule: query_names.induct) (auto simp: Let_def)

lemma parse_load_query_not_timeout: "parse_load_query family payload \<noteq> Inl RejectTimeout"
  using query_names_not_timeout by (auto simp: parse_load_query_def split: option.splits sum.splits)

lemma parse_fixed_not_timeout: "parse_fixed hdr \<noteq> Inl RejectTimeout"
  by (simp add: parse_fixed_def Let_def split: option.split)

lemma parse_source_not_timeout: "parse_source family addrs \<noteq> Inl RejectTimeout"
  by (simp add: parse_source_def)

lemmas not_timeout = parse_load_query_not_timeout parse_fixed_not_timeout parse_source_not_timeout

lemma parse_fixed_ProxyCommand:
  "parse_fixed hdr = Inr (ProxyCommand len) \<Longrightarrow> (if hdr ! 13 = 0x11 then 12 else 36) \<le> len"
  by (auto simp: parse_fixed_def Let_def split: if_splits option.splits)

text \<open>The decision as a function of the bytes: a rejection or a result over a fixed part of them.\<close>

lemma header_decision_eq:
  "header_decision bs =
     (if length bs < 16 then None
      else case parse_fixed (take 16 bs) of
        Inl e \<Rightarrow> Some (Inl e)
      | Inr (LocalCommand len) \<Rightarrow>
          if length bs < 16 + len then None
          else Some (map_sum id (\<lambda>names. (LoadQuery names, 16 + len))
                 (parse_load_query (bs ! 13) (take len (drop 16 bs))))
      | Inr (ProxyCommand len) \<Rightarrow>
          if length bs < 16 + len then None
          else Some (map_sum id (\<lambda>a. (ProxyHeader a, 16 + len))
                 (parse_source (bs ! 13) (take (if bs ! 13 = 0x11 then 12 else 36) (drop 16 bs)))))"
proof (cases "length bs < 16")
  case True
  then show ?thesis by (simp add: header_decision_def read_proxy_v2_def read_exact_Silent)
next
  case False
  have n: "take 16 bs ! 13 = bs ! 13" by simp
  show ?thesis
  proof (cases "parse_fixed (take 16 bs)")
    case (Inl e)
    then show ?thesis using False parse_fixed_not_timeout [of "take 16 bs"]
      by (cases e) (auto simp: header_decision_def read_proxy_v2_def read_exact_Silent)
  next
    case (Inr c)
    show ?thesis
    proof (cases c)
      case (ProxyCommand len)
      have len: "(if bs ! 13 = 0x11 then 12 else 36) \<le> len"
        using parse_fixed_ProxyCommand [of "take 16 bs" len] Inr ProxyCommand by simp
      let ?al = "if bs ! 13 = 0x11 then 12 else 36 :: nat"
      obtain al where al: "?al = al" by blast
      have "read_proxy_v2 (bs, Silent) = (if length bs < 16 + len then Inl RejectTimeout
          else map_sum id (\<lambda>a. (ProxyHeader a, drop (16 + len) bs, Silent)) (parse_source (bs ! 13) (take al (drop 16 bs))))"
      proof (cases "al \<le> length bs - 16")
        case True
        have "len - al \<le> length (drop al (drop 16 bs)) \<longleftrightarrow> \<not> length bs < 16 + len"
          "drop (len - al) (drop al (drop 16 bs)) = drop (16 + len) bs" "al \<le> length (drop 16 bs)"
          using False len True unfolding al by (auto simp: add.commute)
        then show ?thesis using False Inr ProxyCommand True
          by (auto simp: read_proxy_v2_def read_exact_Silent discard_tlvs_eq al simp del: drop_drop length_drop)
      next
        case short: False
        then show ?thesis using False Inr ProxyCommand len
          by (auto simp: read_proxy_v2_def read_exact_Silent al)
      qed
      note r = this [folded al]
      show ?thesis
      proof (cases "parse_source (bs ! 13) (take ?al (drop 16 bs))")
        case (Inl e)
        then show ?thesis using False Inr ProxyCommand not_timeout(3) [of "bs ! 13" "take ?al (drop 16 bs)"]
          by (cases e) (simp_all add: header_decision_def r)
      next
        case (Inr a)
        then show ?thesis using False \<open>parse_fixed (take 16 bs) = Inr c\<close> ProxyCommand
          by (simp add: header_decision_def r)
      qed
    next
      case (LocalCommand len)
      have r: "read_proxy_v2 (bs, Silent) = (if length bs < 16 + len then Inl RejectTimeout
          else map_sum id (\<lambda>names. (LoadQuery names, drop (16 + len) bs, Silent))
            (parse_load_query (bs ! 13) (take len (drop 16 bs))))"
        using False Inr LocalCommand by (auto simp: read_proxy_v2_def read_exact_Silent add.commute)
      show ?thesis
      proof (cases "parse_load_query (bs ! 13) (take len (drop 16 bs))")
        case (Inl e)
        then show ?thesis using False Inr LocalCommand not_timeout(1) [of "bs ! 13" "take len (drop 16 bs)"]
          by (cases e) (simp_all add: header_decision_def r)
      next
        case (Inr a)
        then show ?thesis using False \<open>parse_fixed (take 16 bs) = Inr c\<close> LocalCommand
          by (simp add: header_decision_def r)
      qed
    qed
  qed
qed

interpretation header_read: incremental_decoder header_decision
proof
  fix xs ys :: bytes and r
  assume h: "header_decision xs = Some r"
  then have len: "16 \<le> length xs" by (auto simp: header_decision_eq split: if_splits)
  then have t: "take 16 (xs @ ys) = take 16 xs" "(xs @ ys) ! 13 = xs ! 13" by (simp_all add: nth_append)
  have d: "take n (drop 16 (xs @ ys)) = take n (drop 16 xs)" if "16 + n \<le> length xs" for n
    using that len by simp
  show "header_decision (xs @ ys) = Some r"
  proof (cases "parse_fixed (take 16 xs)")
    case (Inl e)
    then show ?thesis using h len by (simp add: header_decision_eq t)
  next
    case (Inr c)
    show ?thesis
    proof (cases c)
      case (ProxyCommand len')
      have "(if xs ! 13 = 0x11 then 12 else 36) \<le> len'"
        using parse_fixed_ProxyCommand [of "take 16 xs" len'] Inr ProxyCommand len by simp
      then show ?thesis using h len Inr ProxyCommand d [of "if xs ! 13 = 0x11 then 12 else 36"]
        by (auto simp: header_decision_eq t split: if_splits)
    next
      case (LocalCommand len')
      then show ?thesis using h len Inr d [of len'] by (auto simp: header_decision_eq t split: if_splits)
    qed
  qed
qed

subsection \<open>Load answers\<close>

lemma split_on_append:
  "\<forall>x \<in> set xs. \<not> P x \<Longrightarrow> P c \<Longrightarrow> split_on P (xs @ c # ys) = xs # split_on P ys"
  by (induction xs) auto

lemma split_on_none: "\<forall>x \<in> set xs. \<not> P x \<Longrightarrow> split_on P xs = [xs]"
  by (induction xs) auto

lemma split_on_lines:
  "ls \<noteq> [] \<Longrightarrow> \<forall>l \<in> set ls. \<forall>x \<in> set l. \<not> P x \<Longrightarrow> P c \<Longrightarrow>
   split_on P (butlast (concat (map (\<lambda>l. l @ [c]) ls))) = ls"
proof (induction ls)
  case (Cons l ls)
  then show ?case by (cases ls) (simp_all add: split_on_none split_on_append butlast_append)
qed simp

lemma answer_line_chars: "x \<in> set (answer_line l) \<Longrightarrow> x < 0x80 \<and> x \<noteq> 0x0A"
  using dec_digits [of "unat (min (the l) 1000)"]
  by (cases l) (auto simp: answer_line_def list_all_iff is_ascii_digit_def str_def word_less_nat_alt word_le_nat_alt)

lemma parse_answer_line: "parse_answer_line (answer_line l) = Some (map_option (min 1000) l)"
proof (cases l)
  case (Some p)
  have le: "unat (min p 1000) \<le> 1000" by (simp add: min_def word_le_nat_alt)
  have d: "dec (unat (min p 1000)) \<noteq> str ''-''"
    using dec_digits [of "unat (min p 1000)"] by (auto simp: str_def is_ascii_digit_def)
  have "length (dec (unat (min p 1000))) \<le> 4"
    using le by (intro length_dec_le) simp_all
  then show ?thesis using d dec_digits
    by (auto simp: Some answer_line_def parse_answer_line_def parse_u32_dec Suc_le_eq min.commute)
qed (simp add: answer_line_def parse_answer_line_def)

lemma utf8_valid_ascii: "\<forall>x \<in> set bs. x < 0x80 \<Longrightarrow> utf8_valid bs"
  unfolding utf8_valid_def by (induction bs) auto

lemma length_answer: "length (concat (map (\<lambda>l. answer_line l @ [0x0A]) ls)) \<le> length ls * 5"
proof (induction ls)
  case (Cons l ls)
  have "length (answer_line l) \<le> 4"
  proof (cases l)
    case (Some p)
    have "unat (min p 1000) \<le> 1000" by (simp add: min_def word_le_nat_alt)
    then show ?thesis by (simp add: Some answer_line_def) (rule length_dec_le, simp_all)
  qed (simp add: answer_line_def)
  then show ?case using Cons by simp
qed simp

lemma answer_line_not_Nil: "answer_line l \<noteq> []"
  by (simp add: answer_line_def str_def split: option.split)

lemma parse_encoded_answer:
  "parse_load_answer (encode_load_answer ls) (length ls) = Some (map (map_option (min 1000)) ls)"
proof -
  let ?t = "concat (map (\<lambda>l. answer_line l @ [0x0A]) ls)"
  have "\<not> max_load_answer_len (length ls) < length (encode_load_answer ls)"
    using length_answer [of ls] by (simp add: max_load_answer_len_def encode_load_answer_def)
  moreover have "strip_prefix LOAD_ANSWER_MAGIC (encode_load_answer ls) = Some ?t"
    by (simp add: encode_load_answer_def)
  moreover have "utf8_valid ?t"
    by (rule utf8_valid_ascii) (use answer_line_chars in \<open>auto simp: word_less_nat_alt\<close>)
  moreover have "encode_load_answer ls \<noteq> [] \<and> last (encode_load_answer ls) = 0x0A"
    by (induction ls rule: rev_induct) (simp_all add: encode_load_answer_def LOAD_ANSWER_MAGIC_def)
  moreover have "(if (if ?t \<noteq> [] \<and> last ?t = 0x0A then butlast ?t else ?t) = [] then []
      else split_on (\<lambda>b. b = 0x0A) (if ?t \<noteq> [] \<and> last ?t = 0x0A then butlast ?t else ?t)) = map answer_line ls"
  proof (cases "ls = []")
    case False
    have t: "?t = concat (map (\<lambda>l. l @ [0x0A]) (map answer_line ls))" by (simp add: comp_def)
    have l: "?t \<noteq> []" "last ?t = 0x0A" using False by (induction ls rule: rev_induct) simp_all
    have "split_on (\<lambda>b. b = 0x0A) (butlast ?t) = map answer_line ls"
      unfolding t by (rule split_on_lines) (use False answer_line_chars in auto)
    moreover have "butlast ?t \<noteq> []"
      using False answer_line_not_Nil by (cases ls) (auto simp: butlast_append)
    ultimately show ?thesis using l by simp
  qed simp
  moreover have "those (map parse_answer_line (map answer_line ls)) = Some (map (map_option (min 1000)) ls)"
    by (induction ls) (simp_all add: parse_answer_line)
  ultimately show ?thesis unfolding parse_load_answer_def Let_def by simp
qed

lemma parse_answer_line_le: "parse_answer_line l = Some (Some v) \<Longrightarrow> v \<le> 1000"
  by (auto simp: parse_answer_line_def split: if_splits option.splits)

lemma those_map: "those (map f xs) = Some ys \<Longrightarrow> length ys = length xs \<and> (\<forall>i < length xs. f (xs ! i) = Some (ys ! i))"
proof (induction xs arbitrary: ys)
  case (Cons x xs)
  then show ?case by (auto simp: nth_Cons split: option.splits nat.splits)
qed simp

lemma parse_load_answer_sound:
  assumes "parse_load_answer answer n = Some ps"
  shows "length ps = n \<and> (\<forall>v. Some v \<in> set ps \<longrightarrow> v \<le> 1000)"
proof -
  obtain ls where ls: "length ls = n" "those (map parse_answer_line ls) = Some ps"
    using assms by (auto simp: parse_load_answer_def Let_def split: if_splits option.splits)
  show ?thesis
    using those_map [OF ls(2)] ls(1) parse_answer_line_le by (fastforce simp: in_set_conv_nth)
qed

lemma chunks_spec: "0 < n \<Longrightarrow> concat (chunks n xs) = xs \<and> (\<forall>c \<in> set (chunks n xs). c \<noteq> [] \<and> length c \<le> n)"
proof (induction n xs rule: chunks.induct)
  case (1 n xs)
  then show ?case by (cases "xs = []") (auto simp: chunks.simps [of n xs] chunks.simps [of n "[]"])
qed

subsection \<open>Source networks\<close>

lemma parse_source_network_unmapped:
  assumes "parse_source_network parse_net new_v4 entry label = Inr (NetV6 ip n)"
    and "\<And>v4 p m. new_v4 v4 p = Inr m \<Longrightarrow> m = NetV4 v4 p"
  shows "to_ipv4_mapped ip = None"
  using assms
  by (auto simp: parse_source_network_def split: sum.splits ip_network.splits option.splits if_splits)

lemma parse_required_all:
  "parse_required parse_net new_v4 entries label = Inr nets \<Longrightarrow>
   list_all2 (\<lambda>entry n. parse_source_network parse_net new_v4 entry label = Inr n) entries nets"
proof (induction entries arbitrary: nets)
  case (Cons entry entries)
  then show ?case by (auto split: sum.splits simp: map_sum_def)
qed simp

end
