(* ===== verification/Metrics.thy ===== *)
theory Metrics
  imports Protection Ingress
begin

text \<open>
  Counters (\<open>metrics.rs\<close>): the closed sets of reasons, the listener, route and proxy counters, and
  the byte-counting wrapper of a client stream. A per-variant counter array is a function of the
  variant; \<open>fetch_add\<close> and \<open>fetch_sub\<close> wrap.
\<close>

section \<open>Definitions\<close>

subsection \<open>Reasons\<close>

datatype block_kind =
    KMaxConnections | KCidrBlocked | KJa3Blocked | KJa4Blocked | KIncompleteHandshake | KNoSni
  | KRateLimited | KTooManyConnections | KPenaltyBoxed | KSourceNotAllowed | KUntrustedSource
  | KProxyHeaderInvalid | KProxyHeaderLocal | KProxyHeaderV1 | KProxyHeaderTimeout

definition block_kinds :: "block_kind list" where
  "block_kinds = [KMaxConnections, KCidrBlocked, KJa3Blocked, KJa4Blocked, KIncompleteHandshake, KNoSni,
     KRateLimited, KTooManyConnections, KPenaltyBoxed, KSourceNotAllowed, KUntrustedSource,
     KProxyHeaderInvalid, KProxyHeaderLocal, KProxyHeaderV1, KProxyHeaderTimeout]"

fun block_kind_as_str :: "block_kind \<Rightarrow> bytes" where
  "block_kind_as_str KMaxConnections = str ''max_connections''"
| "block_kind_as_str KCidrBlocked = str ''cidr_blocked''"
| "block_kind_as_str KJa3Blocked = str ''ja3_blocked''"
| "block_kind_as_str KJa4Blocked = str ''ja4_blocked''"
| "block_kind_as_str KIncompleteHandshake = str ''incomplete_handshake''"
| "block_kind_as_str KNoSni = str ''no_sni''"
| "block_kind_as_str KRateLimited = str ''rate_limited''"
| "block_kind_as_str KTooManyConnections = str ''too_many_connections''"
| "block_kind_as_str KPenaltyBoxed = str ''penalty_boxed''"
| "block_kind_as_str KSourceNotAllowed = str ''source_not_allowed''"
| "block_kind_as_str KUntrustedSource = str ''untrusted_source''"
| "block_kind_as_str KProxyHeaderInvalid = str ''proxy_header_invalid''"
| "block_kind_as_str KProxyHeaderLocal = str ''proxy_header_local''"
| "block_kind_as_str KProxyHeaderV1 = str ''proxy_header_v1''"
| "block_kind_as_str KProxyHeaderTimeout = str ''proxy_header_timeout''"

definition block_route_scoped :: "block_kind \<Rightarrow> bool" where
  "block_route_scoped k \<longleftrightarrow> k = KSourceNotAllowed"

fun kind_of_reason :: "block_reason \<Rightarrow> block_kind" where
  "kind_of_reason CidrBlocked = KCidrBlocked"
| "kind_of_reason Ja3Blocked = KJa3Blocked"
| "kind_of_reason Ja4Blocked = KJa4Blocked"
| "kind_of_reason IncompleteHandshake = KIncompleteHandshake"
| "kind_of_reason NoSni = KNoSni"
| "kind_of_reason RateLimited = KRateLimited"
| "kind_of_reason TooManyConnections = KTooManyConnections"
| "kind_of_reason PenaltyBoxed = KPenaltyBoxed"

fun kind_of_reject :: "header_reject \<Rightarrow> block_kind" where
  "kind_of_reject RejectInvalid = KProxyHeaderInvalid"
| "kind_of_reject RejectLocal = KProxyHeaderLocal"
| "kind_of_reject RejectV1 = KProxyHeaderV1"
| "kind_of_reject RejectTimeout = KProxyHeaderTimeout"

text \<open>\<open>ErrorKind\<close>.\<close>

datatype conn_error =
    NoRoute | RouteRateLimited | SuspendUnresolved | TlsHandshake | TlsMissingCert | UpstreamConnect
  | LocallyDown | IdleTimeout | HalfClosed | PeerTimeout | StreamError | HttpHeader

definition conn_errors :: "conn_error list" where
  "conn_errors = [NoRoute, RouteRateLimited, SuspendUnresolved, TlsHandshake, TlsMissingCert, UpstreamConnect,
     LocallyDown, IdleTimeout, HalfClosed, PeerTimeout, StreamError, HttpHeader]"

fun conn_error_as_str :: "conn_error \<Rightarrow> bytes" where
  "conn_error_as_str NoRoute = str ''no_route''"
| "conn_error_as_str RouteRateLimited = str ''route_rate_limited''"
| "conn_error_as_str SuspendUnresolved = str ''suspend_unresolved''"
| "conn_error_as_str TlsHandshake = str ''tls_handshake''"
| "conn_error_as_str TlsMissingCert = str ''tls_missing_cert''"
| "conn_error_as_str UpstreamConnect = str ''upstream_connect''"
| "conn_error_as_str LocallyDown = str ''locally_down''"
| "conn_error_as_str IdleTimeout = str ''idle_timeout''"
| "conn_error_as_str HalfClosed = str ''half_closed''"
| "conn_error_as_str PeerTimeout = str ''peer_timeout''"
| "conn_error_as_str StreamError = str ''stream''"
| "conn_error_as_str HttpHeader = str ''http_header''"

definition error_route_scoped :: "conn_error \<Rightarrow> bool" where
  "error_route_scoped k \<longleftrightarrow> k \<noteq> NoRoute \<and> k \<noteq> HttpHeader"

datatype peer_failure = Refused | PeerTimedOut | ZeroByteClose | PeerError

definition peer_failures :: "peer_failure list" where
  "peer_failures = [Refused, PeerTimedOut, ZeroByteClose, PeerError]"

fun peer_failure_as_str :: "peer_failure \<Rightarrow> bytes" where
  "peer_failure_as_str Refused = str ''refused''"
| "peer_failure_as_str PeerTimedOut = str ''timeout''"
| "peer_failure_as_str ZeroByteClose = str ''zero_byte_close''"
| "peer_failure_as_str PeerError = str ''error''"

subsection \<open>Counters\<close>

record listener_metrics =
  lm_active :: u64
  lm_half_closed :: u64
  lm_total_accepted :: u64
  lm_bytes_in :: u64
  lm_bytes_out :: u64
  lm_load_queries :: u64
  lm_blocked :: "block_kind \<Rightarrow> u64"
  lm_errors :: "conn_error \<Rightarrow> u64"

definition listener_metrics_default :: listener_metrics where
  "listener_metrics_default =
     \<lparr>lm_active = 0, lm_half_closed = 0, lm_total_accepted = 0, lm_bytes_in = 0, lm_bytes_out = 0,
      lm_load_queries = 0, lm_blocked = (\<lambda>_. 0), lm_errors = (\<lambda>_. 0)\<rparr>"

definition lm_inc_active :: "listener_metrics \<Rightarrow> listener_metrics" where
  "lm_inc_active m = m\<lparr>lm_active := lm_active m + 1, lm_total_accepted := lm_total_accepted m + 1\<rparr>"

definition lm_dec_active :: "listener_metrics \<Rightarrow> listener_metrics" where
  "lm_dec_active m = m\<lparr>lm_active := lm_active m - 1\<rparr>"

definition lm_inc_half_closed :: "listener_metrics \<Rightarrow> listener_metrics" where
  "lm_inc_half_closed m = m\<lparr>lm_half_closed := lm_half_closed m + 1\<rparr>"

definition lm_dec_half_closed :: "listener_metrics \<Rightarrow> listener_metrics" where
  "lm_dec_half_closed m = m\<lparr>lm_half_closed := lm_half_closed m - 1\<rparr>"

definition lm_inc_load_query :: "listener_metrics \<Rightarrow> listener_metrics" where
  "lm_inc_load_query m = m\<lparr>lm_load_queries := lm_load_queries m + 1\<rparr>"

definition lm_inc_blocked :: "block_kind \<Rightarrow> listener_metrics \<Rightarrow> listener_metrics" where
  "lm_inc_blocked k m = m\<lparr>lm_blocked := (lm_blocked m)(k := lm_blocked m k + 1)\<rparr>"

definition lm_add_bytes_in :: "u64 \<Rightarrow> listener_metrics \<Rightarrow> listener_metrics" where
  "lm_add_bytes_in n m = m\<lparr>lm_bytes_in := lm_bytes_in m + n\<rparr>"

definition lm_add_bytes_out :: "u64 \<Rightarrow> listener_metrics \<Rightarrow> listener_metrics" where
  "lm_add_bytes_out n m = m\<lparr>lm_bytes_out := lm_bytes_out m + n\<rparr>"

definition lm_inc_error :: "conn_error \<Rightarrow> listener_metrics \<Rightarrow> listener_metrics" where
  "lm_inc_error k m = m\<lparr>lm_errors := (lm_errors m)(k := lm_errors m k + 1)\<rparr>"

definition lm_blocked_by_reason :: "listener_metrics \<Rightarrow> (bytes \<times> u64) list" where
  "lm_blocked_by_reason m = map (\<lambda>k. (block_kind_as_str k, lm_blocked m k)) block_kinds"

definition lm_errors_by_reason :: "listener_metrics \<Rightarrow> (bytes \<times> u64) list" where
  "lm_errors_by_reason m = map (\<lambda>k. (conn_error_as_str k, lm_errors m k)) conn_errors"

record route_metrics =
  rm_active :: u64
  rm_total :: u64
  rm_bytes_in :: u64
  rm_bytes_out :: u64
  rm_blocked :: "block_kind \<Rightarrow> u64"
  rm_errors :: "conn_error \<Rightarrow> u64"

definition route_metrics_default :: route_metrics where
  "route_metrics_default =
     \<lparr>rm_active = 0, rm_total = 0, rm_bytes_in = 0, rm_bytes_out = 0, rm_blocked = (\<lambda>_. 0), rm_errors = (\<lambda>_. 0)\<rparr>"

definition rm_inc_active :: "route_metrics \<Rightarrow> route_metrics" where
  "rm_inc_active m = m\<lparr>rm_active := rm_active m + 1, rm_total := rm_total m + 1\<rparr>"

definition rm_dec_active :: "route_metrics \<Rightarrow> route_metrics" where
  "rm_dec_active m = (if rm_active m = 0 then m else m\<lparr>rm_active := rm_active m - 1\<rparr>)"

definition rm_add_bytes_in :: "u64 \<Rightarrow> route_metrics \<Rightarrow> route_metrics" where
  "rm_add_bytes_in n m = m\<lparr>rm_bytes_in := rm_bytes_in m + n\<rparr>"

definition rm_add_bytes_out :: "u64 \<Rightarrow> route_metrics \<Rightarrow> route_metrics" where
  "rm_add_bytes_out n m = m\<lparr>rm_bytes_out := rm_bytes_out m + n\<rparr>"

definition rm_inc_error :: "conn_error \<Rightarrow> route_metrics \<Rightarrow> route_metrics" where
  "rm_inc_error k m =
     (if error_route_scoped k then m\<lparr>rm_errors := (rm_errors m)(k := rm_errors m k + 1)\<rparr> else m)"

definition rm_inc_blocked :: "block_kind \<Rightarrow> route_metrics \<Rightarrow> route_metrics" where
  "rm_inc_blocked k m =
     (if block_route_scoped k then m\<lparr>rm_blocked := (rm_blocked m)(k := rm_blocked m k + 1)\<rparr> else m)"

definition rm_blocked_by_reason :: "route_metrics \<Rightarrow> (bytes \<times> u64) list" where
  "rm_blocked_by_reason m =
     filter (\<lambda>(_, n). 0 < n) (map (\<lambda>k. (block_kind_as_str k, rm_blocked m k)) (filter block_route_scoped block_kinds))"

definition rm_errors_by_reason :: "route_metrics \<Rightarrow> (bytes \<times> u64) list" where
  "rm_errors_by_reason m =
     filter (\<lambda>(_, n). 0 < n) (map (\<lambda>k. (conn_error_as_str k, rm_errors m k)) (filter error_route_scoped conn_errors))"

definition inc_route_blocked ::
    "block_kind \<Rightarrow> listener_metrics \<times> route_metrics \<Rightarrow> listener_metrics \<times> route_metrics" where
  "inc_route_blocked k m = (lm_inc_blocked k (fst m), rm_inc_blocked k (snd m))"

definition inc_route_error ::
    "conn_error \<Rightarrow> listener_metrics \<times> route_metrics \<Rightarrow> listener_metrics \<times> route_metrics" where
  "inc_route_error k m = (lm_inc_error k (fst m), rm_inc_error k (snd m))"

definition total_of :: "(bytes \<times> u64) list \<Rightarrow> u64" where
  "total_of counts = sum_list (map snd counts)"

record global_metrics =
  gm_active :: u64
  gm_pending_suspended :: u64
  gm_suspended_resolved :: u64
  gm_suspended_unresolved :: u64

definition gm_inc_active :: "global_metrics \<Rightarrow> global_metrics" where
  "gm_inc_active m = m\<lparr>gm_active := gm_active m + 1\<rparr>"

definition gm_dec_active :: "global_metrics \<Rightarrow> global_metrics" where
  "gm_dec_active m = m\<lparr>gm_active := gm_active m - 1\<rparr>"

definition gm_inc_suspended :: "global_metrics \<Rightarrow> global_metrics" where
  "gm_inc_suspended m = m\<lparr>gm_pending_suspended := gm_pending_suspended m + 1\<rparr>"

definition gm_dec_suspended :: "bool \<Rightarrow> global_metrics \<Rightarrow> global_metrics" where
  "gm_dec_suspended resolved m =
     (let m1 = m\<lparr>gm_pending_suspended := gm_pending_suspended m - 1\<rparr>
      in if resolved then m1\<lparr>gm_suspended_resolved := gm_suspended_resolved m1 + 1\<rparr>
         else m1\<lparr>gm_suspended_unresolved := gm_suspended_unresolved m1 + 1\<rparr>)"

subsection \<open>The counting stream\<close>

definition COUNTER_FLUSH_BYTES :: u64 where "COUNTER_FLUSH_BYTES = 256 * 1024"

text \<open>The counters a stream publishes to, and what it holds back.\<close>

record counting_stream =
  cs_listener :: listener_metrics
  cs_route :: "route_metrics option"
  pending_in :: u64
  pending_out :: u64

definition counting_stream_new :: "listener_metrics \<Rightarrow> route_metrics option \<Rightarrow> counting_stream" where
  "counting_stream_new l r = \<lparr>cs_listener = l, cs_route = r, pending_in = 0, pending_out = 0\<rparr>"

definition publish_in :: "u64 \<Rightarrow> counting_stream \<Rightarrow> counting_stream" where
  "publish_in n s = s\<lparr>cs_listener := lm_add_bytes_in n (cs_listener s),
     cs_route := map_option (rm_add_bytes_in n) (cs_route s)\<rparr>"

definition publish_out :: "u64 \<Rightarrow> counting_stream \<Rightarrow> counting_stream" where
  "publish_out n s = s\<lparr>cs_listener := lm_add_bytes_out n (cs_listener s),
     cs_route := map_option (rm_add_bytes_out n) (cs_route s)\<rparr>"

definition record_in :: "u64 \<Rightarrow> counting_stream \<Rightarrow> counting_stream" where
  "record_in n s =
     (let s1 = s\<lparr>pending_in := pending_in s + n\<rparr>
      in if COUNTER_FLUSH_BYTES \<le> pending_in s1 then (publish_in (pending_in s1) s1)\<lparr>pending_in := 0\<rparr> else s1)"

definition record_out :: "u64 \<Rightarrow> counting_stream \<Rightarrow> counting_stream" where
  "record_out n s =
     (let s1 = s\<lparr>pending_out := pending_out s + n\<rparr>
      in if COUNTER_FLUSH_BYTES \<le> pending_out s1 then (publish_out (pending_out s1) s1)\<lparr>pending_out := 0\<rparr> else s1)"

definition counting_drop :: "counting_stream \<Rightarrow> counting_stream" where
  "counting_drop s =
     (let s1 = (if 0 < pending_in s then publish_in (pending_in s) s else s)
      in if 0 < pending_out s1 then publish_out (pending_out s1) s1 else s1)"

text \<open>\<open>poll_read\<close> and the two \<open>poll_write\<close>s: what the inner stream's poll moved, \<open>None\<close> when it is
  pending or failed.\<close>

definition counting_poll_read :: "nat option \<Rightarrow> counting_stream \<Rightarrow> counting_stream" where
  "counting_poll_read moved s =
     (case moved of Some n \<Rightarrow> if 0 < n then record_in (of_nat n) s else s | None \<Rightarrow> s)"

definition counting_poll_write :: "nat option \<Rightarrow> counting_stream \<Rightarrow> counting_stream" where
  "counting_poll_write moved s = (case moved of Some n \<Rightarrow> record_out (of_nat n) s | None \<Rightarrow> s)"

section \<open>Lemmas\<close>

datatype io_event = ReadEvent "nat option" | WriteEvent "nat option"

fun io_step :: "io_event \<Rightarrow> counting_stream \<Rightarrow> counting_stream" where
  "io_step (ReadEvent m) s = counting_poll_read m s"
| "io_step (WriteEvent m) s = counting_poll_write m s"

definition bytes_read :: "io_event list \<Rightarrow> nat" where
  "bytes_read es = sum_list (map (\<lambda>e. case e of ReadEvent (Some n) \<Rightarrow> n | _ \<Rightarrow> 0) es)"

definition bytes_written :: "io_event list \<Rightarrow> nat" where
  "bytes_written es = sum_list (map (\<lambda>e. case e of WriteEvent (Some n) \<Rightarrow> n | _ \<Rightarrow> 0) es)"

text \<open>What a stream accounts for: published or still held back.\<close>

definition accounted :: "counting_stream \<Rightarrow> u64 \<times> u64 \<times> (u64 \<times> u64) option" where
  "accounted s =
     (lm_bytes_in (cs_listener s) + pending_in s, lm_bytes_out (cs_listener s) + pending_out s,
      map_option (\<lambda>r. (rm_bytes_in r + pending_in s, rm_bytes_out r + pending_out s)) (cs_route s))"

definition advance :: "u64 \<Rightarrow> u64 \<Rightarrow> u64 \<times> u64 \<times> (u64 \<times> u64) option \<Rightarrow> u64 \<times> u64 \<times> (u64 \<times> u64) option" where
  "advance i o' a = (case a of (x, y, r) \<Rightarrow> (x + i, y + o', map_option (\<lambda>(p, q). (p + i, q + o')) r))"

lemmas counter_defs = lm_add_bytes_in_def lm_add_bytes_out_def rm_add_bytes_in_def rm_add_bytes_out_def
  publish_in_def publish_out_def

lemma accounted_record_in: "accounted (record_in n s) = advance n 0 (accounted s)"
  by (cases "cs_route s")
    (simp_all add: accounted_def advance_def record_in_def Let_def counter_defs add.assoc add.commute add.left_commute)

lemma accounted_record_out: "accounted (record_out n s) = advance 0 n (accounted s)"
  by (cases "cs_route s")
    (simp_all add: accounted_def advance_def record_out_def Let_def counter_defs add.assoc add.commute add.left_commute)

lemma advance_0 [simp]: "advance 0 0 a = a"
  by (cases a) (auto simp: advance_def option.map_ident case_prod_unfold)

lemma advance_add: "advance i o' (advance j p a) = advance (i + j) (o' + p) a"
  by (cases a; cases "snd (snd a)") (auto simp: advance_def add.assoc add.commute add.left_commute)

lemma accounted_step:
  "accounted (io_step e s) = advance (of_nat (bytes_read [e])) (of_nat (bytes_written [e])) (accounted s)"
  by (cases e) (auto simp: counting_poll_read_def counting_poll_write_def bytes_read_def bytes_written_def
      accounted_record_in accounted_record_out split: option.split)

lemma accounted_run:
  "accounted (fold io_step es s) = advance (of_nat (bytes_read es)) (of_nat (bytes_written es)) (accounted s)"
proof (induction es arbitrary: s)
  case Nil
  then show ?case by (simp add: bytes_read_def bytes_written_def)
next
  case (Cons e es)
  have "bytes_read (e # es) = bytes_read es + bytes_read [e]" "bytes_written (e # es) = bytes_written es + bytes_written [e]"
    by (simp_all add: bytes_read_def bytes_written_def)
  then show ?case by (simp add: Cons accounted_step advance_add)
qed

lemma counting_drop_accounted:
  "lm_bytes_in (cs_listener (counting_drop s)) = fst (accounted s)"
  "lm_bytes_out (cs_listener (counting_drop s)) = fst (snd (accounted s))"
  "map_option (\<lambda>r. (rm_bytes_in r, rm_bytes_out r)) (cs_route (counting_drop s)) = snd (snd (accounted s))"
  by (cases "cs_route s"; auto simp: counting_drop_def accounted_def counter_defs Let_def word_neq_0_conv [symmetric]
      simp del: word_neq_0_conv)+

end
