(* ===== verification/RouteLimit.thy ===== *)
theory RouteLimit
  imports Protection
begin

text \<open>
  The route-global limiter \<open>RouteTokenBucket\<close> of \<open>router.rs\<close>: its own copy of the token bucket of
  \<open>protection.rs\<close>, with a burst that is never below one token. It interprets the same contract.
\<close>

record route_token_bucket =
  rb_tokens :: u32
  rb_last_refill_ns :: u64
  rb_rate_per_ns :: f64
  rb_burst_fp :: u32

definition route_token_bucket_new :: "u64 \<Rightarrow> f64 \<Rightarrow> f64 option \<Rightarrow> route_token_bucket" where
  "route_token_bucket_new now cps burst =
     (let burst_fp = f64_to_u32 (f64_mul (f64_max_of (unwrap_or burst cps) (Fin 1)) (Fin 1000))
      in \<lparr>rb_tokens = burst_fp, rb_last_refill_ns = now, rb_rate_per_ns = f64_div cps (Fin 1000000000),
          rb_burst_fp = burst_fp\<rparr>)"

definition try_acquire :: "u64 \<Rightarrow> route_token_bucket \<Rightarrow> bool \<times> route_token_bucket" where
  "try_acquire now b =
     (let elapsed = sat_sub now (rb_last_refill_ns b);
          refill = f64_to_u32 (f64_mul (f64_mul (f64_of_nat (unat elapsed)) (rb_rate_per_ns b)) (Fin 1000));
          b1 = (if refill = 0 then b
                else b\<lparr>rb_tokens := min (sat_add (rb_tokens b) refill) (rb_burst_fp b), rb_last_refill_ns := now\<rparr>)
      in if rb_tokens b1 < ONE_TOKEN then (False, b1)
         else (True, b1\<lparr>rb_tokens := rb_tokens b1 - ONE_TOKEN\<rparr>))"

abbreviation route_acquire :: "rat \<Rightarrow> u32 \<Rightarrow> u64 \<Rightarrow> u32 \<times> u64 \<Rightarrow> bool \<times> u32 \<times> u64" where
  "route_acquire \<equiv> (\<lambda>r burst now (t, l).
     let (ok, b) = try_acquire now \<lparr>rb_tokens = t, rb_last_refill_ns = l, rb_rate_per_ns = Fin r, rb_burst_fp = burst\<rparr>
     in (ok, rb_tokens b, rb_last_refill_ns b))"

lemma try_acquire_refill_and_consume:
  "try_acquire now b =
     (case refill_and_consume (rb_tokens b) (rb_last_refill_ns b) now (rb_rate_per_ns b) (rb_burst_fp b) of
        (ok, t, l) \<Rightarrow> (ok, b\<lparr>rb_tokens := t, rb_last_refill_ns := l\<rparr>))"
  by (simp add: try_acquire_def refill_and_consume_def refill_amount_def Let_def)

lemma route_acquire_eq: "route_acquire = ip_acquire"
  by (auto simp: fun_eq_iff try_acquire_refill_and_consume split: prod.splits)

interpretation route_bucket: token_bucket route_acquire
  unfolding route_acquire_eq by (rule ip_bucket.token_bucket_axioms)

text \<open>Runs of the limiter are runs of the contract's bucket.\<close>

lemma bucket_run_try_acquire:
  assumes "rb_rate_per_ns b = Fin r"
  shows "bucket_run try_acquire ts b = (oks, b') \<Longrightarrow>
    bucket_run (route_acquire r (rb_burst_fp b)) ts (rb_tokens b, rb_last_refill_ns b) =
      (oks, rb_tokens b', rb_last_refill_ns b')"
  using assms
proof (induction ts arbitrary: b oks)
  case (Cons now ts)
  obtain ok b1 where a: "try_acquire now b = (ok, b1)" by fastforce
  obtain oks1 where r: "bucket_run try_acquire ts b1 = (oks1, b')" "oks = ok # oks1"
    using Cons.prems(1) a by (auto split: prod.splits)
  have b1: "rb_rate_per_ns b1 = Fin r" "rb_burst_fp b1 = rb_burst_fp b"
    using a Cons.prems(2) by (auto simp: try_acquire_def Let_def split: if_splits)
  have "route_acquire r (rb_burst_fp b) now (rb_tokens b, rb_last_refill_ns b) =
      (ok, rb_tokens b1, rb_last_refill_ns b1)"
    using a Cons.prems(2) by (cases b) simp
  then show ?case using Cons.IH [OF r(1) b1(1)] r(2) b1(2) by simp
qed simp

lemma f64_ge_one_1000:
  assumes "f64_le (Fin 1) x" shows "1000 \<le> unat (f64_to_u32 (f64_mul x (Fin 1000)))"
proof -
  have "f64_le (f64_mul (Fin 1) (Fin 1000)) (f64_mul x (Fin 1000))"
    by (rule f64_mul_mono) (use assms in simp_all)
  moreover have "f64_mul (Fin 1) (Fin 1000) = Fin 1000"
    using rnd_exact [of 1000 0 1000] by simp
  ultimately have "unat (f64_to_u32 (Fin 1000)) \<le> unat (f64_to_u32 (f64_mul x (Fin 1000)))"
    by (intro f64_to_word_mono) simp_all
  then show ?thesis by (simp add: f64_to_word.simps)
qed

lemma f64_max_of_one: "f64_le (Fin 1) (f64_max_of x (Fin 1))"
  by (cases x) (auto simp: f64_max_of_def f64_le_def f64_eq_def)

lemma route_burst_one: "1000 \<le> unat (rb_burst_fp (route_token_bucket_new now cps burst))"
  unfolding route_token_bucket_new_def Let_def by (simp add: f64_ge_one_1000 [OF f64_max_of_one])

lemma route_new_tokens: "rb_tokens (route_token_bucket_new now cps burst) = rb_burst_fp (route_token_bucket_new now cps burst)"
  by (simp add: route_token_bucket_new_def Let_def)

end
