(* ===== verification/IpParse.thy ===== *)
theory IpParse
  imports Upstream
begin

text \<open>
  Parsing of address literals as the Rust standard library does it (\<open>core::net::parser\<close>): the
  grammar of \<open>IpAddr\<close> and \<open>SocketAddr\<close>, on the bytes of the string. A parser returns the value and
  the rest of the input.
\<close>

section \<open>Definitions\<close>

definition digit_val :: "nat \<Rightarrow> u8 \<Rightarrow> nat option" where
  "digit_val radix b =
     (let v = (if is_ascii_digit b then unat b - 48
               else if is_ascii_lower b then unat b - 87
               else if is_ascii_upper b then unat b - 55 else radix)
      in if v < radix then Some v else None)"

definition is_digit_of :: "nat \<Rightarrow> u8 \<Rightarrow> bool" where
  "is_digit_of radix b \<longleftrightarrow> digit_val radix b \<noteq> None"

definition number_val :: "nat \<Rightarrow> bytes \<Rightarrow> nat" where
  "number_val radix ds = foldl (\<lambda>acc d. acc * radix + the (digit_val radix d)) 0 ds"

text \<open>\<open>read_number\<close>: the longest run of digits; more digits than allowed, a value out of range or a
  forbidden leading zero fails.\<close>

definition read_number :: "nat \<Rightarrow> nat option \<Rightarrow> bool \<Rightarrow> nat \<Rightarrow> bytes \<Rightarrow> (nat \<times> bytes) option" where
  "read_number radix max_digits allow_zero_prefix bound bs =
     (let ds = takeWhile (is_digit_of radix) bs
      in if ds = [] \<or> (case max_digits of Some n \<Rightarrow> n < length ds | None \<Rightarrow> False) \<or>
            bound \<le> number_val radix ds \<or> \<not> allow_zero_prefix \<and> hd ds = 0x30 \<and> 1 < length ds
         then None else Some (number_val radix ds, drop (length ds) bs))"

definition read_char :: "u8 \<Rightarrow> bytes \<Rightarrow> bytes option" where
  "read_char c bs = (case bs of b # rest \<Rightarrow> if b = c then Some rest else None | [] \<Rightarrow> None)"

definition read_separator :: "u8 \<Rightarrow> nat \<Rightarrow> (bytes \<Rightarrow> ('v \<times> bytes) option) \<Rightarrow> bytes \<Rightarrow> ('v \<times> bytes) option" where
  "read_separator sep i inner bs = (if 0 < i then Option.bind (read_char sep bs) inner else inner bs)"

definition read_octet :: "bytes \<Rightarrow> (nat \<times> bytes) option" where
  "read_octet = read_number 10 (Some 3) False 256"

definition read_ipv4_addr :: "bytes \<Rightarrow> (bytes \<times> bytes) option" where
  "read_ipv4_addr bs = do {
     (a, r1) \<leftarrow> read_separator 0x2E 0 read_octet bs;
     (b, r2) \<leftarrow> read_separator 0x2E 1 read_octet r1;
     (c, r3) \<leftarrow> read_separator 0x2E 2 read_octet r2;
     (d, r4) \<leftarrow> read_separator 0x2E 3 read_octet r3;
     Some ([of_nat a, of_nat b, of_nat c, of_nat d], r4)
   }"

text \<open>\<open>read_groups\<close>: up to \<open>limit\<close> 16-bit groups as octets, whether an embedded IPv4 address ended
  them, and the rest.\<close>

function read_groups :: "nat \<Rightarrow> nat \<Rightarrow> bytes \<Rightarrow> bytes \<times> bool \<times> bytes" where
  "read_groups limit i bs =
     (if limit \<le> i then ([], False, bs)
      else case (if i + 1 < limit then read_separator 0x3A i read_ipv4_addr bs else None) of
        Some (v4, rest) \<Rightarrow> (v4, True, rest)
      | None \<Rightarrow>
          (case read_separator 0x3A i (read_number 16 (Some 4) True 65536) bs of
             Some (g, rest) \<Rightarrow>
               (let (gs, ended, rest') = read_groups limit (i + 1) rest
                in (u16_to_be (of_nat g) @ gs, ended, rest'))
           | None \<Rightarrow> ([], False, bs)))"
  by pat_completeness auto
termination by (relation "measure (\<lambda>(limit, i, _). limit - i)") auto

declare read_groups.simps [simp del]

definition read_ipv6_addr :: "bytes \<Rightarrow> (bytes \<times> bytes) option" where
  "read_ipv6_addr bs =
     (let (hd_groups, head_ipv4, rest) = read_groups 8 0 bs
      in if length hd_groups = 16 then Some (hd_groups, rest)
         else if head_ipv4 then None
         else do {
           r1 \<leftarrow> read_char 0x3A rest;
           r2 \<leftarrow> read_char 0x3A r1;
           let (tl_groups, _, r3) = read_groups (7 - length hd_groups div 2) 0 r2;
           Some (hd_groups @ replicate (16 - length hd_groups - length tl_groups) 0 @ tl_groups, r3)
         })"

text \<open>\<open>IpAddr::from_str\<close> tries IPv4 first and wants all of the input.\<close>

definition parse_ip :: "bytes \<Rightarrow> ipaddr option" where
  "parse_ip bs =
     (case read_ipv4_addr bs of
        Some (v4, []) \<Rightarrow> Some (V4 v4)
      | Some (_, _ # _) \<Rightarrow> None
      | None \<Rightarrow> (case read_ipv6_addr bs of Some (v6, []) \<Rightarrow> Some (V6 v6) | _ \<Rightarrow> None))"

definition read_port :: "bytes \<Rightarrow> (u16 \<times> bytes) option" where
  "read_port bs = do {
     r1 \<leftarrow> read_char 0x3A bs;
     (p, r2) \<leftarrow> read_number 10 None True 65536 r1;
     Some (of_nat p, r2)
   }"

definition read_socket_addr_v4 :: "bytes \<Rightarrow> (socket_addr \<times> bytes) option" where
  "read_socket_addr_v4 bs = do {
     (ip, r1) \<leftarrow> read_ipv4_addr bs;
     (port, r2) \<leftarrow> read_port r1;
     Some (\<lparr>sa_ip = V4 ip, sa_port = port\<rparr>, r2)
   }"

definition read_scope_id :: "bytes \<Rightarrow> bytes" where
  "read_scope_id bs =
     (case Option.bind (read_char 0x25 bs) (read_number 10 None True (2 ^ 32)) of
        Some (_, rest) \<Rightarrow> rest | None \<Rightarrow> bs)"

definition read_socket_addr_v6 :: "bytes \<Rightarrow> (socket_addr \<times> bytes) option" where
  "read_socket_addr_v6 bs = do {
     r1 \<leftarrow> read_char 0x5B bs;
     (ip, r2) \<leftarrow> read_ipv6_addr r1;
     r4 \<leftarrow> read_char 0x5D (read_scope_id r2);
     (port, r5) \<leftarrow> read_port r4;
     Some (\<lparr>sa_ip = V6 ip, sa_port = port\<rparr>, r5)
   }"

definition parse_socket_addr :: "bytes \<Rightarrow> socket_addr option" where
  "parse_socket_addr bs =
     (case read_socket_addr_v4 bs of
        Some (a, []) \<Rightarrow> Some a
      | Some (_, _ # _) \<Rightarrow> None
      | None \<Rightarrow> (case read_socket_addr_v6 bs of Some (a, []) \<Rightarrow> Some a | _ \<Rightarrow> None))"

section \<open>Lemmas\<close>

lemma read_ipv4_length: "read_ipv4_addr bs = Some (v4, rest) \<Longrightarrow> length v4 = 4"
  by (auto simp: read_ipv4_addr_def split: Option.bind_splits prod.splits)

lemma read_groups_length: "read_groups limit i bs = (gs, e, rest) \<Longrightarrow> length gs \<le> 2 * (limit - i)"
proof (induction limit i bs arbitrary: gs e rest rule: read_groups.induct)
  case (1 limit i bs)
  show ?case
  proof (cases "limit \<le> i")
    case False
    then show ?thesis
      using "1.prems" "1.IH" [OF False]
      by (subst (asm) read_groups.simps)
        (fastforce split: option.splits prod.splits if_splits dest!: read_ipv4_length simp: read_separator_def Let_def
          split: Option.bind_splits)
  qed (use "1.prems" in \<open>simp add: read_groups.simps\<close>)
qed

lemma read_ipv6_length: "read_ipv6_addr bs = Some (v6, rest) \<Longrightarrow> length v6 = 16"
proof -
  assume r: "read_ipv6_addr bs = Some (v6, rest)"
  obtain gs e r0 where g: "read_groups 8 0 bs = (gs, e, r0)" by (metis prod_cases3)
  have "length gs \<le> 16" using read_groups_length [OF g] by simp
  then show ?thesis
    using r g
    by (auto simp: read_ipv6_addr_def Let_def split: if_splits Option.bind_splits prod.splits
        dest!: read_groups_length)
qed

lemma parse_ip_wf: "parse_ip bs = Some ip \<Longrightarrow> wf_ip ip"
  using read_ipv4_length [of bs] read_ipv6_length [of bs]
  by (auto simp: parse_ip_def split: option.splits list.splits)

lemma parse_socket_addr_wf: "parse_socket_addr bs = Some a \<Longrightarrow> wf_addr a"
  by (auto simp: parse_socket_addr_def read_socket_addr_v4_def read_socket_addr_v6_def wf_addr_def
      split: option.splits list.splits Option.bind_splits prod.splits
      intro: read_ipv4_length read_ipv6_length)

subsection \<open>Printed IPv4 addresses parse back\<close>

lemma digit_val_10: "digit_val 10 b = (if is_ascii_digit b then Some (unat b - 48) else None)"
  by (auto simp: digit_val_def is_ascii_digit_def is_ascii_lower_def is_ascii_upper_def word_le_nat_alt Let_def)

lemma is_digit_of_10: "is_digit_of 10 = is_ascii_digit"
  by (auto simp: fun_eq_iff is_digit_of_def digit_val_10)

lemma number_val_digits: "list_all is_ascii_digit ds \<Longrightarrow> number_val 10 ds = digits_val ds"
proof -
  have "list_all is_ascii_digit ds \<Longrightarrow>
    foldl (\<lambda>acc d. acc * 10 + the (digit_val 10 d)) a ds = foldl (\<lambda>acc d. 10 * acc + (unat d - 48)) a ds" for a
    by (induction ds arbitrary: a) (auto simp: digit_val_10 mult.commute)
  then show "list_all is_ascii_digit ds \<Longrightarrow> number_val 10 ds = digits_val ds"
    by (simp add: number_val_def digits_val_def)
qed

lemma takeWhile_dec:
  "\<not> (rest \<noteq> [] \<and> is_ascii_digit (hd rest)) \<Longrightarrow> takeWhile is_ascii_digit (dec n @ rest) = dec n"
  using dec_digits [of n] by (cases rest) (auto simp: list_all_iff takeWhile_append2)

lemma hd_dec: "10 \<le> n \<Longrightarrow> hd (dec n) \<noteq> 0x30"
proof (induction n rule: dec.induct)
  case (1 n)
  have d: "dec n = dec (n div 10) @ [of_nat (48 + n mod 10)]" using 1(2) by (subst dec.simps) simp
  show ?case
  proof (cases "n div 10 < 10")
    case True
    have "n div 10 \<noteq> 0" using 1(2) by simp
    then have "unat (of_nat (48 + n div 10) :: u8) \<noteq> 48" using True by (simp del: of_nat_add)
    then show ?thesis using True unfolding d by (subst dec.simps) auto
  next
    case False
    then show ?thesis using 1 unfolding d by (simp add: not_less)
  qed
qed

lemma read_octet_dec:
  assumes "n < 256" "\<not> (rest \<noteq> [] \<and> is_ascii_digit (hd rest))"
  shows "read_octet (dec n @ rest) = Some (n, rest)"
proof -
  have "length (dec n) \<le> 3" using assms(1) by (intro length_dec_le) simp_all
  moreover have "hd (dec n) = 0x30 \<Longrightarrow> length (dec n) \<le> 1"
    using hd_dec [of n] by (cases "n < 10") (auto simp: dec.simps [of n])
  ultimately show ?thesis
    using assms
    by (auto simp: read_octet_def read_number_def is_digit_of_10 takeWhile_dec number_val_digits dec_digits Let_def)
qed

lemma read_separator_dot:
  "0 < i \<Longrightarrow> n < 256 \<Longrightarrow> \<not> (rest \<noteq> [] \<and> is_ascii_digit (hd rest)) \<Longrightarrow>
   read_separator 0x2E i read_octet (0x2E # dec n @ rest) = Some (n, rest)"
  by (simp add: read_separator_def read_char_def read_octet_dec)

lemma read_fmt_ipv4:
  assumes "length os = 4" "\<not> (rest \<noteq> [] \<and> is_ascii_digit (hd rest))"
  shows "read_ipv4_addr (fmt_ipv4 os @ rest) = Some (os, rest)"
proof -
  obtain a b c d where os: "os = [a, b, c, d]"
    using assms(1) by (auto simp: numeral_eq_Suc length_Suc_conv)
  have dot: "str ''.'' = [0x2E]" by (simp add: str_def)
  have nd: "\<not> is_ascii_digit 0x2E" by (simp add: is_ascii_digit_def)
  show ?thesis
    using assms(2) unat_u8_lt
    by (simp add: os fmt_ipv4_def dot read_ipv4_addr_def read_separator_def [of _ 0] read_octet_dec
        read_separator_dot nd)
qed

lemma parse_fmt_ipv4: "length os = 4 \<Longrightarrow> parse_ip (fmt_ipv4 os) = Some (V4 os)"
  using read_fmt_ipv4 [of os "[]"] by (simp add: parse_ip_def)

lemma parse_fmt_socket_v4:
  assumes "length os = 4"
  shows "parse_socket_addr (fmt_ipv4 os @ str '':'' @ dec (unat port)) = Some \<lparr>sa_ip = V4 os, sa_port = port\<rparr>"
proof -
  have colon: "str '':'' = [0x3A]" by (simp add: str_def)
  have nd: "\<not> is_ascii_digit 0x3A" by (simp add: is_ascii_digit_def)
  have t: "takeWhile is_ascii_digit (dec (unat port)) = dec (unat port)"
    using dec_digits [of "unat port"] by (simp add: list_all_iff)
  have "read_port (0x3A # dec (unat port)) = Some (port, [])"
    using unat_u16_lt [of port]
    by (simp add: read_port_def read_char_def read_number_def is_digit_of_10 t number_val_digits dec_digits Let_def)
  then show ?thesis
    using read_fmt_ipv4 [OF assms, of "0x3A # dec (unat port)"] nd
    by (simp add: parse_socket_addr_def read_socket_addr_v4_def colon)
qed

end
