(* ===== verification/Failover.thy ===== *)
theory Failover
  imports Metrics RouteLimit IpParse
begin

text \<open>
  Peer failover (\<open>failover.rs\<close>): policies and their validation, the cooldown and load report of a
  peer, the choice between serving and forwarding, forwarding with fallback, the recovery probe and
  the spill-over controller. A \<open>Duration\<close> is a number of nanoseconds. The cells that outlive a
  reload through an \<open>Arc\<close> are lists of the \<open>world\<close>, and a reference is an index; it also holds the
  cells of the router (\<open>router.rs\<close>) that a route refers to.
\<close>

section \<open>Definitions\<close>

subsection \<open>Policies\<close>

record spill_spec =
  ss_high_water :: "f64 option"
  ss_margin :: "f64 option"
  ss_step :: "f64 option"
  ss_max_fraction :: "f64 option"
  ss_max_peer_rtt_ms :: "f64 option"

record spill_policy =
  high_water :: u32
  margin :: u32
  step :: f64
  max_fraction :: u32
  max_peer_rtt :: "nat option"

record failover_spec =
  fs_peers :: "(bytes \<times> u16) list"
  fs_drain :: bool
  fs_probe_interval_ms :: "f64 option"
  fs_cooldown_min_ms :: "f64 option"
  fs_cooldown_max_ms :: "f64 option"
  fs_spill :: "spill_spec option"

record failover_policy =
  fp_peers :: "socket_addr list"
  fp_drain :: bool
  fp_probe_interval :: nat
  fp_cooldown_min :: nat
  fp_cooldown_max :: nat
  fp_spill :: "spill_policy option"

datatype policy_error =
    BadFraction bytes | BadPeerRtt | BadInterval bytes | NoPeers | BadPeerHost bytes
  | PeerPortZero bytes | PeerListedTwice socket_addr | CooldownOrder

definition MAX_PEER_RTT_MS :: f64 where "MAX_PEER_RTT_MS = Fin 60000"
definition DEFAULT_PROBE_INTERVAL_MS :: f64 where "DEFAULT_PROBE_INTERVAL_MS = Fin 1000"
definition DEFAULT_COOLDOWN_MIN_MS :: f64 where "DEFAULT_COOLDOWN_MIN_MS = Fin 5000"
definition DEFAULT_COOLDOWN_MAX_MS :: f64 where "DEFAULT_COOLDOWN_MAX_MS = Fin 60000"
definition MIN_PROBE_INTERVAL_MS :: f64 where "MIN_PROBE_INTERVAL_MS = Fin 10"
definition MAX_INTERVAL_MS :: f64 where "MAX_INTERVAL_MS = Fin 86400000"

text \<open>\<open>Duration::from_secs_f64\<close> of a finite, non-negative value: the nearest nanosecond.\<close>

fun duration_of_secs :: "f64 \<Rightarrow> nat" where
  "duration_of_secs (Fin x) = nat (rne (x * 1000000000))"
| "duration_of_secs _ = 0"

definition fraction :: "f64 option \<Rightarrow> f64 \<Rightarrow> f64 \<Rightarrow> bytes \<Rightarrow> policy_error + f64" where
  "fraction v dflt least label =
     (let x = unwrap_or v dflt
      in if \<not> f64_is_finite x \<or> f64_lt x least \<or> f64_lt (Fin 1) x then Inl (BadFraction label)
         else Inr (f64_mul x (Fin 1000)))"

definition parse_peer_rtt :: "f64 option \<Rightarrow> policy_error + nat option" where
  "parse_peer_rtt rtt =
     (case rtt of
        None \<Rightarrow> Inr None
      | Some ms \<Rightarrow>
          if f64_is_finite ms \<and> f64_lt (Fin 0) ms \<and> f64_le ms MAX_PEER_RTT_MS
          then Inr (Some (duration_of_secs (f64_div ms (Fin 1000)))) else Inl BadPeerRtt)"

definition spill_parse :: "spill_spec \<Rightarrow> policy_error + spill_policy" where
  "spill_parse s =
     (case parse_peer_rtt (ss_max_peer_rtt_ms s) of
        Inl e \<Rightarrow> Inl e
      | Inr rtt \<Rightarrow>
     (case fraction (ss_high_water s) (rnd (3 / 4)) (rnd (1 / 1000)) (str ''highWater'') of
        Inl e \<Rightarrow> Inl e
      | Inr hw \<Rightarrow>
     (case fraction (ss_margin s) (rnd (1 / 5)) (rnd (1 / 500)) (str ''margin'') of
        Inl e \<Rightarrow> Inl e
      | Inr m \<Rightarrow>
     (case fraction (ss_step s) (rnd (1 / 20)) (rnd (1 / 1000)) (str ''step'') of
        Inl e \<Rightarrow> Inl e
      | Inr st \<Rightarrow>
     (case fraction (ss_max_fraction s) (rnd (1 / 2)) (rnd (1 / 1000)) (str ''maxFraction'') of
        Inl e \<Rightarrow> Inl e
      | Inr mf \<Rightarrow>
          Inr \<lparr>high_water = f64_to_u32 (f64_round hw), margin = f64_to_u32 (f64_round m), step = st,
               max_fraction = f64_to_u32 (f64_round mf), max_peer_rtt = rtt\<rparr>)))))"

definition failover_bounded_ms :: "f64 option \<Rightarrow> f64 \<Rightarrow> f64 \<Rightarrow> bytes \<Rightarrow> policy_error + nat" where
  "failover_bounded_ms v dflt least label =
     (let ms = unwrap_or v dflt
      in if \<not> f64_is_finite ms \<or> \<not> (f64_le least ms \<and> f64_le ms MAX_INTERVAL_MS) then Inl (BadInterval label)
         else Inr (unat (f64_to_u64 ms) * 1000000))"

fun parse_peers :: "(bytes \<times> u16) list \<Rightarrow> socket_addr list \<Rightarrow> policy_error + socket_addr list" where
  "parse_peers [] done_peers = Inr done_peers"
| "parse_peers ((host, port) # hosts) done_peers =
     (case parse_ip host of
        None \<Rightarrow> Inl (BadPeerHost host)
      | Some ip \<Rightarrow>
          if port = 0 then Inl (PeerPortZero host)
          else
            let addr = \<lparr>sa_ip = ip, sa_port = port\<rparr>
            in if addr \<in> set done_peers then Inl (PeerListedTwice addr)
               else parse_peers hosts (done_peers @ [addr]))"

definition failover_parse :: "failover_spec \<Rightarrow> policy_error + failover_policy" where
  "failover_parse s =
     (if fs_peers s = [] then Inl NoPeers
      else case parse_peers (fs_peers s) [] of
        Inl e \<Rightarrow> Inl e
      | Inr ps \<Rightarrow>
     (case failover_bounded_ms (fs_probe_interval_ms s) DEFAULT_PROBE_INTERVAL_MS MIN_PROBE_INTERVAL_MS
         (str ''probeIntervalMs'') of
        Inl e \<Rightarrow> Inl e
      | Inr interval \<Rightarrow>
     (case failover_bounded_ms (fs_cooldown_min_ms s) DEFAULT_COOLDOWN_MIN_MS (Fin 1) (str ''peerCooldownMs.min'') of
        Inl e \<Rightarrow> Inl e
      | Inr cmin \<Rightarrow>
     (case failover_bounded_ms (fs_cooldown_max_ms s)
         (f64_max_of DEFAULT_COOLDOWN_MAX_MS (f64_of_nat (cmin div 1000000))) (Fin 1) (str ''peerCooldownMs.max'') of
        Inl e \<Rightarrow> Inl e
      | Inr cmax \<Rightarrow>
          if cmax < cmin then Inl CooldownOrder
          else Inr \<lparr>fp_peers = ps, fp_drain = fs_drain s, fp_probe_interval = interval,
                    fp_cooldown_min = cmin, fp_cooldown_max = cmax, fp_spill = None\<rparr>))))"

subsection \<open>Peers\<close>

definition COOLDOWN_STREAK_SHIFT :: nat where "COOLDOWN_STREAK_SHIFT = 56"
definition COOLDOWN_UNTIL_MASK :: u64 where "COOLDOWN_UNTIL_MASK = push_bit COOLDOWN_STREAK_SHIFT 1 - 1"
definition RTT_EWMA_WEIGHT :: f64 where "RTT_EWMA_WEIGHT = Fin (1 / 4)"

record failover_peer =
  peer_addr :: socket_addr
  cooldown :: u64
  forwarded :: u64
  spilled :: u64
  failures :: "peer_failure \<Rightarrow> u64"
  packed_report :: u64
  rtt_us :: u32

definition failover_peer_new :: "socket_addr \<Rightarrow> failover_peer" where
  "failover_peer_new addr = \<lparr>peer_addr = addr, cooldown = 0, forwarded = 0, spilled = 0,
     failures = (\<lambda>_. 0), packed_report = 0, rtt_us = 0\<rparr>"

definition report :: "failover_peer \<Rightarrow> (u32 \<times> u64) option" where
  "report p =
     (if packed_report p \<noteq> 0 then Some (ucast (packed_report p AND 0x3FF), drop_bit 10 (packed_report p)) else None)"

definition set_report :: "u32 option \<Rightarrow> u64 \<Rightarrow> failover_peer \<Rightarrow> failover_peer" where
  "set_report load now_ms p =
     p\<lparr>packed_report := (case load of None \<Rightarrow> 0 | Some l \<Rightarrow> push_bit 10 (max now_ms 1) OR ucast (min l 1000))\<rparr>"

definition rtt :: "failover_peer \<Rightarrow> nat option" where
  "rtt p = (if rtt_us p \<noteq> 0 then Some (unat (rtt_us p) * 1000) else None)"

definition record_rtt :: "nat \<Rightarrow> failover_peer \<Rightarrow> failover_peer" where
  "record_rtt sample_ns p =
     (let sample = f64_of_nat (min (max (sample_ns div 1000) 1) (2 ^ 32 - 1));
          smooth = (if rtt_us p = 0 then sample
            else f64_add (f64_of_nat (unat (rtt_us p)))
                   (f64_mul RTT_EWMA_WEIGHT (f64_sub sample (f64_of_nat (unat (rtt_us p))))))
      in p\<lparr>rtt_us := f64_to_u32 (f64_max_of (f64_round smooth) (Fin 1))\<rparr>)"

definition cooldown_until :: "failover_peer \<Rightarrow> u64" where
  "cooldown_until p = cooldown p AND COOLDOWN_UNTIL_MASK"

definition cooling_down :: "u64 \<Rightarrow> failover_peer \<Rightarrow> bool" where
  "cooling_down now p \<longleftrightarrow> min now COOLDOWN_UNTIL_MASK < cooldown_until p"

definition failures_by_reason :: "failover_peer \<Rightarrow> (bytes \<times> u64) list" where
  "failures_by_reason p =
     filter (\<lambda>(_, n). 0 < n) (map (\<lambda>k. (peer_failure_as_str k, failures p k)) peer_failures)"

definition record_failure :: "peer_failure \<Rightarrow> u64 \<Rightarrow> u64 \<Rightarrow> u64 \<Rightarrow> failover_peer \<Rightarrow> failover_peer" where
  "record_failure k min_ns max_ns now p =
     (let state = cooldown p;
          streak = min (sat_add (drop_bit COOLDOWN_STREAK_SHIFT state) 1) 255;
          backoff = min (sat_mul min_ns (push_bit (unat (min (streak - 1) 63)) 1)) max_ns;
          until = min (max (state AND COOLDOWN_UNTIL_MASK) (sat_add now backoff)) COOLDOWN_UNTIL_MASK
      in p\<lparr>failures := (failures p)(k := failures p k + 1),
           cooldown := push_bit COOLDOWN_STREAK_SHIFT streak OR until\<rparr>)"

definition clear_cooldown :: "failover_peer \<Rightarrow> failover_peer" where
  "clear_cooldown p = p\<lparr>cooldown := 0\<rparr>"

subsection \<open>State of a route's failover\<close>

record failover_status =
  reported_down :: bool
  last_probe_ns :: u64
  replays :: u64
  exhausted :: u64
  local_fallbacks :: u64

definition failover_status_default :: failover_status where
  "failover_status_default =
     \<lparr>reported_down = False, last_probe_ns = 0, replays = 0, exhausted = 0, local_fallbacks = 0\<rparr>"

text \<open>\<open>SpillState\<close> with its \<open>Controller\<close>.\<close>

record spill_state =
  packed_admission :: u64
  ctl_fraction :: f64
  ctl_last_ns :: u64

definition spill_state_default :: spill_state where
  "spill_state_default = \<lparr>packed_admission = 0, ctl_fraction = Fin 0, ctl_last_ns = 0\<rparr>"

record failover =
  drain :: bool
  probe_interval :: nat
  cooldown_min_ns :: u64
  cooldown_max_ns :: u64
  fo_peers :: "nat list"
  cursor :: u64
  tcp_health :: "nat option"
  fo_status :: nat
  fo_spill :: "(spill_policy \<times> nat) option"

record metric_identity =
  id_route :: bytes
  id_group :: bytes
  id_counters :: route_metrics

record world =
  base :: store
  buckets :: "route_token_bucket list"
  identities :: "metric_identity list"
  peers :: "failover_peer list"
  statuses :: "failover_status list"
  spills :: "spill_state list"
  failovers :: "failover list"

definition update_peer :: "nat \<Rightarrow> (failover_peer \<Rightarrow> failover_peer) \<Rightarrow> world \<Rightarrow> world" where
  "update_peer i f w = w\<lparr>peers := (peers w)[i := f (peers w ! i)]\<rparr>"

definition update_status :: "nat \<Rightarrow> (failover_status \<Rightarrow> failover_status) \<Rightarrow> world \<Rightarrow> world" where
  "update_status i f w = w\<lparr>statuses := (statuses w)[i := f (statuses w ! i)]\<rparr>"

definition update_spill :: "nat \<Rightarrow> (spill_state \<Rightarrow> spill_state) \<Rightarrow> world \<Rightarrow> world" where
  "update_spill i f w = w\<lparr>spills := (spills w)[i := f (spills w ! i)]\<rparr>"

text \<open>The peers of a new \<open>Failover\<close>: the previous table's peer of the same address, or a new one.\<close>

fun adopt_peers :: "failover option \<Rightarrow> socket_addr list \<Rightarrow> world \<Rightarrow> nat list \<times> world" where
  "adopt_peers previous [] w = ([], w)"
| "adopt_peers previous (addr # addrs) w =
     (let (ref, w1) = (case (case previous of
              Some p \<Rightarrow> find (\<lambda>i. peer_addr (peers w ! i) = addr) (fo_peers p) | None \<Rightarrow> None) of
            Some i \<Rightarrow> (i, w)
          | None \<Rightarrow> (length (peers w), w\<lparr>peers := peers w @ [failover_peer_new addr]\<rparr>));
          (rest, w2) = adopt_peers previous addrs w1
      in (ref # rest, w2))"

definition adopt_spill ::
    "failover option \<Rightarrow> bool \<Rightarrow> socket_addr list \<Rightarrow> spill_policy \<Rightarrow> world \<Rightarrow> nat \<times> world" where
  "adopt_spill previous same_load_source addrs policy w =
     (case (case previous of
          Some p \<Rightarrow>
            (case fo_spill p of
               Some (old, ref) \<Rightarrow>
                 if same_load_source \<and> old = policy \<and> map (\<lambda>i. peer_addr (peers w ! i)) (fo_peers p) = addrs
                 then Some ref else None
             | None \<Rightarrow> None)
        | None \<Rightarrow> None) of
        Some ref \<Rightarrow> (ref, w)
      | None \<Rightarrow> (length (spills w), w\<lparr>spills := spills w @ [spill_state_default]\<rparr>))"

definition failover_new ::
    "failover_policy \<Rightarrow> failover option \<Rightarrow> nat option \<Rightarrow> bool \<Rightarrow> world \<Rightarrow> failover \<times> world" where
  "failover_new policy previous health same_load_source w =
     (let (ps, w1) = adopt_peers previous (fp_peers policy) w;
          (sp, w2) = (case fp_spill policy of
            Some pol \<Rightarrow> (let (ref, w') = adopt_spill previous same_load_source (fp_peers policy) pol w1
                        in (Some (pol, ref), w'))
          | None \<Rightarrow> (None, w1));
          (st, w3) = (case previous of
            Some p \<Rightarrow> (fo_status p, w2)
          | None \<Rightarrow> (length (statuses w2), w2\<lparr>statuses := statuses w2 @ [failover_status_default]\<rparr>))
      in (\<lparr>drain = fp_drain policy, probe_interval = fp_probe_interval policy,
           cooldown_min_ns = of_nat (fp_cooldown_min policy), cooldown_max_ns = of_nat (fp_cooldown_max policy),
           fo_peers = ps, cursor = 0, tcp_health = health, fo_status = st, fo_spill = sp\<rparr>, w3))"

definition down_dest :: "world \<Rightarrow> failover \<Rightarrow> destination \<Rightarrow> bool" where
  "down_dest w f dest =
     (case dest of
        UdsSet r \<Rightarrow> all_refusing (base w) (balancers (base w) ! r)
      | Tcp _ \<Rightarrow> (case tcp_health f of Some h \<Rightarrow> health_refusing (base w) h | None \<Rightarrow> False))"

definition locally_down :: "world \<Rightarrow> failover \<Rightarrow> destination \<Rightarrow> destination option \<Rightarrow> bool" where
  "locally_down w f dest dest_h2 \<longleftrightarrow>
     down_dest w f dest \<or> (case dest_h2 of Some d \<Rightarrow> down_dest w f d | None \<Rightarrow> False)"

subsection \<open>Spill admission\<close>

record admission =
  adm_fraction :: u32
  adm_target :: nat
  adm_until_ms :: u64

definition pack :: "admission \<Rightarrow> u64" where
  "pack a = push_bit 26 (adm_until_ms a) OR push_bit 10 (of_nat (adm_target a) AND 0xFFFF) OR
     ucast (min (adm_fraction a) 1000)"

definition unpack :: "u64 \<Rightarrow> admission option" where
  "unpack packed =
     (if packed AND 0x3FF \<noteq> 0
      then Some \<lparr>adm_fraction = ucast (packed AND 0x3FF), adm_target = unat (drop_bit 10 packed AND 0xFFFF),
                 adm_until_ms = drop_bit 26 packed\<rparr>
      else None)"

definition current_admission :: "u64 \<Rightarrow> spill_state \<Rightarrow> admission option" where
  "current_admission now_ms s =
     (case unpack (packed_admission s) of
        Some a \<Rightarrow> if now_ms < adm_until_ms a then Some a else None | None \<Rightarrow> None)"

definition spill_target ::
    "(socket_addr \<Rightarrow> u64) \<Rightarrow> u64 \<Rightarrow> failover \<Rightarrow> nat \<Rightarrow> socket_addr \<Rightarrow> world \<Rightarrow> nat option \<times> world" where
  "spill_target spill_hash now f ref client w =
     (let packed = packed_admission (spills w ! ref)
      in case unpack packed of
           None \<Rightarrow> (None, w)
         | Some a \<Rightarrow>
             if adm_until_ms a \<le> now div 1000000
             then (None, update_spill ref (\<lambda>s. s\<lparr>packed_admission := 0\<rparr>) w)
             else if length (fo_peers f) \<le> adm_target a then (None, w)
             else if spill_hash client mod 1000 < ucast (adm_fraction a) \<and>
                     \<not> cooling_down now (peers w ! (fo_peers f ! adm_target a))
                  then (Some (adm_target a), w) else (None, w))"

definition MIN_REPORT_TTL_NS :: u64 where "MIN_REPORT_TTL_NS = 3000000000"

definition report_ttl_ms :: "failover \<Rightarrow> u64" where
  "report_ttl_ms f = max (3 * of_nat (probe_interval f)) MIN_REPORT_TTL_NS div 1000000"

subsection \<open>Serving or forwarding\<close>

datatype forward_mode = Down | Drain | SpillTo nat

datatype route_decision = Refuse | Forward forward_mode | ServeLocal

text \<open>\<open>spill\<close> is consulted only on the last branch, where it may change the world.\<close>

definition decide ::
    "bool \<Rightarrow> bool \<Rightarrow> bool \<Rightarrow> bool \<Rightarrow> (world \<Rightarrow> nat option \<times> world) \<Rightarrow> world \<Rightarrow> route_decision \<times> world" where
  "decide ingress suspended local_down is_draining spill w =
     (if ingress then (if local_down \<or> is_draining then Refuse else ServeLocal, w)
      else if suspended then (ServeLocal, w)
      else if local_down then (Forward Down, w)
      else if is_draining then (Forward Drain, w)
      else case spill w of
        (Some peer, w') \<Rightarrow> (Forward (SpillTo peer), w')
      | (None, w') \<Rightarrow> (ServeLocal, w'))"

text \<open>The peers to try, in order, how many, and the failover with its cursor moved on.\<close>

definition candidates :: "world \<Rightarrow> u64 \<Rightarrow> bool \<Rightarrow> failover \<Rightarrow> nat \<times> nat list \<times> failover" where
  "candidates w now wait_for_cooldown f =
     (let n = length (fo_peers f);
          (first, f') = (if n = 1 then (0, f) else (unat (cursor f) mod n, f\<lparr>cursor := cursor f + 1\<rparr>));
          ready = length (filter (\<lambda>i. \<not> cooling_down now (peers w ! i)) (fo_peers f));
          earliest = (if ready = 0 \<and> wait_for_cooldown
            then min_by_key (\<lambda>i. cooldown_until (peers w ! i)) (fo_peers f) else None);
          rotation = filter (\<lambda>i. \<not> cooling_down now (peers w ! i))
            (map (\<lambda>k. fo_peers f ! ((first + k) mod n)) [0..<n])
      in (max ready (if earliest = None then 0 else 1),
          rotation @ (case earliest of Some i \<Rightarrow> [i] | None \<Rightarrow> []), f'))"

definition candidates_for :: "world \<Rightarrow> forward_mode \<Rightarrow> u64 \<Rightarrow> failover \<Rightarrow> nat \<times> nat list \<times> failover" where
  "candidates_for w mode now f =
     (case mode of
        SpillTo i \<Rightarrow>
          if i < length (fo_peers f) \<and> \<not> cooling_down now (peers w ! (fo_peers f ! i))
          then (1, [fo_peers f ! i], f) else (0, [], f)
      | _ \<Rightarrow> candidates w now (mode \<noteq> Drain) f)"

subsection \<open>Forwarding\<close>

definition DRAIN_BUDGET :: nat where "DRAIN_BUDGET = 2000000000"
definition SPILL_BUDGET :: nat where "SPILL_BUDGET = 1000000000"

datatype forwarded = Done "conn_error option" | ServeLocally nat

text \<open>How one attempt at a peer goes.\<close>

datatype peer_outcome = ConnectFailed error_kind | WriteFailed | NoByte | FirstByte | ShareSpent

fun attempt_result :: "peer_outcome \<Rightarrow> peer_failure option" where
  "attempt_result (ConnectFailed k) = Some (if k = ConnectionRefused then Refused else PeerError)"
| "attempt_result WriteFailed = Some ZeroByteClose"
| "attempt_result NoByte = Some ZeroByteClose"
| "attempt_result FirstByte = None"
| "attempt_result ShareSpent = Some PeerTimedOut"

text \<open>The environment of a forward: the time spent before each attempt and when it gives up (in
  nanoseconds since it started), the clock at each attempt, what the client socket shows when the
  hello is peeked again, each attempt's outcome (given the bytes sent and the time it may take),
  whether the hello can then be read, and how the tunnel ends.\<close>

record forward_env =
  fe_elapsed :: "nat \<Rightarrow> nat"
  fe_gave_up :: nat
  fe_clock :: "nat \<Rightarrow> u64"
  fe_peek :: "bytes option"
  fe_outcome :: "nat \<Rightarrow> socket_addr \<Rightarrow> bytes \<Rightarrow> nat \<Rightarrow> peer_outcome"
  fe_hello_read :: bool
  fe_tunnel :: "conn_error option"

definition give_up :: "forward_env \<Rightarrow> forward_mode \<Rightarrow> nat \<Rightarrow> nat \<Rightarrow> world \<Rightarrow> forwarded \<times> world" where
  "give_up env mode handshake st w =
     (if mode = Down
      then (Done (Some UpstreamConnect), update_status st (\<lambda>s. s\<lparr>exhausted := exhausted s + 1\<rparr>) w)
      else (ServeLocally (handshake - fe_gave_up env),
            update_status st (\<lambda>s. s\<lparr>local_fallbacks := local_fallbacks s + 1\<rparr>) w))"

definition forward_budget :: "forward_mode \<Rightarrow> nat \<Rightarrow> nat" where
  "forward_budget mode handshake =
     (case mode of
        Down \<Rightarrow> handshake
      | Drain \<Rightarrow> min (handshake div 2) DRAIN_BUDGET
      | SpillTo _ \<Rightarrow> min (handshake div 2) SPILL_BUDGET)"

definition hand_over :: "forward_mode \<Rightarrow> failover_peer \<Rightarrow> failover_peer" where
  "hand_over mode p =
     (case mode of
        SpillTo _ \<Rightarrow> p\<lparr>spilled := spilled p + 1\<rparr>
      | _ \<Rightarrow> p\<lparr>forwarded := forwarded p + 1\<rparr>)"

fun peer_loop ::
    "forward_env \<Rightarrow> failover \<Rightarrow> forward_mode \<Rightarrow> nat \<Rightarrow> bytes \<Rightarrow> nat \<Rightarrow> nat \<Rightarrow> nat list \<Rightarrow> world \<Rightarrow> forwarded \<times> world" where
  "peer_loop env f mode handshake pre n k [] w = give_up env mode handshake (fo_status f) w"
| "peer_loop env f mode handshake pre n k (i # is) w =
     (let remaining = forward_budget mode handshake - fe_elapsed env k
      in if remaining = 0 then give_up env mode handshake (fo_status f) w
         else
           let w1 = (if 0 < k then update_status (fo_status f) (\<lambda>s. s\<lparr>replays := replays s + 1\<rparr>) w else w);
               share = remaining div max (n - k) 1
           in case attempt_result (fe_outcome env k (peer_addr (peers w1 ! i)) pre share) of
                None \<Rightarrow>
                  (Done (if fe_hello_read env then fe_tunnel env else Some StreamError),
                   update_peer i (\<lambda>p. hand_over mode (clear_cooldown p)) w1)
              | Some failure \<Rightarrow>
                  peer_loop env f mode handshake pre n (k + 1) is
                    (update_peer i (record_failure failure (cooldown_min_ns f) (cooldown_max_ns f) (fe_clock env k)) w1))"

definition forward_to_peers ::
    "forward_env \<Rightarrow> bool \<Rightarrow> nat \<Rightarrow> nat \<Rightarrow> forward_mode \<Rightarrow> nat \<Rightarrow> u64 \<Rightarrow> socket_addr \<Rightarrow> socket_addr option \<Rightarrow> world \<Rightarrow>
     forwarded \<times> world" where
  "forward_to_peers env hello_complete hello_length fref mode handshake now peer local_addr w =
     (let f = failovers w ! fref
      in if \<not> hello_complete \<or> hello_length = 0
         then (if mode = Down then (Done (Some UpstreamConnect), w) else give_up env mode handshake (fo_status f) w)
         else
           let (n, cs, f') = candidates_for w mode now f;
               w1 = w\<lparr>failovers := (failovers w)[fref := f']\<rparr>
           in if n = 0 then give_up env mode handshake (fo_status f) w1
              else case (proxy_v2_header peer local_addr [], fe_peek env) of
                (Some h, Some seen) \<Rightarrow>
                  (if length seen = hello_length
                   then peer_loop env f' mode handshake (h @ seen) n 0 cs w1
                   else give_up env mode handshake (fo_status f) w1)
              | _ \<Rightarrow> give_up env mode handshake (fo_status f) w1)"

subsection \<open>Recovery probe\<close>

record failover_route =
  fr_identity :: nat
  fr_failover :: nat
  fr_destination :: destination
  fr_destination_h2 :: "destination option"

definition fr_locally_down :: "world \<Rightarrow> failover_route \<Rightarrow> bool" where
  "fr_locally_down w r = locally_down w (failovers w ! fr_failover r) (fr_destination r) (fr_destination_h2 r)"

definition fr_destinations :: "failover_route \<Rightarrow> destination list" where
  "fr_destinations r = fr_destination r # (case fr_destination_h2 r of Some d \<Rightarrow> [d] | None \<Rightarrow> [])"

text \<open>The health cells of a route's endpoints.\<close>

datatype endpoint = UdsEndpoint bytes | TcpEndpoint socket_addr

definition dest_healths :: "world \<Rightarrow> failover \<Rightarrow> destination \<Rightarrow> (endpoint \<times> nat) list" where
  "dest_healths w f dest =
     (case dest of
        UdsSet r \<Rightarrow> map (\<lambda>(path, h). (UdsEndpoint path, h)) (tracked_slots (balancers (base w) ! r))
      | Tcp addr \<Rightarrow> (case tcp_health f of Some h \<Rightarrow> [(TcpEndpoint addr, h)] | None \<Rightarrow> []))"

definition slot_counts :: "world \<Rightarrow> failover_route \<Rightarrow> nat \<times> nat" where
  "slot_counts w r =
     (let f = failovers w ! fr_failover r;
          count = (\<lambda>dest. case dest of
              UdsSet b \<Rightarrow>
                (let hs = tracked_slots (balancers (base w) ! b)
                 in (length (filter (\<lambda>(_, h). health_refusing (base w) h) hs), length hs))
            | Tcp _ \<Rightarrow>
                (case tcp_health f of Some h \<Rightarrow> if health_refusing (base w) h then 1 else 0 | None \<Rightarrow> 0, 1))
      in (sum_list (map (fst \<circ> count) (fr_destinations r)), sum_list (map (snd \<circ> count) (fr_destinations r))))"

text \<open>What a pass is to probe: the refusing endpoints of the routes whose interval is over, each
  with the refusal it observed. A route is stamped when something of it is probed.\<close>

definition route_due :: "world \<Rightarrow> u64 \<Rightarrow> failover_route \<Rightarrow> (endpoint \<times> nat \<times> u64) list" where
  "route_due w now r =
     (let f = failovers w ! fr_failover r; interval = of_nat (probe_interval f)
      in if sat_sub now (last_probe_ns (statuses w ! fo_status f)) < interval - interval div 10 then []
         else map (\<lambda>(e, h). (e, h, healths (base w) ! h))
                (filter (\<lambda>(_, h). healths (base w) ! h \<noteq> 0)
                  (concat (map (dest_healths w f) (fr_destinations r)))))"

fun collect_due :: "u64 \<Rightarrow> failover_route list \<Rightarrow> world \<Rightarrow> (endpoint \<times> nat \<times> u64) list \<times> world" where
  "collect_due now [] w = ([], w)"
| "collect_due now (r # rs) w =
     (let probes = route_due w now r;
          w1 = (if probes = [] then w
                else update_status (fo_status (failovers w ! fr_failover r)) (\<lambda>s. s\<lparr>last_probe_ns := now\<rparr>) w);
          (rest, w2) = collect_due now rs w1
      in (probes @ rest, w2))"

text \<open>The pass over the collected endpoints; \<open>alive\<close> is the outcome of \<open>probe\<close>: a connection that
  is accepted and stays open.\<close>

fun apply_probes :: "(endpoint \<Rightarrow> bool) \<Rightarrow> (endpoint \<times> nat \<times> u64) list \<Rightarrow> store \<Rightarrow> store" where
  "apply_probes alive [] st = st"
| "apply_probes alive ((e, h, observed) # rest) st =
     apply_probes alive rest (if alive e then snd (clear_if_unchanged observed h st) else st)"

text \<open>Reporting health transitions: the events (route, group, up), and whether the queue took each.\<close>

fun report_health :: "(nat \<Rightarrow> bool) \<Rightarrow> nat \<Rightarrow> failover_route list \<Rightarrow> world \<Rightarrow> (bytes \<times> bytes \<times> bool) list \<times> world" where
  "report_health queued n [] w = ([], w)"
| "report_health queued n (r # rs) w =
     (let local_down = fr_locally_down w r;
          st = fo_status (failovers w ! fr_failover r);
          ident = identities w ! fr_identity r
      in if reported_down (statuses w ! st) \<noteq> local_down
         then (let w1 = (if queued n then update_status st (\<lambda>s. s\<lparr>reported_down := local_down\<rparr>) w else w);
                   (evs, w2) = report_health queued (n + 1) rs w1
               in ((if queued n then [(id_route ident, id_group ident, \<not> local_down)] else []) @ evs, w2))
         else report_health queued n rs w)"

subsection \<open>The spill controller\<close>

datatype trend = Rise | Hold | Decay

record peer_view =
  pv_load :: "u32 option"
  report_until_ms :: u64
  cooling :: bool
  pv_rtt :: "nat option"

definition eligible :: "spill_policy \<Rightarrow> u64 \<Rightarrow> peer_view \<Rightarrow> bool" where
  "eligible policy now_ms p \<longleftrightarrow>
     now_ms < report_until_ms p \<and> \<not> cooling p \<and>
     (case max_peer_rtt policy of
        None \<Rightarrow> True
      | Some m \<Rightarrow> (case pv_rtt p of Some r \<Rightarrow> r \<le> m | None \<Rightarrow> False))"

definition best_peer :: "spill_policy \<Rightarrow> u64 \<Rightarrow> peer_view list \<Rightarrow> (nat \<times> u32 \<times> u64) option" where
  "best_peer policy now_ms ps =
     min_by_key (\<lambda>(_, l, _). l)
       (List.map_filter (\<lambda>(i, p). map_option (\<lambda>l. (i, l, report_until_ms p)) (pv_load p))
         (filter (\<lambda>(_, p). eligible policy now_ms p) (enumerate 0 ps)))"

definition assess ::
    "spill_policy \<Rightarrow> (u32 \<times> u64) option \<Rightarrow> peer_view list \<Rightarrow> u64 \<Rightarrow> trend \<times> (nat \<times> u64) option" where
  "assess policy local_load ps now_ms =
     (case local_load of
        None \<Rightarrow> (Decay, None)
      | Some (l, local_until_ms) \<Rightarrow>
          if \<not> now_ms < local_until_ms then (Decay, None)
          else case best_peer policy now_ms ps of
            None \<Rightarrow> (Decay, None)
          | Some (target, peer_load, until) \<Rightarrow>
              let until_ms = min local_until_ms until; m = unat (margin policy)
              in if high_water policy \<le> l \<and> unat peer_load + m \<le> unat l then (Rise, Some (target, until_ms))
                 else if 2 * unat (high_water policy) \<le> 2 * unat l + m \<and> 2 * unat peer_load + m \<le> 2 * unat l
                 then (Hold, Some (target, until_ms))
                 else (Decay, None))"

definition MAX_CONTROL_STEP_NS :: u64 where "MAX_CONTROL_STEP_NS = 1000000000"

definition control ::
    "spill_policy \<Rightarrow> (u32 \<times> u64) option \<Rightarrow> peer_view list \<Rightarrow> u64 \<Rightarrow> spill_state \<Rightarrow> admission option \<times> spill_state" where
  "control policy local_load ps now s =
     (let elapsed = (if ctl_last_ns s = 0 then 0 else min (sat_sub now (ctl_last_ns s)) MAX_CONTROL_STEP_NS);
          (trend, target) = assess policy local_load ps (now div 1000000);
          delta = f64_div (f64_mul (step policy) (f64_of_nat (unat elapsed))) (Fin 1000000000);
          moved = (case trend of
              Rise \<Rightarrow> f64_add (ctl_fraction s) delta
            | Hold \<Rightarrow> ctl_fraction s
            | Decay \<Rightarrow> f64_sub (ctl_fraction s) delta);
          frac = f64_clamp moved (Fin 0) (f64_of_nat (unat (max_fraction policy)));
          adm = (case target of
              Some (t, until_ms) \<Rightarrow>
                (let fr = f64_to_u32 (f64_round frac)
                 in if 0 < fr then Some \<lparr>adm_fraction = fr, adm_target = t, adm_until_ms = until_ms\<rparr> else None)
            | None \<Rightarrow> None)
      in (adm, \<lparr>packed_admission = (case adm of Some a \<Rightarrow> pack a | None \<Rightarrow> 0),
                ctl_fraction = frac, ctl_last_ns = now\<rparr>))"

definition spill_status :: "world \<Rightarrow> failover \<Rightarrow> u64 \<Rightarrow> (f64 \<times> socket_addr option) option" where
  "spill_status w f now =
     (case fo_spill f of
        None \<Rightarrow> None
      | Some (_, ref) \<Rightarrow>
          Some (case current_admission (now div 1000000) (spills w ! ref) of
              Some a \<Rightarrow>
                (f64_div (f64_of_nat (unat (adm_fraction a))) (Fin 1000),
                 if adm_target a < length (fo_peers f) then Some (peer_addr (peers w ! (fo_peers f ! adm_target a))) else None)
            | None \<Rightarrow> (Fin 0, None)))"

text \<open>\<open>route_load\<close> (\<open>router.rs\<close>): the busier of a route's destinations.\<close>

definition dest_load :: "world \<Rightarrow> u64 \<Rightarrow> destination \<Rightarrow> (u32 \<times> u64) option" where
  "dest_load w now dest =
     (case dest of
        UdsSet r \<Rightarrow> load_get now (loads (base w) ! load_ref (balancers (base w) ! r))
      | Tcp _ \<Rightarrow> None)"

definition route_load :: "world \<Rightarrow> destination \<Rightarrow> destination option \<Rightarrow> u64 \<Rightarrow> (u32 \<times> u64) option" where
  "route_load w dest dest_h2 now =
     (case dest_load w now dest of
        None \<Rightarrow> None
      | Some (permille, until_ms) \<Rightarrow>
          (case dest_h2 of
             None \<Rightarrow> Some (permille, until_ms)
           | Some h2 \<Rightarrow>
               (case dest_load w now h2 of
                  None \<Rightarrow> None
                | Some (permille2, until2) \<Rightarrow> Some (max permille permille2, min until_ms until2))))"

definition peer_view_of :: "u64 \<Rightarrow> u64 \<Rightarrow> failover_peer \<Rightarrow> peer_view" where
  "peer_view_of now ttl_ms p =
     \<lparr>pv_load = map_option fst (report p),
      report_until_ms = (case report p of Some (_, received) \<Rightarrow> received + ttl_ms | None \<Rightarrow> 0),
      cooling = cooling_down now p, pv_rtt = rtt p\<rparr>"

definition control_route :: "u64 \<Rightarrow> failover_route \<Rightarrow> world \<Rightarrow> world" where
  "control_route now r w =
     (let f = failovers w ! fr_failover r
      in case fo_spill f of
           None \<Rightarrow> w
         | Some (policy, ref) \<Rightarrow>
             update_spill ref (\<lambda>s. snd (control policy (route_load w (fr_destination r) (fr_destination_h2 r) now)
               (map (\<lambda>i. peer_view_of now (report_ttl_ms f) (peers w ! i)) (fo_peers f)) now s)) w)"

definition control_all :: "failover_route list \<Rightarrow> u64 \<Rightarrow> world \<Rightarrow> world" where
  "control_all routes now w = fold (control_route now) routes w"

subsection \<open>Load queries\<close>

record load_answer =
  la_rtt :: nat
  la_loads :: "(u32 option \<times> u64) option list"

definition apply_answer_route ::
    "socket_addr \<Rightarrow> bytes list \<Rightarrow> load_answer \<Rightarrow> failover_route \<Rightarrow> world \<Rightarrow> world" where
  "apply_answer_route addr names answer r w =
     (let f = failovers w ! fr_failover r
      in if fo_spill f = None then w
         else case find (\<lambda>i. peer_addr (peers w ! i) = addr) (fo_peers f) of
           None \<Rightarrow> w
         | Some i \<Rightarrow>
             (case position (\<lambda>n. n = id_route (identities w ! fr_identity r)) names of
                None \<Rightarrow> w
              | Some k \<Rightarrow>
                  let w1 = update_peer i (record_rtt (la_rtt answer)) w
                  in if k < length (la_loads answer)
                     then (case la_loads answer ! k of
                         Some (load, at_ms) \<Rightarrow> update_peer i (set_report load at_ms) w1
                       | None \<Rightarrow> w1)
                     else w1))"

definition apply_answer ::
    "failover_route list \<Rightarrow> socket_addr \<Rightarrow> bytes list \<Rightarrow> load_answer option \<Rightarrow> world \<Rightarrow> world" where
  "apply_answer routes addr names answer w =
     (case answer of None \<Rightarrow> w | Some a \<Rightarrow> fold (apply_answer_route addr names a) routes w)"

text \<open>\<open>query_load\<close>: per chunk, the connect time and the bytes answered (\<open>None\<close>: the attempt failed
  or timed out) and the time it ended; \<open>take\<close> reads one byte more than an answer may have.\<close>

fun query_chunks ::
    "(nat \<Rightarrow> bytes \<Rightarrow> (nat \<times> bytes) option) \<Rightarrow> (nat \<Rightarrow> u64) \<Rightarrow> nat \<Rightarrow> bytes list list \<Rightarrow> nat option \<Rightarrow>
     (u32 option \<times> u64) option list \<Rightarrow> nat option \<times> (u32 option \<times> u64) option list" where
  "query_chunks exchange at_ms k [] first_rtt ls = (first_rtt, ls)"
| "query_chunks exchange at_ms k (c # cs) first_rtt ls =
     (case exchange k (encode_load_query c) of
        None \<Rightarrow> (first_rtt, ls)
      | Some (connect_ns, received) \<Rightarrow>
          (case parse_load_answer (take (max_load_answer_len (length c) + 1) received) (length c) of
             None \<Rightarrow> (first_rtt, ls)
           | Some answers \<Rightarrow>
               query_chunks exchange at_ms (k + 1) cs
                 (case first_rtt of Some r \<Rightarrow> Some r | None \<Rightarrow> Some connect_ns)
                 (ls @ map (\<lambda>l. Some (l, at_ms k)) answers)))"

definition query_load ::
    "(nat \<Rightarrow> bytes \<Rightarrow> (nat \<times> bytes) option) \<Rightarrow> (nat \<Rightarrow> u64) \<Rightarrow> bytes list \<Rightarrow> load_answer option" where
  "query_load exchange at_ms names =
     (let (first_rtt, ls) = query_chunks exchange at_ms 0 (load_query_chunks names) None []
      in map_option (\<lambda>r. \<lparr>la_rtt = r, la_loads = take (length names) (ls @ replicate (length names) None)\<rparr>) first_rtt)"

section \<open>Lemmas\<close>

subsection \<open>Policies\<close>

lemma fraction_bounds:
  assumes "fraction v dflt (rnd least) label = Inr y" "2 powi (- 1022) \<le> least" "0 < n" "least = of_nat n / 1000" "n \<le> 1000"
  shows "\<exists>z. y = Fin z \<and> of_nat n - 1 / 2 \<le> z \<and> z \<le> 1000"
proof -
  obtain x where x: "f64_is_finite x" "\<not> f64_lt x (rnd least)" "\<not> f64_lt (Fin 1) x" "y = f64_mul x (Fin 1000)"
    using assms(1) by (auto simp: fraction_def Let_def split: if_splits)
  then obtain v where v: "x = Fin v" "v \<le> 1" by (cases x) auto
  have w: "f64_within (least * (1 - f64_eps)) (least * (1 + f64_eps)) (rnd least)"
    by (rule rnd_f64_within [OF assms(2)])
  have e: "f64_eps \<le> 1 / 4096" "0 < f64_eps" by (simp_all add: f64_eps_def power_int_minus divide_simps)
  have "rnd least \<noteq> PosInf"
  proof
    assume "rnd least = PosInf"
    then have "f64_max \<le> least * (1 + f64_eps)" using w by (simp add: f64_within_def)
    moreover have "least * (1 + f64_eps) \<le> 1 * 2"
      using assms(4,5) e by (intro mult_mono) (auto simp: divide_simps)
    moreover have "2 < f64_max" by (simp add: f64_max_def)
    ultimately show False by linarith
  qed
  then obtain l where l: "rnd least = Fin l" "least * (1 - f64_eps) \<le> l"
    using w by (cases "rnd least") (auto simp: f64_within_def)
  have lv: "l \<le> v" using x(2) v l(1) by (simp add: not_less)
  have pos: "0 < least" using assms(3,4) by simp
  have lb: "of_nat n * (1 - f64_eps) \<le> v * 1000"
    using l(2) lv unfolding assms(4) by (simp add: field_simps)
  have y: "y = rnd (v * 1000)" using x(4) v by simp
  have ge: "2 powi (- 1022) \<le> v * 1000"
  proof -
    have "(2 :: rat) powi (- 1022) \<le> 1 * (1 / 2)" by (simp add: power_int_minus divide_simps)
    also have "\<dots> \<le> of_nat n * (1 - f64_eps)" using e assms(3) by (intro mult_mono) auto
    finally show ?thesis using lb by linarith
  qed
  have wy: "f64_within (v * 1000 * (1 - f64_eps)) (v * 1000 * (1 + f64_eps)) y"
    unfolding y by (rule rnd_f64_within [OF ge])
  have le: "f64_le (rnd (v * 1000)) (rnd 1000)" using ge v(2) powi_pos [of "- 1022"] by (intro rnd_mono) linarith+
  have th: "rnd 1000 = Fin 1000" using rnd_exact [of 1000 0 1000] by simp
  then have le': "f64_le y (Fin 1000)" using le y by simp
  then obtain z where z: "y = Fin z" using wy by (cases y) (auto simp: f64_within_def f64_le_def f64_eq_def)
  have "z \<le> 1000" using le' z by simp
  moreover have "of_nat n - 1 / 2 \<le> z"
  proof -
    have "of_nat n * (1 - f64_eps) * (1 - f64_eps) \<le> v * 1000 * (1 - f64_eps)"
      using lb e by (intro mult_right_mono) auto
    also have "\<dots> \<le> z" using wy z by (simp add: f64_within_def)
    finally have "of_nat n * ((1 - f64_eps) * (1 - f64_eps)) \<le> z" by (simp add: mult.assoc)
    moreover have "1 - 2 * f64_eps \<le> (1 - f64_eps) * (1 - f64_eps)" by (simp add: algebra_simps)
    then have "of_nat n * (1 - 2 * f64_eps) \<le> of_nat n * ((1 - f64_eps) * (1 - f64_eps))"
      by (intro mult_left_mono) auto
    moreover have "of_nat n * (2 * f64_eps) \<le> 1000 * (2 * (1 / 4096 :: rat))"
      using e assms(5) by (intro mult_mono) auto
    ultimately show ?thesis by (simp add: algebra_simps)
  qed
  ultimately show ?thesis using z by blast
qed

lemma spill_parse_wf:
  assumes "spill_parse s = Inr p"
  shows "1 \<le> unat (high_water p) \<and> unat (high_water p) \<le> 1000 \<and> 2 \<le> unat (margin p) \<and> unat (margin p) \<le> 1000 \<and>
    1 \<le> unat (max_fraction p) \<and> unat (max_fraction p) \<le> 1000 \<and> (\<exists>x. step p = Fin x \<and> 0 < x \<and> x \<le> 1000)"
proof -
  obtain hw m st mf where
    hw: "fraction (ss_high_water s) (rnd (3 / 4)) (rnd (1 / 1000)) (str ''highWater'') = Inr hw"
    and m: "fraction (ss_margin s) (rnd (1 / 5)) (rnd (1 / 500)) (str ''margin'') = Inr m"
    and st: "fraction (ss_step s) (rnd (1 / 20)) (rnd (1 / 1000)) (str ''step'') = Inr st"
    and mf: "fraction (ss_max_fraction s) (rnd (1 / 2)) (rnd (1 / 1000)) (str ''maxFraction'') = Inr mf"
    and p: "high_water p = f64_to_u32 (f64_round hw)" "margin p = f64_to_u32 (f64_round m)" "step p = st"
      "max_fraction p = f64_to_u32 (f64_round mf)"
    using assms by (auto simp: spill_parse_def split: sum.splits)
  have small: "(2 :: rat) powi (- 1022) \<le> 1 / 1000" by (simp add: power_int_minus divide_simps)
  have small2: "(2 :: rat) powi (- 1022) \<le> 1 / 500" by (simp add: power_int_minus divide_simps)
  obtain a where a: "hw = Fin a" "1 - 1 / 2 \<le> a" "a \<le> 1000" using fraction_bounds [OF hw small, of 1] by auto
  obtain b where b: "m = Fin b" "2 - 1 / 2 \<le> b" "b \<le> 1000" using fraction_bounds [OF m small2, of 2] by auto
  obtain c where c: "st = Fin c" "1 - 1 / 2 \<le> c" "c \<le> 1000" using fraction_bounds [OF st small, of 1] by auto
  obtain d where d: "mf = Fin d" "1 - 1 / 2 \<le> d" "d \<le> 1000" using fraction_bounds [OF mf small, of 1] by auto
  show ?thesis
    unfolding p a(1) b(1) c(1) d(1)
    using round_bounds [of 1 a] round_bounds [of 2 b] round_bounds [of 1 d] a(2,3) b(2,3) c(2,3) d(2,3) by auto
qed

lemma parse_peers_wf:
  "parse_peers hosts acc = Inr ps \<Longrightarrow> distinct acc \<Longrightarrow> \<forall>a \<in> set acc. wf_addr a \<and> sa_port a \<noteq> 0 \<Longrightarrow>
   distinct ps \<and> length ps = length acc + length hosts \<and> (\<forall>a \<in> set ps. wf_addr a \<and> sa_port a \<noteq> 0)"
proof (induction hosts acc rule: parse_peers.induct)
  case (2 host port hosts acc)
  then obtain ip where ip: "parse_ip host = Some ip" by (auto split: option.splits)
  have np: "port \<noteq> 0" "\<lparr>sa_ip = ip, sa_port = port\<rparr> \<notin> set acc" "parse_peers hosts (acc @ [\<lparr>sa_ip = ip, sa_port = port\<rparr>]) = Inr ps"
    using "2.prems"(1) ip by (auto simp: Let_def split: if_splits)
  have "wf_ip ip" by (rule parse_ip_wf [OF ip])
  then show ?case using "2.IH" [OF ip np(1) refl np(2,3)] "2.prems"(2,3) np by (auto simp: wf_addr_def)
qed simp

lemma failover_bounded_ms_wf:
  assumes "failover_bounded_ms v dflt (Fin least) label = Inr d" "0 \<le> least"
  shows "least - 1 < of_nat (d div 1000000) \<and> d \<le> 86400000 * 1000000 \<and> d mod 1000000 = 0"
proof -
  obtain x where x: "least \<le> x" "x \<le> 86400000" "d = unat (f64_to_u64 (Fin x)) * 1000000"
    using assms(1)
    by (cases "unwrap_or v dflt") (auto simp: failover_bounded_ms_def Let_def MAX_INTERVAL_MS_def split: if_splits)
  have fl: "\<lfloor>x\<rfloor> \<le> 86400000" using x(2) by (simp add: floor_le_iff)
  have n: "0 \<le> \<lfloor>x\<rfloor>" using x(1) assms(2) by (simp)
  have u: "unat (f64_to_u64 (Fin x)) = nat \<lfloor>x\<rfloor>"
    using x(1) assms(2) fl n by (simp add: unat_f64_to_word_Fin min_def nat_le_iff)
  have "x - 1 < of_int \<lfloor>x\<rfloor>" by linarith
  then have "x - 1 < of_nat (nat \<lfloor>x\<rfloor>)" using n by simp
  then show ?thesis using x(1,3) u fl n by (simp add: nat_le_iff)
qed

lemma failover_parse_wf:
  assumes "failover_parse s = Inr p"
  shows "fp_peers p \<noteq> [] \<and> distinct (fp_peers p) \<and> (\<forall>a \<in> set (fp_peers p). wf_addr a \<and> sa_port a \<noteq> 0) \<and>
    10 * 1000000 \<le> fp_probe_interval p \<and> fp_probe_interval p \<le> 86400000 * 1000000 \<and>
    0 < fp_cooldown_min p \<and> fp_cooldown_min p \<le> fp_cooldown_max p \<and> fp_cooldown_max p \<le> 86400000 * 1000000"
proof -
  obtain ps iv cmin cmax where ps: "fs_peers s \<noteq> []" "parse_peers (fs_peers s) [] = Inr ps"
    and iv: "failover_bounded_ms (fs_probe_interval_ms s) DEFAULT_PROBE_INTERVAL_MS MIN_PROBE_INTERVAL_MS
         (str ''probeIntervalMs'') = Inr iv"
    and cmin: "failover_bounded_ms (fs_cooldown_min_ms s) DEFAULT_COOLDOWN_MIN_MS (Fin 1) (str ''peerCooldownMs.min'') = Inr cmin"
    and cmax: "failover_bounded_ms (fs_cooldown_max_ms s)
         (f64_max_of DEFAULT_COOLDOWN_MAX_MS (f64_of_nat (cmin div 1000000))) (Fin 1) (str ''peerCooldownMs.max'') = Inr cmax"
    and p: "cmin \<le> cmax" "p = \<lparr>fp_peers = ps, fp_drain = fs_drain s, fp_probe_interval = iv,
                    fp_cooldown_min = cmin, fp_cooldown_max = cmax, fp_spill = None\<rparr>"
    using assms by (auto simp: failover_parse_def not_less split: sum.splits if_splits)
  have "9 < iv div 1000000 \<and> iv \<le> 86400000 * 1000000"
    using failover_bounded_ms_wf [OF iv [unfolded MIN_PROBE_INTERVAL_MS_def]] by simp
  moreover have "0 < cmin div 1000000" using failover_bounded_ms_wf [OF cmin] by simp
  moreover have "cmax \<le> 86400000 * 1000000" using failover_bounded_ms_wf [OF cmax] by simp
  ultimately show ?thesis using parse_peers_wf [OF ps(2)] ps(1) p by auto
qed

subsection \<open>Packed words\<close>

lemma unpack_pack:
  assumes "0 < adm_fraction a" "unat (adm_fraction a) \<le> 1000" "adm_target a < 65536" "unat (adm_until_ms a) < 2 ^ 38"
  shows "unpack (pack a) = Some a"
proof -
  define u where "u = adm_until_ms a"
  define t where "t = (of_nat (adm_target a) :: u64)"
  define f where "f = (ucast (adm_fraction a) :: u64)"
  have fr: "min (adm_fraction a) 1000 = adm_fraction a" using assms(2) by (simp add: min_def word_le_nat_alt)
  have uf: "unat f = unat (adm_fraction a)" by (simp add: f_def unat_ucast_u32)
  have ut: "unat t = adm_target a" using assms(3) by (simp add: t_def unsigned_of_nat take_bit_nat_eq_self)
  have "take_bit 38 u = u" "take_bit 16 t = t" "take_bit 10 f = f"
    using assms by (simp_all add: word_unat_eq_iff unsigned_take_bit_eq take_bit_nat_eq_self u_def ut uf)
  then have bu: "bit u n \<Longrightarrow> n < 38" and bt: "bit t n \<Longrightarrow> n < 16" and bf: "bit f n \<Longrightarrow> n < 10" for n
    by (metis bit_take_bit_iff)+
  have m16: "(0xFFFF :: u64) = mask 16" and m10: "(0x3FF :: u64) = mask 10" by (simp_all add: mask_eq_exp_minus_1)
  have t16: "t AND 0xFFFF = t" using bt by (auto simp: m16 bit_eq_iff bit_simps)
  have p: "pack a = push_bit 26 u OR push_bit 10 t OR f"
    using t16 by (simp add: pack_def fr u_def t_def f_def)
  have "pack a AND 0x3FF = f" unfolding p m10 by (rule bit_word_eqI) (auto simp: bit_simps dest: bf)
  moreover have "drop_bit 10 (pack a) AND 0xFFFF = t"
    unfolding p m16 by (rule bit_word_eqI) (auto simp: bit_simps dest: bf bt)
  moreover have "drop_bit 26 (pack a) = u"
    unfolding p by (rule bit_word_eqI) (auto simp: bit_simps dest: bf bt bu)
  moreover have "f \<noteq> 0" using assms(1) uf by (auto simp: word_less_nat_alt)
  moreover have "ucast f = adm_fraction a" by (simp add: f_def ucast_ucast_u32)
  ultimately show ?thesis using ut by (simp add: unpack_def u_def)
qed

lemma report_set_report:
  assumes "unat now_ms < 2 ^ 54"
  shows "report (set_report (Some l) now_ms p) = Some (min l 1000, max now_ms 1)"
proof -
  have l: "unat (min l 1000) \<le> 1000" by (simp add: min_def word_le_nat_alt)
  have ul: "unat (ucast (min l 1000) :: u64) = unat (min l 1000)" by (rule unat_ucast_u32)
  have m: "unat (max now_ms 1) < 2 ^ 54" using assms by (simp add: max_def)
  have "unat (ucast (min l 1000) :: u64) < 2 ^ 10" using l ul by simp
  note pk = pack_permille [OF m this]
  have "max now_ms 1 \<noteq> 0" using max.cobounded2 [of 1 now_ms] by (metis word_le_0_iff zero_neq_one)
  then have nz: "push_bit 10 (max now_ms 1) OR ucast (min l 1000) \<noteq> (0 :: u64)" using pk(1) by (metis drop_bit_of_0)
  have "packed_report (set_report (Some l) now_ms p) = push_bit 10 (max now_ms 1) OR ucast (min l 1000)"
    by (simp add: set_report_def)
  then show ?thesis using nz by (simp only: report_def pk if_True not_False_eq_True simp_thms ucast_ucast_u32)
qed

lemma cooldown_mask: "COOLDOWN_UNTIL_MASK = mask 56"
  by (simp add: COOLDOWN_UNTIL_MASK_def COOLDOWN_STREAK_SHIFT_def mask_eq_exp_minus_1 push_bit_eq_mult)

lemma unat_mask_56: "unat (COOLDOWN_UNTIL_MASK) = 2 ^ 56 - 1"
  by (simp add: cooldown_mask mask_eq_exp_minus_1)

definition backoff_of :: "nat \<Rightarrow> u64 \<Rightarrow> u64 \<Rightarrow> u64" where
  "backoff_of streak min_ns max_ns =
     min (sat_mul min_ns (push_bit (min (streak - 1) 63) 1)) max_ns"

definition streak_of :: "failover_peer \<Rightarrow> nat" where
  "streak_of p = unat (drop_bit COOLDOWN_STREAK_SHIFT (cooldown p))"

lemma streak_of_le: "streak_of p \<le> 255"
proof -
  have "unat (drop_bit 56 (cooldown p)) = unat (cooldown p) div 2 ^ 56"
    by (simp add: drop_bit_eq_div unat_div)
  then show ?thesis
    using unsigned_less [of "cooldown p", where ?'a = nat] by (simp add: streak_of_def COOLDOWN_STREAK_SHIFT_def del: unat_div)
qed

lemma pack_cooldown:
  assumes "unat (s :: u64) < 2 ^ 8" "unat (u :: u64) < 2 ^ 56"
  shows "drop_bit 56 (push_bit 56 s OR u) = s" "(push_bit 56 s OR u) AND COOLDOWN_UNTIL_MASK = u"
proof -
  have "take_bit 8 s = s" "take_bit 56 u = u"
    using assms by (simp_all add: word_unat_eq_iff unsigned_take_bit_eq take_bit_nat_eq_self)
  then have bs: "bit s n \<Longrightarrow> n < 8" and bu: "bit u n \<Longrightarrow> n < 56" for n
    by (metis bit_take_bit_iff)+
  show "drop_bit 56 (push_bit 56 s OR u) = s"
    by (rule bit_word_eqI) (auto simp: bit_simps dest: bu bs)
  show "(push_bit 56 s OR u) AND COOLDOWN_UNTIL_MASK = u"
    unfolding cooldown_mask by (rule bit_word_eqI) (auto simp: bit_simps dest: bu)
qed

lemma record_failure_cooldown:
  "streak_of (record_failure k min_ns max_ns now p) = min (streak_of p + 1) 255"
  "cooldown_until (record_failure k min_ns max_ns now p) =
     min (max (cooldown_until p) (sat_add now (backoff_of (min (streak_of p + 1) 255) min_ns max_ns))) COOLDOWN_UNTIL_MASK"
proof -
  define s where "s = min (sat_add (drop_bit COOLDOWN_STREAK_SHIFT (cooldown p)) 1) (255 :: u64)"
  define b where "b = min (sat_mul min_ns (push_bit (unat (min (s - 1) 63)) 1)) max_ns"
  define u where "u = min (max (cooldown_until p) (sat_add now b)) COOLDOWN_UNTIL_MASK"
  have us: "unat s = min (streak_of p + 1) 255"
    using streak_of_le [of p] by (simp add: s_def streak_of_def unat_min unat_sat_add)
  have "1 \<le> s" by (simp add: word_le_nat_alt us)
  then have "unat (s - 1) = unat s - 1" by (simp add: unat_sub)
  then have "unat (min (s - 1) 63) = min (min (streak_of p + 1) 255 - 1) 63"
    by (simp add: unat_min us)
  then have b: "b = backoff_of (min (streak_of p + 1) 255) min_ns max_ns" by (simp only: b_def backoff_of_def)
  have "unat u \<le> 2 ^ 56 - 1" unfolding u_def unat_min unat_mask_56 by simp
  then have u56: "unat u < 2 ^ 56" by simp
  have s8: "unat s < 2 ^ 8" using us by simp
  have c: "cooldown (record_failure k min_ns max_ns now p) = push_bit 56 s OR u"
    unfolding s_def b_def u_def cooldown_until_def COOLDOWN_STREAK_SHIFT_def [symmetric]
    by (cases p; simp only: record_failure_def Let_def failover_peer.select_convs failover_peer.update_convs)
  show "streak_of (record_failure k min_ns max_ns now p) = min (streak_of p + 1) 255"
    using us unfolding streak_of_def [of "record_failure k min_ns max_ns now p"] c COOLDOWN_STREAK_SHIFT_def
    by (simp only: pack_cooldown(1) [OF s8 u56])
  show "cooldown_until (record_failure k min_ns max_ns now p) =
     min (max (cooldown_until p) (sat_add now (backoff_of (min (streak_of p + 1) 255) min_ns max_ns))) COOLDOWN_UNTIL_MASK"
    unfolding cooldown_until_def [of "record_failure k min_ns max_ns now p"] c pack_cooldown(2) [OF s8 u56]
    by (simp only: u_def b)
qed

lemma backoff_value:
  "unat (backoff_of streak min_ns max_ns) = min (min (unat min_ns * 2 ^ min (streak - 1) 63) (2 ^ 64 - 1)) (unat max_ns)"
proof -
  have "min (streak - 1) 63 < 64" by simp
  then have "unat (push_bit (min (streak - 1) 63) (1 :: u64)) = 2 ^ min (streak - 1) 63"
    by (simp only: push_bit_eq_mult mult_1 unat_power_u64)
  then show ?thesis by (simp add: backoff_of_def unat_min unat_sat_mul)
qed

lemma record_failure_cools:
  "cooling_down t (record_failure k min_ns max_ns now p) \<longleftrightarrow>
     unat t < min (max (unat (cooldown_until p)) (unat now + min (unat min_ns * 2 ^ min (streak_of p) 63) (unat max_ns))) (2 ^ 56 - 1)"
proof -
  define b where "b = backoff_of (min (streak_of p + 1) 255) min_ns max_ns"
  define B where "B = min (unat min_ns * 2 ^ min (streak_of p) 63) (unat max_ns)"
  have e: "min (min (streak_of p + 1) 255 - 1) 63 = min (streak_of p) 63" by simp
  have mx: "unat max_ns \<le> 2 ^ 64 - 1" using unsigned_less [of max_ns, where ?'a = nat] by simp
  have "unat b = min (min (unat min_ns * 2 ^ min (streak_of p) 63) (2 ^ 64 - 1)) (unat max_ns)"
    unfolding b_def backoff_value e ..
  then have b: "unat b = B" using mx by (simp add: B_def min_def)
  have "cooling_down t (record_failure k min_ns max_ns now p) \<longleftrightarrow>
      min (unat t) (2 ^ 56 - 1) < min (max (unat (cooldown_until p)) (unat (sat_add now b))) (2 ^ 56 - 1)"
    unfolding cooling_down_def record_failure_cooldown(2) b_def [symmetric]
    by (simp only: word_less_nat_alt unat_min unat_max unat_mask_56)
  also have "\<dots> \<longleftrightarrow> unat t < min (max (unat (cooldown_until p)) (unat now + B)) (2 ^ 56 - 1)"
    unfolding unat_sat_add b by auto
  finally show ?thesis unfolding B_def .
qed

lemma clear_cooldown_ready: "\<not> cooling_down t (clear_cooldown p)"
  by (simp add: cooling_down_def cooldown_until_def clear_cooldown_def)

subsection \<open>The peers to try\<close>

lemma rotation_eq: "map (\<lambda>k. xs ! ((first + k) mod length xs)) [0..<length xs] = rotate first xs"
  by (rule nth_equalityI) (simp_all add: nth_rotate)

lemma mset_rotate_eq: "mset (rotate n xs) = mset xs"
proof (induction n)
  case (Suc n)
  have "mset (rotate1 ys) = mset ys" for ys :: "'a list" by (cases ys) simp_all
  then show ?case using Suc by simp
qed simp

lemma candidates_spec:
  assumes "candidates w now wait f = (n, cs, f')" "fo_peers f \<noteq> []"
  defines "ready \<equiv> filter (\<lambda>i. \<not> cooling_down now (peers w ! i)) (fo_peers f)"
  shows "n = length cs" "mset ready \<subseteq># mset cs" "set cs \<subseteq> set (fo_peers f)" "fo_peers f' = fo_peers f"
    "fo_status f' = fo_status f" "cooldown_min_ns f' = cooldown_min_ns f" "cooldown_max_ns f' = cooldown_max_ns f"
    "ready \<noteq> [] \<Longrightarrow> mset cs = mset ready" "wait \<Longrightarrow> cs \<noteq> []"
    "ready = [] \<Longrightarrow> wait \<Longrightarrow> \<exists>i \<in> set (fo_peers f). cs = [i] \<and> (\<forall>j \<in> set (fo_peers f). cooldown_until (peers w ! i) \<le> cooldown_until (peers w ! j))"
proof -
  let ?P = "\<lambda>i. \<not> cooling_down now (peers w ! i)"
  define first where "first = (if length (fo_peers f) = 1 then 0 else unat (cursor f) mod length (fo_peers f))"
  define rot where "rot = filter ?P (rotate first (fo_peers f))"
  have rot: "mset rot = mset ready" by (simp add: rot_def ready_def mset_filter mset_rotate_eq)
  then have l: "length rot = length ready" by (metis size_mset)
  define earliest where "earliest = (if length ready = 0 \<and> wait then min_by_key (\<lambda>i. cooldown_until (peers w ! i)) (fo_peers f) else None)"
  have "candidates w now wait f = (max (length ready) (if earliest = None then 0 else 1),
      rot @ (case earliest of Some i \<Rightarrow> [i] | None \<Rightarrow> []),
      if length (fo_peers f) = 1 then f else f\<lparr>cursor := cursor f + 1\<rparr>)"
    unfolding candidates_def Let_def ready_def first_def earliest_def rot_def rotation_eq
    by (cases "length (fo_peers f) = 1") (simp_all only: if_True if_False prod.case rotation_eq simp_thms)
  then have c: "n = max (length ready) (if earliest = None then 0 else 1)"
    "cs = rot @ (case earliest of Some i \<Rightarrow> [i] | None \<Rightarrow> [])"
    "f' = (if length (fo_peers f) = 1 then f else f\<lparr>cursor := cursor f + 1\<rparr>)" using assms(1) by simp_all
  show "n = length cs" using c(1,2) l by (auto simp: earliest_def split: option.splits)
  show "mset ready \<subseteq># mset cs" using c(2) rot by simp
  have "set rot \<subseteq> set (fo_peers f)" by (auto simp: rot_def)
  then show "set cs \<subseteq> set (fo_peers f)"
    using c(2) by (auto simp: earliest_def split: option.splits if_splits dest: min_by_key_in)
  show "fo_peers f' = fo_peers f" "fo_status f' = fo_status f" "cooldown_min_ns f' = cooldown_min_ns f"
    "cooldown_max_ns f' = cooldown_max_ns f" using c(3) by simp_all
  show "ready \<noteq> [] \<Longrightarrow> mset cs = mset ready" using c(2) rot by (simp add: earliest_def)
  show "wait \<Longrightarrow> cs \<noteq> []"
    using c(2) assms(2) l by (cases "ready = []") (auto simp: earliest_def split: option.splits)
  show "\<exists>i \<in> set (fo_peers f). cs = [i] \<and> (\<forall>j \<in> set (fo_peers f). cooldown_until (peers w ! i) \<le> cooldown_until (peers w ! j))"
    if "ready = []" wait
  proof -
    have e: "earliest = min_by_key (\<lambda>i. cooldown_until (peers w ! i)) (fo_peers f)"
      using that by (simp add: earliest_def)
    have "min_by_key (\<lambda>i. cooldown_until (peers w ! i)) (fo_peers f) \<noteq> None" using assms(2) by simp
    then obtain i where i: "min_by_key (\<lambda>i. cooldown_until (peers w ! i)) (fo_peers f) = Some i" "earliest = Some i"
      unfolding e by blast
    moreover have "cs = [i]" using c(2) i l that by simp
    ultimately show ?thesis using min_by_key_in [OF i(1)] min_by_key_least [OF i(1)] by blast
  qed
qed

subsection \<open>Forwarding\<close>

definition handed :: "world \<Rightarrow> (u64 \<times> u64) list" where
  "handed w = map (\<lambda>p. (forwarded p, spilled p)) (peers w)"

fun bump :: "forward_mode \<Rightarrow> u64 \<times> u64 \<Rightarrow> u64 \<times> u64" where
  "bump (SpillTo _) (a, b) = (a, b + 1)"
| "bump _ (a, b) = (a + 1, b)"

lemma peers_update [simp]: "peers (update_status st f w) = peers w"
  by (simp add: update_status_def)

lemma handed_status [simp]: "handed (update_status st f w) = handed w"
  by (simp add: handed_def)

lemma record_failure_keeps [simp]:
  "forwarded (record_failure k mn mx now p) = forwarded p" "spilled (record_failure k mn mx now p) = spilled p"
  "peer_addr (record_failure k mn mx now p) = peer_addr p"
  by (cases p; simp only: record_failure_def Let_def failover_peer.select_convs failover_peer.update_convs)+

lemma handed_failure [simp]: "handed (update_peer i (record_failure k mn mx now) w) = handed w"
  by (cases "i < length (peers w)") (simp_all add: handed_def update_peer_def map_update list_update_same_conv list_update_beyond not_less)

lemma handed_hand_over [simp]:
  "i < length (peers w) \<Longrightarrow>
   handed (update_peer i (\<lambda>p. hand_over mode (clear_cooldown p)) w) = (handed w)[i := bump mode (handed w ! i)]"
  by (cases mode) (simp_all add: handed_def update_peer_def hand_over_def clear_cooldown_def map_update)

lemma length_peers_update [simp]: "length (peers (update_peer i f w)) = length (peers w)"
  by (simp add: update_peer_def)

lemma peer_addr_failure [simp]:
  "peer_addr (peers (update_peer i (record_failure k mn mx now) w) ! j) = peer_addr (peers w ! j)"
  by (cases "j = i"; cases "i < length (peers w)")
    (simp_all add: update_peer_def list_update_beyond not_less)

definition gave_up :: "forward_env \<Rightarrow> forward_mode \<Rightarrow> nat \<Rightarrow> forwarded" where
  "gave_up env mode handshake = (if mode = Down then Done (Some UpstreamConnect) else ServeLocally (handshake - fe_gave_up env))"

lemma give_up_eq:
  "fst (give_up env mode handshake st w) = gave_up env mode handshake" "handed (snd (give_up env mode handshake st w)) = handed w"
  by (simp_all add: give_up_def gave_up_def)

definition handed_to :: "forward_env \<Rightarrow> forward_mode \<Rightarrow> nat set \<Rightarrow> world \<Rightarrow> forwarded \<times> world \<Rightarrow> bool" where
  "handed_to env mode is w out \<longleftrightarrow>
     (\<exists>i \<in> is. handed (snd out) = (handed w)[i := bump mode (handed w ! i)]) \<and>
     fst out = Done (if fe_hello_read env then fe_tunnel env else Some StreamError)"

definition kept_here :: "forward_env \<Rightarrow> forward_mode \<Rightarrow> nat \<Rightarrow> world \<Rightarrow> forwarded \<times> world \<Rightarrow> bool" where
  "kept_here env mode handshake w out \<longleftrightarrow> handed (snd out) = handed w \<and> fst out = gave_up env mode handshake"

lemma kept_give_up: "handed w' = handed w \<Longrightarrow> kept_here env mode handshake w (give_up env mode handshake st w')"
  by (simp add: kept_here_def give_up_eq)

lemma peer_loop_single:
  "\<forall>i \<in> set is. i < length (peers w) \<Longrightarrow>
   kept_here env mode handshake w (peer_loop env f mode handshake pre n k is w) \<or>
   handed_to env mode (set is) w (peer_loop env f mode handshake pre n k is w)"
proof (induction env f mode handshake pre n k "is" w rule: peer_loop.induct)
  case (1 env f mode handshake pre n k w)
  then show ?case by (simp add: kept_give_up)
next
  case (2 env f mode handshake pre n k i "is" w)
  let ?w1 = "if 0 < k then update_status (fo_status f) (\<lambda>s. s\<lparr>replays := replays s + 1\<rparr>) w else w"
  let ?rem = "forward_budget mode handshake - fe_elapsed env k"
  let ?o = "attempt_result (fe_outcome env k (peer_addr (peers ?w1 ! i)) pre (?rem div max (n - k) 1))"
  have h: "handed ?w1 = handed w" "length (peers ?w1) = length (peers w)" by simp_all
  show ?case
  proof (cases "?rem = 0")
    case True
    then show ?thesis by (simp add: kept_give_up)
  next
    case False
    show ?thesis
    proof (cases ?o)
      case None
      then have "peer_loop env f mode handshake pre n k (i # is) w =
          (Done (if fe_hello_read env then fe_tunnel env else Some StreamError),
           update_peer i (\<lambda>p. hand_over mode (clear_cooldown p)) ?w1)"
        using False by (simp add: Let_def)
      then show ?thesis using "2.prems" h by (simp add: handed_to_def)
    next
      case (Some failure)
      let ?w2 = "update_peer i (record_failure failure (cooldown_min_ns f) (cooldown_max_ns f) (fe_clock env k)) ?w1"
      have "peer_loop env f mode handshake pre n k (i # is) w = peer_loop env f mode handshake pre n (k + 1) is ?w2"
        using Some False by (simp add: Let_def)
      moreover have "\<forall>i \<in> set is. i < length (peers ?w2)" using "2.prems" by simp
      note IH = "2.IH" [OF refl False refl refl Some this]
      moreover have "handed ?w2 = handed w" by simp
      ultimately show ?thesis by (auto simp: kept_here_def handed_to_def)
    qed
  qed
qed

lemma peer_loop_reaches:
  "\<forall>i \<in> set is. i < length (peers w) \<Longrightarrow>
   \<forall>m. fe_elapsed env m < forward_budget mode handshake \<Longrightarrow>
   \<exists>i \<in> set is. \<forall>m share. attempt_result (fe_outcome env m (peer_addr (peers w ! i)) pre share) = None \<Longrightarrow>
   handed_to env mode (set is) w (peer_loop env f mode handshake pre n k is w)"
proof (induction env f mode handshake pre n k "is" w rule: peer_loop.induct)
  case (1 env f mode handshake pre n k w)
  then show ?case by simp
next
  case (2 env f mode handshake pre n k i "is" w)
  let ?w1 = "if 0 < k then update_status (fo_status f) (\<lambda>s. s\<lparr>replays := replays s + 1\<rparr>) w else w"
  let ?rem = "forward_budget mode handshake - fe_elapsed env k"
  let ?o = "attempt_result (fe_outcome env k (peer_addr (peers ?w1 ! i)) pre (?rem div max (n - k) 1))"
  have h: "handed ?w1 = handed w" "length (peers ?w1) = length (peers w)" by simp_all
  have rem: "?rem \<noteq> 0" using "2.prems"(2) by (simp add: not_le)
  show ?case
  proof (cases ?o)
    case None
    then have "peer_loop env f mode handshake pre n k (i # is) w =
        (Done (if fe_hello_read env then fe_tunnel env else Some StreamError),
         update_peer i (\<lambda>p. hand_over mode (clear_cooldown p)) ?w1)"
      using rem by (simp add: Let_def)
    then show ?thesis using "2.prems" h by (simp add: handed_to_def)
  next
    case (Some failure)
    let ?w2 = "update_peer i (record_failure failure (cooldown_min_ns f) (cooldown_max_ns f) (fe_clock env k)) ?w1"
    have e: "peer_loop env f mode handshake pre n k (i # is) w = peer_loop env f mode handshake pre n (k + 1) is ?w2"
      using Some rem by (simp add: Let_def)
    have "\<not> (\<forall>m share. attempt_result (fe_outcome env m (peer_addr (peers w ! i)) pre share) = None)"
    proof
      assume "\<forall>m share. attempt_result (fe_outcome env m (peer_addr (peers w ! i)) pre share) = None"
      then have "?o = None" by simp
      then show False using Some by simp
    qed
    then have ex: "\<exists>i \<in> set is. \<forall>m share. attempt_result (fe_outcome env m (peer_addr (peers ?w2 ! i)) pre share) = None"
      using "2.prems"(3) by auto
    have "\<forall>i \<in> set is. i < length (peers ?w2)" using "2.prems" by simp
    from "2.IH" [OF refl rem refl refl Some this "2.prems"(2) ex]
    show ?thesis unfolding e by (auto simp: handed_to_def)
  qed
qed

definition wf_refs :: "world \<Rightarrow> failover \<Rightarrow> bool" where
  "wf_refs w f \<longleftrightarrow> fo_peers f \<noteq> [] \<and> (\<forall>i \<in> set (fo_peers f). i < length (peers w))"

lemma candidates_for_spec:
  assumes "candidates_for w mode now f = (n, cs, f')" "fo_peers f \<noteq> []"
  shows "n = length cs" "set cs \<subseteq> set (fo_peers f)" "fo_status f' = fo_status f"
proof -
  have "n = length cs \<and> set cs \<subseteq> set (fo_peers f) \<and> fo_status f' = fo_status f"
  proof (cases mode)
    case (SpillTo i)
    then show ?thesis using assms by (auto simp: candidates_for_def split: if_splits)
  qed (use assms candidates_spec [where w = w and now = now and f = f] in \<open>auto simp: candidates_for_def\<close>)
  then show "n = length cs" "set cs \<subseteq> set (fo_peers f)" "fo_status f' = fo_status f" by simp_all
qed

lemma handed_failovers [simp]: "handed (w\<lparr>failovers := fs\<rparr>) = handed w"
  by (simp add: handed_def)

lemma kept_UpstreamConnect: "kept_here env Down handshake w (Done (Some UpstreamConnect), w)"
  by (simp add: kept_here_def gave_up_def)

lemma forward_to_peers_single:
  fixes w :: world
  assumes "wf_refs w (failovers w ! fref)"
    and out_def: "out = forward_to_peers env hello_complete hello_length fref mode handshake now peer local_addr w"
  shows "kept_here env mode handshake w out \<or>
    (hello_complete \<and> handed_to env mode (set (fo_peers (failovers w ! fref))) w out)"
proof -
  obtain n cs f' where c: "candidates_for w mode now (failovers w ! fref) = (n, cs, f')" by (cases "candidates_for w mode now (failovers w ! fref)")
  let ?w1 = "w\<lparr>failovers := (failovers w)[fref := f']\<rparr>"
  have cs: "set cs \<subseteq> set (fo_peers (failovers w ! fref))"
    using candidates_for_spec(2) [OF c] assms(1) by (simp add: wf_refs_def)
  then have "\<forall>i \<in> set cs. i < length (peers ?w1)" using assms(1) by (auto simp: wf_refs_def)
  note single = peer_loop_single [OF this]
  have "kept_here env mode handshake w (peer_loop env f' mode handshake pre n k cs ?w1) \<or>
    handed_to env mode (set (fo_peers (failovers w ! fref))) w (peer_loop env f' mode handshake pre n k cs ?w1)" for pre k
    using single [of env mode handshake f' pre n k] cs by (auto simp: kept_here_def handed_to_def)
  then show ?thesis
    unfolding out_def forward_to_peers_def Let_def c
    by (auto simp: kept_give_up kept_UpstreamConnect split: option.split)
qed

lemma forward_to_peers_reaches:
  fixes w :: world
  assumes "wf_refs w (failovers w ! fref)" "hello_complete" "hello_length = length seen" "seen \<noteq> []"
    and "fe_peek env = Some seen" "proxy_v2_header peer local_addr [] = Some h"
    and "\<forall>m. fe_elapsed env m < forward_budget mode handshake" "mode = Down \<or> mode = Drain"
    and "i \<in> set (fo_peers (failovers w ! fref))" "\<not> cooling_down now (peers w ! i)"
    and "\<forall>m share. fe_outcome env m (peer_addr (peers w ! i)) (h @ seen) share = FirstByte"
  shows "handed_to env mode (set (fo_peers (failovers w ! fref))) w
    (forward_to_peers env hello_complete hello_length fref mode handshake now peer local_addr w)"
proof -
  obtain n cs f' where c: "candidates w now (mode \<noteq> Drain) (failovers w ! fref) = (n, cs, f')"
    by (cases "candidates w now (mode \<noteq> Drain) (failovers w ! fref)")
  let ?w1 = "w\<lparr>failovers := (failovers w)[fref := f']\<rparr>"
  note spec = candidates_spec [OF c]
  have ne: "fo_peers (failovers w ! fref) \<noteq> []" using assms(1) by (simp add: wf_refs_def)
  have "i \<in># mset (filter (\<lambda>i. \<not> cooling_down now (peers w ! i)) (fo_peers (failovers w ! fref)))" using assms(9,10) by simp
  then have ics: "i \<in> set cs" using spec(2) [OF ne] by (meson mset_subset_eqD in_multiset_in_set set_mset_mset)
  then have n: "n \<noteq> 0" using spec(1) [OF ne] by auto
  have "\<forall>i \<in> set cs. i < length (peers ?w1)" using spec(3) [OF ne] assms(1) by (auto simp: wf_refs_def)
  moreover have "\<exists>i \<in> set cs. \<forall>m share. attempt_result (fe_outcome env m (peer_addr (peers ?w1 ! i)) (h @ seen) share) = None"
    using assms(11) by (intro bexI [OF _ ics]) simp
  ultimately have "handed_to env mode (set cs) ?w1 (peer_loop env f' mode handshake (h @ seen) n 0 cs ?w1)"
    using assms(7) peer_loop_reaches by blast
  then have "handed_to env mode (set (fo_peers (failovers w ! fref))) w (peer_loop env f' mode handshake (h @ seen) n 0 cs ?w1)"
    using spec(3) [OF ne] by (auto simp: handed_to_def)
  moreover have "candidates_for w mode now (failovers w ! fref) = (n, cs, f')"
    using c assms(8) by (auto simp: candidates_for_def)
  ultimately show ?thesis
    using assms(2-6) n unfolding forward_to_peers_def Let_def by simp
qed

subsection \<open>The spill controller\<close>

lemma best_peer_spec:
  assumes "best_peer policy now_ms ps = Some (t, pl, until)"
  shows "t < length ps" "pv_load (ps ! t) = Some pl" "until = report_until_ms (ps ! t)" "eligible policy now_ms (ps ! t)"
    "j < length ps \<Longrightarrow> eligible policy now_ms (ps ! j) \<Longrightarrow> pv_load (ps ! j) = Some l \<Longrightarrow> pl \<le> l"
proof -
  let ?xs = "List.map_filter (\<lambda>(i, p). map_option (\<lambda>l. (i, l, report_until_ms p)) (pv_load p))
         (filter (\<lambda>(_, p). eligible policy now_ms p) (enumerate 0 ps))"
  have m: "(a, b, c) \<in> set ?xs \<longleftrightarrow> a < length ps \<and> eligible policy now_ms (ps ! a) \<and> pv_load (ps ! a) = Some b \<and> c = report_until_ms (ps ! a)" for a b c
    by (force simp: List.map_filter_def enumerate_mem image_iff)
  have "(t, pl, until) \<in> set ?xs" using assms unfolding best_peer_def by (rule min_by_key_in)
  then show "t < length ps" "pv_load (ps ! t) = Some pl" "until = report_until_ms (ps ! t)" "eligible policy now_ms (ps ! t)"
    unfolding m by simp_all
  assume "j < length ps" "eligible policy now_ms (ps ! j)" "pv_load (ps ! j) = Some l"
  then have "(j, l, report_until_ms (ps ! j)) \<in> set ?xs" unfolding m by simp
  from min_by_key_least [OF assms [unfolded best_peer_def] this] show "pl \<le> l" by simp
qed

lemma assess_target:
  assumes "assess policy (Some (l, lu)) ps now_ms = (tr, Some (t, until))"
  shows "\<exists>pl. t < length ps \<and> pv_load (ps ! t) = Some pl \<and> eligible policy now_ms (ps ! t) \<and>
    2 * unat pl + unat (margin policy) \<le> 2 * unat l \<and>
    now_ms < until \<and> until = min lu (report_until_ms (ps ! t)) \<and>
    (\<forall>j l'. j < length ps \<and> eligible policy now_ms (ps ! j) \<and> pv_load (ps ! j) = Some l' \<longrightarrow> pl \<le> l')"
proof -
  obtain target pl u where b: "best_peer policy now_ms ps = Some (target, pl, u)" "now_ms < lu"
    using assms by (auto simp: assess_def split: option.splits if_splits)
  note spec = best_peer_spec [OF b(1)]
  have t: "t = target" "until = min lu u" "2 * unat pl + unat (margin policy) \<le> 2 * unat l"
    using assms b by (auto simp: assess_def Let_def split: if_splits)
  have "now_ms < u" using spec(3,4) by (simp add: eligible_def)
  then show ?thesis using t spec b(2) by auto
qed

lemma assess_no_local: "assess policy None ps now_ms = (Decay, None)"
  by (simp add: assess_def)

lemma assess_target_local: "assess policy ll ps now_ms = (tr, Some x) \<Longrightarrow> \<exists>l lu. ll = Some (l, lu)"
  by (cases ll) (auto simp: assess_no_local)

definition ctl_inv :: "spill_policy \<Rightarrow> spill_state \<Rightarrow> bool" where
  "ctl_inv policy s \<longleftrightarrow> (\<exists>x. ctl_fraction s = Fin x \<and> 0 \<le> x \<and> x \<le> of_nat (unat (max_fraction policy)))"

lemma control_moved:
  assumes "step policy = Fin st" "ctl_fraction s = Fin x" "n < 2 ^ 53"
  shows "(case tr of Rise \<Rightarrow> f64_add (ctl_fraction s) (f64_div (f64_mul (step policy) (f64_of_nat n)) (Fin 1000000000))
    | Hold \<Rightarrow> ctl_fraction s
    | Decay \<Rightarrow> f64_sub (ctl_fraction s) (f64_div (f64_mul (step policy) (f64_of_nat n)) (Fin 1000000000))) \<noteq> NaN"
proof -
  have "f64_div (f64_mul (step policy) (f64_of_nat n)) (Fin 1000000000) \<noteq> NaN"
    using assms by (intro f64_div_not_NaN) (simp_all add: f64_of_nat_exact rnd_not_NaN)
  then show ?thesis using assms f64_add_not_NaN by (simp split: trend.split)
qed

lemma control_elapsed: "unat (if b then 0 else min d MAX_CONTROL_STEP_NS) < 2 ^ 53"
  by (simp add: unat_min MAX_CONTROL_STEP_NS_def min_less_iff_disj)

lemma control_spec:
  assumes ctl: "control policy ll ps now s = (adm, s')"
    and wf: "step policy = Fin st" "unat (max_fraction policy) \<le> 1000" "ctl_inv policy s"
  shows "ctl_inv policy s'" "ctl_last_ns s' = now" "packed_admission s' = (case adm of Some a \<Rightarrow> pack a | None \<Rightarrow> 0)"
    "adm = Some a \<Longrightarrow> 0 < adm_fraction a \<and> adm_fraction a \<le> max_fraction policy \<and>
       (\<exists>tr. assess policy ll ps (now div 1000000) = (tr, Some (adm_target a, adm_until_ms a)))"
proof -
  obtain tr target where as: "assess policy ll ps (now div 1000000) = (tr, target)" by fastforce
  obtain x where x: "ctl_fraction s = Fin x" using wf(3) by (auto simp: ctl_inv_def)
  let ?n = "unat (if ctl_last_ns s = 0 then 0 else min (sat_sub now (ctl_last_ns s)) MAX_CONTROL_STEP_NS)"
  define moved where "moved = (case tr of Rise \<Rightarrow> f64_add (ctl_fraction s) (f64_div (f64_mul (step policy) (f64_of_nat ?n)) (Fin 1000000000))
    | Hold \<Rightarrow> ctl_fraction s
    | Decay \<Rightarrow> f64_sub (ctl_fraction s) (f64_div (f64_mul (step policy) (f64_of_nat ?n)) (Fin 1000000000)))"
  have "moved \<noteq> NaN" unfolding moved_def by (rule control_moved [OF wf(1) x control_elapsed])
  moreover have mf: "f64_of_nat (unat (max_fraction policy)) = Fin (of_nat (unat (max_fraction policy)))"
    using wf(2) by (simp add: f64_of_nat_exact)
  ultimately obtain y where y: "f64_clamp moved (Fin 0) (f64_of_nat (unat (max_fraction policy))) = Fin y" "0 \<le> y" "y \<le> of_nat (unat (max_fraction policy))"
    using clamp_Fin [of moved 0 "of_nat (unat (max_fraction policy))"] by auto
  define adm' where "adm' = (case target of
              Some (t, until_ms) \<Rightarrow>
                (let fr = f64_to_u32 (f64_round (Fin y))
                 in if 0 < fr then Some \<lparr>adm_fraction = fr, adm_target = t, adm_until_ms = until_ms\<rparr> else None)
            | None \<Rightarrow> None)"
  have c: "control policy ll ps now s = (adm', \<lparr>packed_admission = (case adm' of Some a \<Rightarrow> pack a | None \<Rightarrow> 0),
                ctl_fraction = Fin y, ctl_last_ns = now\<rparr>)"
    unfolding control_def Let_def as prod.case moved_def [symmetric] y(1) adm'_def ..
  then have e: "adm = adm'" "s' = \<lparr>packed_admission = (case adm of Some a \<Rightarrow> pack a | None \<Rightarrow> 0),
                ctl_fraction = Fin y, ctl_last_ns = now\<rparr>" using ctl by simp_all
  show "ctl_inv policy s'" "ctl_last_ns s' = now" "packed_admission s' = (case adm of Some a \<Rightarrow> pack a | None \<Rightarrow> 0)"
    using e(2) y by (simp_all add: ctl_inv_def)
  have fr: "f64_to_u32 (f64_round (Fin y)) \<le> max_fraction policy"
    using round_le [OF y(2,3)] wf(2) by (simp add: word_le_nat_alt)
  show "0 < adm_fraction a \<and> adm_fraction a \<le> max_fraction policy \<and>
       (\<exists>tr. assess policy ll ps (now div 1000000) = (tr, Some (adm_target a, adm_until_ms a)))" if "adm = Some a"
    using that fr as unfolding e(1) adm'_def
    by (auto simp: Let_def split: option.splits if_splits simp del: f64_round.simps f64_to_word.simps)
qed

lemma control_published:
  assumes "control policy ll ps now s = (adm, s')" "step policy = Fin st" "unat (max_fraction policy) \<le> 1000" "ctl_inv policy s"
    and "length ps \<le> 65536" "\<And>l lu. ll = Some (l, lu) \<Longrightarrow> unat lu < 2 ^ 38"
  shows "unpack (packed_admission s') = adm"
proof (cases adm)
  case None
  then show ?thesis using control_spec(3) [OF assms(1-4)] by (simp add: unpack_def)
next
  case (Some a)
  note sp = control_spec(4) [OF assms(1-4) Some]
  then obtain tr where as: "assess policy ll ps (now div 1000000) = (tr, Some (adm_target a, adm_until_ms a))" by blast
  then obtain l lu where ll: "ll = Some (l, lu)" using assess_target_local by blast
  from assess_target [OF as [unfolded ll]]
  have t: "adm_target a < length ps" "adm_until_ms a = min lu (report_until_ms (ps ! adm_target a))" by blast+
  then have u: "unat (adm_until_ms a) < 2 ^ 38" using assms(6) [OF ll] by (simp add: unat_min)
  have f: "unat (adm_fraction a) \<le> 1000" using sp assms(3) by (simp add: word_le_nat_alt)
  have "unpack (pack a) = Some a" by (rule unpack_pack) (use sp f t(1) u assms(5) in simp_all)
  then show ?thesis using control_spec(3) [OF assms(1-4)] Some by simp
qed

subsection \<open>Recovery probe\<close>

lemma apply_probes_exact:
  assumes "h < length (healths st)" "\<forall>(e, h', observed) \<in> set ps. observed \<noteq> 0"
  shows "healths (apply_probes alive ps st) ! h =
      (if \<exists>e. (e, h, healths st ! h) \<in> set ps \<and> alive e then 0 else healths st ! h) \<and>
    length (healths (apply_probes alive ps st)) = length (healths st)"
  using assms
proof (induction alive ps st rule: apply_probes.induct)
  case (2 alive e h' observed rest st)
  let ?st = "if alive e then snd (clear_if_unchanged observed h' st) else st"
  have l: "length (healths ?st) = length (healths st)" by (simp add: clear_if_unchanged_def)
  have IH: "healths (apply_probes alive rest ?st) ! h =
      (if \<exists>e. (e, h, healths ?st ! h) \<in> set rest \<and> alive e then 0 else healths ?st ! h) \<and>
    length (healths (apply_probes alive rest ?st)) = length (healths ?st)"
    using 2 l by simp
  have nz: "observed \<noteq> 0" "(x, h, 0) \<notin> set rest" for x using "2.prems"(2) by auto
  show ?case
  proof (cases "alive e \<and> h' = h \<and> healths st ! h = observed")
    case True
    then have "healths ?st ! h = 0" using "2.prems"(1) by (simp add: clear_if_unchanged_def)
    then have "healths (apply_probes alive rest ?st) ! h = 0" using IH by simp
    then show ?thesis using True IH l by auto
  next
    case False
    then have "healths ?st ! h = healths st ! h" by (cases "h' = h") (auto simp: clear_if_unchanged_def)
    then show ?thesis using IH l False by auto
  qed
qed simp

lemma route_due_observed: "(e, h, observed) \<in> set (route_due w now r) \<Longrightarrow> observed = healths (base w) ! h \<and> observed \<noteq> 0"
  by (auto simp: route_due_def Let_def split: if_splits)

lemma base_update_status [simp]: "base (update_status st f w) = base w" "failovers (update_status st f w) = failovers w"
    "identities (update_status st f w) = identities w"
  by (simp_all add: update_status_def)

lemma collect_due_observed:
  "(e, h, observed) \<in> set (fst (collect_due now rs w)) \<Longrightarrow> observed = healths (base w) ! h \<and> observed \<noteq> 0"
proof (induction now rs w rule: collect_due.induct)
  case (2 now r rs w)
  let ?w1 = "if route_due w now r = [] then w
             else update_status (fo_status (failovers w ! fr_failover r)) (\<lambda>s. s\<lparr>last_probe_ns := now\<rparr>) w"
  have "(e, h, observed) \<in> set (route_due w now r) \<or> (e, h, observed) \<in> set (fst (collect_due now rs ?w1))"
    using "2.prems" by (auto simp: Let_def split: prod.splits)
  then show ?case
  proof
    assume "(e, h, observed) \<in> set (fst (collect_due now rs ?w1))"
    then have "observed = healths (base ?w1) ! h \<and> observed \<noteq> 0" using "2.IH" by blast
    then show ?thesis by (auto split: if_splits)
  qed (rule route_due_observed)
qed simp

subsection \<open>Health transitions\<close>

definition status_of :: "world \<Rightarrow> failover_route \<Rightarrow> nat" where
  "status_of w r = fo_status (failovers w ! fr_failover r)"

lemma fr_locally_down_status [simp]: "fr_locally_down (update_status st f w) r = fr_locally_down w r"
  by (simp add: fr_locally_down_def locally_down_def down_dest_def cong: destination.case_cong option.case_cong)

lemma status_of_status [simp]: "status_of (update_status st f w) = status_of w"
  by (rule ext) (simp add: status_of_def)

lemma report_health_exact:
  assumes "\<forall>k. queued k" "distinct (map (status_of w) rs)" "\<forall>r \<in> set rs. status_of w r < length (statuses w)"
  shows "fst (report_health queued n rs w) =
      map (\<lambda>r. (id_route (identities w ! fr_identity r), id_group (identities w ! fr_identity r), \<not> fr_locally_down w r))
        (filter (\<lambda>r. reported_down (statuses w ! status_of w r) \<noteq> fr_locally_down w r) rs) \<and>
    (\<forall>i < length (statuses w). reported_down (statuses (snd (report_health queued n rs w)) ! i) =
      (case find (\<lambda>r. status_of w r = i) rs of Some r \<Rightarrow> fr_locally_down w r | None \<Rightarrow> reported_down (statuses w ! i)))"
  using assms
proof (induction rs arbitrary: n w)
  case (Cons r rs)
  let ?st = "status_of w r"
  have "?st \<notin> status_of w ` set rs" using Cons.prems(2) by simp
  then have nin: "\<forall>r' \<in> set rs. status_of w r' \<noteq> ?st" by (metis imageI)
  show ?case
  proof (cases "reported_down (statuses w ! ?st) \<noteq> fr_locally_down w r")
    case False
    then have e: "report_health queued n (r # rs) w = report_health queued n rs w"
      by (simp add: Let_def status_of_def)
    have "find (\<lambda>r. status_of w r = ?st) rs = None" using nin by (simp add: find_None_iff)
    moreover have "fst (report_health queued n rs w) =
      map (\<lambda>r. (id_route (identities w ! fr_identity r), id_group (identities w ! fr_identity r), \<not> fr_locally_down w r))
        (filter (\<lambda>r. reported_down (statuses w ! status_of w r) \<noteq> fr_locally_down w r) rs) \<and>
    (\<forall>i < length (statuses w). reported_down (statuses (snd (report_health queued n rs w)) ! i) =
      (case find (\<lambda>r. status_of w r = i) rs of Some r \<Rightarrow> fr_locally_down w r | None \<Rightarrow> reported_down (statuses w ! i)))"
      by (rule Cons.IH) (use Cons.prems in simp_all)
    ultimately show ?thesis using False unfolding e by auto
  next
    case True
    let ?w1 = "update_status ?st (\<lambda>s. s\<lparr>reported_down := fr_locally_down w r\<rparr>) w"
    have q: "queued n" using Cons.prems(1) by simp
    have e: "report_health queued n (r # rs) w =
        (let (evs, w2) = report_health queued (n + 1) rs ?w1
         in ((id_route (identities w ! fr_identity r), id_group (identities w ! fr_identity r), \<not> fr_locally_down w r) # evs, w2))"
      using True q by (simp add: Let_def status_of_def)
    have f: "find (\<lambda>r. status_of w r = ?st) rs = None" using nin by (simp add: find_None_iff)
    have same: "statuses ?w1 ! i = statuses w ! i" if "i \<noteq> ?st" for i using that by (simp add: update_status_def)
    have len: "length (statuses ?w1) = length (statuses w)" by (simp add: update_status_def)
    have d: "distinct (map (status_of ?w1) rs)" using Cons.prems(2) by simp
    have l: "\<forall>r \<in> set rs. status_of ?w1 r < length (statuses ?w1)" using Cons.prems(3) len by simp
    have IH: "fst (report_health queued (n + 1) rs ?w1) =
      map (\<lambda>r. (id_route (identities w ! fr_identity r), id_group (identities w ! fr_identity r), \<not> fr_locally_down w r))
        (filter (\<lambda>r. reported_down (statuses ?w1 ! status_of w r) \<noteq> fr_locally_down w r) rs) \<and>
    (\<forall>i < length (statuses w). reported_down (statuses (snd (report_health queued (n + 1) rs ?w1)) ! i) =
      (case find (\<lambda>r. status_of w r = i) rs of Some r \<Rightarrow> fr_locally_down w r | None \<Rightarrow> reported_down (statuses ?w1 ! i)))"
      by (rule Cons.IH [OF Cons.prems(1) d l, of "n + 1",
            unfolded status_of_status fr_locally_down_status base_update_status len])
    have flt: "filter (\<lambda>r. reported_down (statuses ?w1 ! status_of w r) \<noteq> fr_locally_down w r) rs =
      filter (\<lambda>r. reported_down (statuses w ! status_of w r) \<noteq> fr_locally_down w r) rs"
      by (rule filter_cong [OF refl]) (use nin same in simp)
    have up: "reported_down (statuses ?w1 ! ?st) = fr_locally_down w r"
      using Cons.prems(3) by (simp add: update_status_def)
    have snd: "snd (report_health queued n (r # rs) w) = snd (report_health queued (n + 1) rs ?w1)"
      unfolding e by (simp add: Let_def split: prod.split)
    have fst: "fst (report_health queued n (r # rs) w) = (id_route (identities w ! fr_identity r), id_group (identities w ! fr_identity r), \<not> fr_locally_down w r) # fst (report_health queued (n + 1) rs ?w1)"
      unfolding e by (simp add: Let_def split: prod.split)
    show ?thesis unfolding snd fst using IH True flt up f same by (auto split: option.split)
  qed
qed simp

subsection \<open>Continuity over a reload\<close>

lemma adopt_peers_spec:
  assumes "adopt_peers previous addrs w = (refs, w')" "\<And>p. previous = Some p \<Longrightarrow> \<forall>i \<in> set (fo_peers p). i < length (peers w)"
  shows "length refs = length addrs \<and> (\<exists>fresh. peers w' = peers w @ fresh) \<and>
    (\<forall>k < length addrs. refs ! k < length (peers w') \<and> peer_addr (peers w' ! (refs ! k)) = addrs ! k \<and>
      (\<forall>p i. previous = Some p \<and> i \<in> set (fo_peers p) \<and> peer_addr (peers w ! i) = addrs ! k \<longrightarrow> refs ! k \<in> set (fo_peers p)))"
  using assms
proof (induction addrs arbitrary: w refs)
  case (Cons addr addrs)
  define old where "old = (case previous of Some p \<Rightarrow> find (\<lambda>i. peer_addr (peers w ! i) = addr) (fo_peers p) | None \<Rightarrow> None)"
  define ref where "ref = (case old of Some i \<Rightarrow> i | None \<Rightarrow> length (peers w))"
  define w1 where "w1 = (case old of Some i \<Rightarrow> w | None \<Rightarrow> w\<lparr>peers := peers w @ [failover_peer_new addr]\<rparr>)"
  obtain rest where rest: "adopt_peers previous addrs w1 = (rest, w')" "refs = ref # rest"
    using Cons.prems(1) by (auto simp: Let_def old_def [symmetric] ref_def w1_def split: prod.splits option.splits)
  obtain fresh where pre: "peers w1 = peers w @ fresh" by (cases old) (auto simp: w1_def)
  have valid: "\<forall>i \<in> set (fo_peers p). i < length (peers w1)" if "previous = Some p" for p
    using Cons.prems(2) [OF that] pre by auto
  note IH = Cons.IH [OF rest(1) valid]
  have old: "previous = Some p \<and> i \<in> set (fo_peers p) \<and> i < length (peers w) \<and> peer_addr (peers w ! i) = addr"
    if "old = Some i" "previous = Some p" for i p
    using that Cons.prems(2) by (auto simp: old_def find_Some_iff)
  have prev: "\<exists>p. previous = Some p" if "old = Some i" for i
    using that by (auto simp: old_def split: option.splits)
  have r: "ref < length (peers w1) \<and> peer_addr (peers w1 ! ref) = addr"
    using old prev by (cases old) (auto simp: ref_def w1_def failover_peer_new_def)
  have k0: "ref \<in> set (fo_peers p)" if "previous = Some p" "i \<in> set (fo_peers p)" "peer_addr (peers w ! i) = addr" for p i
  proof -
    have "old \<noteq> None" using that by (auto simp: old_def find_None_iff)
    then show ?thesis using old that by (auto simp: ref_def)
  qed
  have addr_w1: "peer_addr (peers w1 ! i) = peer_addr (peers w ! i)" if "previous = Some p" "i \<in> set (fo_peers p)" for p i
    using Cons.prems(2) [OF that(1)] that(2) pre by (simp add: nth_append)
  obtain fresh' where pre': "peers w' = peers w1 @ fresh'" using IH by blast
  have "refs ! k < length (peers w') \<and> peer_addr (peers w' ! (refs ! k)) = (addr # addrs) ! k \<and>
      (\<forall>p i. previous = Some p \<and> i \<in> set (fo_peers p) \<and> peer_addr (peers w ! i) = (addr # addrs) ! k \<longrightarrow> refs ! k \<in> set (fo_peers p))"
    if "k < length (addr # addrs)" for k
  proof (cases k)
    case 0
    then show ?thesis using r k0 pre' rest(2) by (auto simp: nth_append)
  next
    case (Suc k')
    have "refs ! k \<in> set (fo_peers p)"
      if "previous = Some p" "i \<in> set (fo_peers p)" "peer_addr (peers w ! i) = (addr # addrs) ! k" for p i
      using IH \<open>k < length (addr # addrs)\<close> Suc rest(2) that addr_w1 [OF that(1,2)] by (metis Suc_less_eq length_Cons nth_Cons_Suc)
    then show ?thesis using IH that Suc rest(2) by auto
  qed
  then show ?case using IH rest(2) pre pre' by auto
qed simp

end
