(* ===== verification/Wire_Properties.thy ===== *)
theory Wire_Properties
  imports Failover
begin

text \<open>
  The properties of what two nodes exchange (the PROXY protocol header and the load query), of the
  byte counters and of the route limiter.
\<close>

section \<open>PROXY protocol\<close>

text \<open>C30. Round trip of the PROXY protocol header: whatever follows it and whatever TLVs it carries (up to
  the receiver's limit), the receiving node reads back the client's address, an IPv4-mapped one as IPv4,
  and leaves exactly the bytes behind the header unread.\<close>

theorem proxy_header_roundtrip:
  assumes "wf_addr peer" "pred_option wf_addr local_addr"
    and "proxy_v2_header peer local_addr tlvs = Some h" "length h \<le> 16 + MAX_PAYLOAD"
  shows "read_proxy_v2 (h @ rest, e) = Inr (ProxyHeader (peer\<lparr>sa_ip := to_canonical (sa_ip peer)\<rparr>), rest, e)"
  using assms by (rule read_written_header)

definition sample_peer :: socket_addr where
  "sample_peer = \<lparr>sa_ip = V4 [10, 0, 0, 1], sa_port = 443\<rparr>"

definition sample_header :: bytes where
  "sample_header = PROXY_V2_SIGNATURE @ [0x21, 0x11, 0, 12, 10, 0, 0, 1, 127, 0, 0, 1, 1, 187, 0, 0]"

lemma sample_header: "proxy_v2_header sample_peer None [] = Some sample_header"
  by code_simp

theorem proxy_header_roundtrip_witness:
  "read_proxy_v2 (sample_header @ str ''hello'', Closed) =
     Inr (ProxyHeader (sample_peer\<lparr>sa_ip := to_canonical (sa_ip sample_peer)\<rparr>), str ''hello'', Closed)"
  by (rule proxy_header_roundtrip [OF _ _ sample_header])
    (simp_all add: sample_peer_def wf_addr_def sample_header_def PROXY_V2_SIGNATURE_def MAX_PAYLOAD_def)

text \<open>The outcome of reading a header does not depend on how the network segments the bytes: what is
  decided on some bytes (a rejection, or a header and its length) is decided on every continuation.\<close>

theorem header_segmentation:
  assumes "prefix seen stream" "header_decision seen = Some r"
  shows "header_decision stream = Some r"
  using assms by (rule header_read.decide_prefix)

theorem header_segmentation_witness: "header_decision (str ''GET / HTTP/1.1 and more'') = Some (Inl RejectInvalid)"
proof -
  have "header_decision (str ''GET / HTTP/1.1 an'') = Some (Inl RejectInvalid)" by code_simp
  then show ?thesis by (rule header_segmentation [rotated]) (simp add: str_def)
qed

section \<open>Load queries\<close>

lemma query_chunks_answered:
  assumes "\<And>k c. c \<in> set cs \<Longrightarrow> c \<noteq> [] \<and> length c \<le> MAX_QUERY_NAMES"
    and "\<And>k bs. exchange k bs = (case read_proxy_v2 (bs, Silent) of
      Inr (LoadQuery ns, _) \<Rightarrow> Some (rtt_of k, encode_load_answer (map load ns)) | _ \<Rightarrow> None)"
  shows "\<exists>ls'. query_chunks exchange at_ms k cs first ls =
      (case first of Some r \<Rightarrow> Some r | None \<Rightarrow> if cs = [] then None else Some (rtt_of k), ls @ ls') \<and>
    map (map_option fst) ls' = map (\<lambda>n. Some (map_option (min 1000) (load (valid_name n)))) (concat cs)"
  using assms(1)
proof (induction cs arbitrary: k first ls)
  case (Cons c cs)
  have c: "c \<noteq> []" "length c \<le> MAX_QUERY_NAMES" using Cons.prems by simp_all
  let ?a = "encode_load_answer (map load (map valid_name c))"
  have x: "exchange k (encode_load_query c) = Some (rtt_of k, ?a)"
    using assms(2) read_load_query [OF c, of "[]" Silent] by simp
  have p: "parse_load_answer ?a (length c) = Some (map (map_option (min 1000)) (map load (map valid_name c)))"
    using parse_encoded_answer [of "map load (map valid_name c)"] by simp
  then have "length ?a \<le> max_load_answer_len (length c)"
    by (auto simp: parse_load_answer_def split: if_splits)
  then have t: "take (max_load_answer_len (length c) + 1) ?a = ?a" by simp
  let ?ls = "map (\<lambda>l. Some (l, at_ms k)) (map (map_option (min 1000)) (map load (map valid_name c)))"
  obtain ls' where ih: "query_chunks exchange at_ms (k + 1) cs
        (case first of Some r \<Rightarrow> Some r | None \<Rightarrow> Some (rtt_of k)) (ls @ ?ls) =
      (case first of Some r \<Rightarrow> Some r | None \<Rightarrow> Some (rtt_of k), (ls @ ?ls) @ ls')"
    "map (map_option fst) ls' = map (\<lambda>n. Some (map_option (min 1000) (load (valid_name n)))) (concat cs)"
    using Cons.IH [of "k + 1" "case first of Some r \<Rightarrow> Some r | None \<Rightarrow> Some (rtt_of k)" "ls @ ?ls"] Cons.prems
    by (cases first) auto
  have "query_chunks exchange at_ms k (c # cs) first ls =
      query_chunks exchange at_ms (k + 1) cs (case first of Some r \<Rightarrow> Some r | None \<Rightarrow> Some (rtt_of k)) (ls @ ?ls)"
    by (simp only: query_chunks.simps x option.case prod.case t p)
  then show ?case
    using ih by (intro exI [of _ "?ls @ ls'"]) (simp add: comp_def split: option.split)
qed (simp split: option.split)

text \<open>C29. A load query end to end: however many routes are asked about, a peer that answers each query as
  the ingress does gives this node, for every route in order, the peer's load (at most 1000 permille)
  or that it has none; the round-trip time is that of the first exchange.\<close>

theorem query_load_answered:
  assumes "names \<noteq> []"
    and "\<forall>k bs. exchange k bs = (case read_proxy_v2 (bs, Silent) of
      Inr (LoadQuery ns, _) \<Rightarrow> Some (rtt_of k, encode_load_answer (map load ns)) | _ \<Rightarrow> None)"
  shows "\<exists>answer. query_load exchange at_ms names = Some answer \<and> la_rtt answer = rtt_of 0 \<and>
    map (map_option fst) (la_loads answer) = map (\<lambda>n. Some (map_option (min 1000) (load (valid_name n)))) names"
proof -
  have ch: "concat (load_query_chunks names) = names" "\<And>c. c \<in> set (load_query_chunks names) \<Longrightarrow> c \<noteq> [] \<and> length c \<le> MAX_QUERY_NAMES"
    using chunks_spec [of MAX_QUERY_NAMES names] by (auto simp: load_query_chunks_def MAX_QUERY_NAMES_def)
  then have ne: "load_query_chunks names \<noteq> []" using assms(1) by auto
  obtain ls where q: "query_chunks exchange at_ms 0 (load_query_chunks names) None [] = (Some (rtt_of 0), ls)"
    and ls: "map (map_option fst) ls = map (\<lambda>n. Some (map_option (min 1000) (load (valid_name n)))) names"
    using query_chunks_answered [where first = None and ls = "[]" and k = 0 and cs = "load_query_chunks names"
        and exchange = exchange and rtt_of = rtt_of and load = load, OF ch(2) assms(2) [rule_format]] ne ch(1) by auto
  have "length ls = length names" using arg_cong [OF ls, of length] by simp
  then show ?thesis using q ls by (simp add: query_load_def)
qed

theorem query_load_answered_witness:
  "\<exists>answer. query_load (\<lambda>k bs. case read_proxy_v2 (bs, Silent) of
      Inr (LoadQuery ns, _) \<Rightarrow> Some (5, encode_load_answer (map (\<lambda>_. Some 300) ns)) | _ \<Rightarrow> None) (\<lambda>_. 7) [str ''app''] = Some answer \<and>
    la_rtt answer = 5 \<and> map (map_option fst) (la_loads answer) =
      map (\<lambda>n. Some (map_option (min 1000) (Some 300))) [str ''app'']"
  by (rule query_load_answered [where rtt_of = "\<lambda>_. 5" and load = "\<lambda>_. Some 300"]) simp_all

section \<open>Counters\<close>

text \<open>C40. The byte counters are exact once a connection's stream is dropped: whatever its reads and writes
  were, the listener's and the route's totals have grown by exactly the bytes moved (modulo \<open>2\<^sup>6\<^sup>4\<close>),
  although the stream publishes them in batches.\<close>

theorem byte_counts_exact:
  "lm_bytes_in (cs_listener (counting_drop (fold io_step events (counting_stream_new l r)))) =
     lm_bytes_in l + of_nat (bytes_read events) \<and>
   lm_bytes_out (cs_listener (counting_drop (fold io_step events (counting_stream_new l r)))) =
     lm_bytes_out l + of_nat (bytes_written events) \<and>
   map_option (\<lambda>r. (rm_bytes_in r, rm_bytes_out r))
       (cs_route (counting_drop (fold io_step events (counting_stream_new l r)))) =
     map_option (\<lambda>r. (rm_bytes_in r + of_nat (bytes_read events), rm_bytes_out r + of_nat (bytes_written events))) r"
  unfolding counting_drop_accounted accounted_run
  by (cases r) (simp_all add: accounted_def advance_def counting_stream_new_def)

section \<open>Route limiter\<close>

text \<open>C35. The route-global limiter refines the abstract bucket of the per-address limiter: its attempts give
  the same answers and the same tokens as that bucket's, so that over any stretch of time it admits at
  most its burst plus what its rate refills (and two thousandths of a connection for the rounding).\<close>

theorem route_limit_window:
  assumes "rb_rate_per_ns b = Fin r" "normal_rate r" "rb_tokens b \<le> rb_burst_fp b"
    and "bucket_run try_acquire (first # ts) b = (oks, b')" "\<forall>now \<in> set ts. now \<le> final" "first \<le> final"
  shows "bucket_run (\<lambda>now (t, l). refill_and_consume t l now (Fin r) (rb_burst_fp b)) (first # ts)
      (rb_tokens b, rb_last_refill_ns b) = (oks, rb_tokens b', rb_last_refill_ns b') \<and>
    of_nat (1000 * granted oks) \<le> of_nat (unat (rb_burst_fp b)) + rate_ub r * of_nat (unat final - unat first) + 2"
proof
  have run: "bucket_run (route_acquire r (rb_burst_fp b)) (first # ts) (rb_tokens b, rb_last_refill_ns b) =
      (oks, rb_tokens b', rb_last_refill_ns b')"
    by (rule bucket_run_try_acquire [OF assms(1,4)])
  have "route_acquire r (rb_burst_fp b) = (\<lambda>now (t, l). refill_and_consume t l now (Fin r) (rb_burst_fp b))"
    by (auto simp: fun_eq_iff try_acquire_refill_and_consume split: prod.splits)
  then show "bucket_run (\<lambda>now (t, l). refill_and_consume t l now (Fin r) (rb_burst_fp b)) (first # ts)
      (rb_tokens b, rb_last_refill_ns b) = (oks, rb_tokens b', rb_last_refill_ns b')"
    using run by simp
  show "of_nat (1000 * granted oks) \<le> of_nat (unat (rb_burst_fp b)) + rate_ub r * of_nat (unat final - unat first) + 2"
    by (rule route_bucket.run_window [OF assms(2) _ run]) (use assms in \<open>auto simp: word_le_nat_alt\<close>)
qed

theorem route_limit_window_witness:
  "of_nat (1000 * granted (fst (bucket_run try_acquire [7, 8]
      \<lparr>rb_tokens = 2000, rb_last_refill_ns = 5, rb_rate_per_ns = Fin (1 / 1048576), rb_burst_fp = 2000\<rparr>))) \<le>
    of_nat (unat (2000 :: u32)) + rate_ub (1 / 1048576) * of_nat (unat (9 :: u64) - unat (7 :: u64)) + 2"
proof -
  let ?b = "\<lparr>rb_tokens = 2000, rb_last_refill_ns = 5, rb_rate_per_ns = Fin (1 / 1048576), rb_burst_fp = 2000\<rparr>"
  have n: "normal_rate (1 / 1048576)" using powi_mono2 [of "- 1021" "- 20"] by (simp add: normal_rate_def)
  show ?thesis
    using route_limit_window [of ?b "1 / 1048576" 7 "[8]" _ _ 9, OF _ n _ prod.collapse [symmetric]] by simp
qed

end
