(* ===== verification/Failover_Properties.thy ===== *)
theory Failover_Properties
  imports Failover
begin

text \<open>
  The properties of peer failover and of the spill-over controller, each with a witness where it
  has hypotheses.
\<close>

section \<open>Policies\<close>

text \<open>A failover policy that is accepted names at least one peer, each once, by a well-formed address
  with a port, probes no more often than every 10 ms, and has a cooldown range that is not empty.\<close>

theorem failover_policy_wf:
  assumes "failover_parse spec = Inr policy"
  shows "fp_peers policy \<noteq> [] \<and> distinct (fp_peers policy) \<and>
    (\<forall>a \<in> set (fp_peers policy). wf_addr a \<and> sa_port a \<noteq> 0) \<and>
    10 * 1000000 \<le> fp_probe_interval policy \<and> fp_probe_interval policy \<le> 86400000 * 1000000 \<and>
    0 < fp_cooldown_min policy \<and> fp_cooldown_min policy \<le> fp_cooldown_max policy \<and>
    fp_cooldown_max policy \<le> 86400000 * 1000000"
  using assms by (rule failover_parse_wf)

definition one_peer :: failover_spec where
  "one_peer = \<lparr>fs_peers = [(str ''10.0.0.2'', 8443)], fs_drain = True, fs_probe_interval_ms = Some (Fin 500),
     fs_cooldown_min_ms = Some (Fin 1000), fs_cooldown_max_ms = Some (Fin 8000), fs_spill = None\<rparr>"

definition one_peer_policy :: failover_policy where
  "one_peer_policy = \<lparr>fp_peers = [\<lparr>sa_ip = V4 [10, 0, 0, 2], sa_port = 8443\<rparr>], fp_drain = True,
     fp_probe_interval = 500000000, fp_cooldown_min = 1000000000, fp_cooldown_max = 8000000000, fp_spill = None\<rparr>"

lemma one_peer_parse: "failover_parse one_peer = Inr one_peer_policy"
proof -
  have p: "parse_peers [(str ''10.0.0.2'', 8443)] [] = Inr [\<lparr>sa_ip = V4 [10, 0, 0, 2], sa_port = 8443\<rparr>]" by code_simp
  have u: "unat (f64_to_u64 (Fin (of_nat n))) = n" if "n < 2 ^ 32" for n
    using that by (simp add: unat_f64_to_word_Fin)
  show ?thesis
    using p u [of 500] u [of 1000] u [of 8000]
    by (simp add: failover_parse_def one_peer_def one_peer_policy_def failover_bounded_ms_def MIN_PROBE_INTERVAL_MS_def
        MAX_INTERVAL_MS_def unwrap_or_def)
qed

theorem failover_policy_wf_witness:
  "failover_parse one_peer = Inr one_peer_policy \<and> fp_peers one_peer_policy \<noteq> []"
  using failover_policy_wf [OF one_peer_parse] one_peer_parse by blast

section \<open>Spilling over\<close>

text \<open>C28. Two nodes that read each other's load correctly do not spill to each other: if node A, at load \<open>la\<close>,
  names a peer it reads as \<open>rb\<close>, while node B, at load \<open>lb\<close>, names one it reads as \<open>ra\<close>, then the two readings
  together lie below the two loads by at least half the sum of the margins, whatever valid policies the two were
  configured with. (With delayed readings both can spill for a while.)\<close>

theorem mutual_spill_needs_stale_readings:
  assumes "spill_parse spec_a = Inr pa" "spill_parse spec_b = Inr pb"
    and "assess pa (Some (la, ua)) views_a now_a = (tra, Some (ta, until_a))" "pv_load (views_a ! ta) = Some rb"
    and "assess pb (Some (lb, ub)) views_b now_b = (trb, Some (tb, until_b))" "pv_load (views_b ! tb) = Some ra"
  shows "2 * (unat ra + unat rb) + (unat (margin pa) + unat (margin pb)) \<le> 2 * (unat la + unat lb) \<and> (ra, rb) \<noteq> (la, lb)"
  using spill_parse_wf [OF assms(1)] spill_parse_wf [OF assms(2)]
    assess_target [OF assms(3)] assess_target [OF assms(5)] assms(4,6) by auto

definition plain_spill :: spill_spec where
  "plain_spill = \<lparr>ss_high_water = Some (Fin (1 / 2)), ss_margin = Some (Fin (1 / 4)), ss_step = Some (Fin (1 / 16)),
     ss_max_fraction = Some (Fin (1 / 2)), ss_max_peer_rtt_ms = None\<rparr>"

definition plain_policy :: spill_policy where
  "plain_policy = \<lparr>high_water = 500, margin = 250, step = Fin (125 / 2), max_fraction = 500, max_peer_rtt = None\<rparr>"

definition view_at :: "u32 \<Rightarrow> peer_view" where
  "view_at l = \<lparr>pv_load = Some l, report_until_ms = 100, cooling = False, pv_rtt = None\<rparr>"

lemma fraction_exact:
  assumes "0 \<le> least" "least \<le> v" "v \<le> 1" "rnd v = Fin v" "rnd (v * 1000) = Fin (v * 1000)"
  shows "fraction (Some (Fin v)) d (rnd least) label = Inr (Fin (v * 1000))"
proof -
  have "f64_le (rnd least) (Fin v)" using rnd_mono [OF assms(1,2)] assms(4) by simp
  then have "\<not> f64_lt (Fin v) (rnd least)" by (cases "rnd least") (auto simp: f64_le_def f64_eq_def)
  then show ?thesis using assms(3,5) by (simp add: fraction_def unwrap_or_def)
qed

lemma plain_parse: "spill_parse plain_spill = Inr plain_policy"
proof -
  have e: "rnd (1 / 2) = Fin (1 / 2)" "rnd (1 / 4) = Fin (1 / 4)" "rnd (1 / 16) = Fin (1 / 16)"
    "rnd (1 / 2 * 1000) = Fin (1 / 2 * 1000)" "rnd (1 / 4 * 1000) = Fin (1 / 4 * 1000)" "rnd (1 / 16 * 1000) = Fin (1 / 16 * 1000)"
    using rnd_exact [of 1 "- 1" "1 / 2"] rnd_exact [of 1 "- 2" "1 / 4"] rnd_exact [of 1 "- 4" "1 / 16"]
      rnd_exact [of 500 0 "1 / 2 * 1000"] rnd_exact [of 250 0 "1 / 4 * 1000"] rnd_exact [of 125 "- 1" "1 / 16 * 1000"]
    by (simp_all add: power_int_minus)
  have "\<lfloor>1001 / 2 :: rat\<rfloor> = 500" "\<lfloor>501 / 2 :: rat\<rfloor> = 250" by (simp_all add: floor_eq_iff)
  then have r: "f64_to_u32 (f64_round (Fin 500)) = 500" "f64_to_u32 (f64_round (Fin 250)) = 250"
    by (simp_all add: f64_to_word.simps)
  show ?thesis
    using fraction_exact [of "1 / 1000" "1 / 2"] fraction_exact [of "1 / 500" "1 / 4"] fraction_exact [of "1 / 1000" "1 / 16"] e r
    by (simp add: spill_parse_def plain_spill_def plain_policy_def parse_peer_rtt_def del: f64_round.simps f64_to_word.simps)
qed

theorem mutual_spill_needs_stale_readings_witness:
  "assess plain_policy (Some (900, 90)) [view_at 600, view_at 400] 10 = (Rise, Some (1, 90)) \<and>
   assess plain_policy (Some (800, 90)) [view_at 500] 10 = (Rise, Some (0, 90)) \<and>
   2 * (unat (500 :: u32) + unat (400 :: u32)) + (unat (margin plain_policy) + unat (margin plain_policy)) \<le>
     2 * (unat (900 :: u32) + unat (800 :: u32)) \<and> (500, 400) \<noteq> (900 :: u32, 800 :: u32)"
proof -
  have a: "assess plain_policy (Some (900, 90)) [view_at 600, view_at 400] 10 = (Rise, Some (1, 90))" by code_simp
  have b: "assess plain_policy (Some (800, 90)) [view_at 500] 10 = (Rise, Some (0, 90))" by code_simp
  have "pv_load ([view_at 600, view_at 400] ! 1) = Some 400" "pv_load ([view_at 500] ! 0) = Some 500" by (simp_all add: view_at_def)
  from mutual_spill_needs_stale_readings [OF plain_parse plain_parse a this(1) b this(2)] show ?thesis using a b by blast
qed

text \<open>C33. Every step of the spill controller keeps its fraction within the policy's maximum, and what it
  publishes in one word is exactly its decision: a positive fraction within the maximum, for a peer whose
  current report is at least half a margin below the local load, until the first of the two runs out.
  (A host's uptime in milliseconds is below \<open>2\<^sup>3\<^sup>8\<close>, and a policy has at most 65536 peers.)\<close>

theorem control_publishes_policy:
  assumes "spill_parse spec = Inr policy" "ctl_inv policy s" "length ps \<le> 65536"
    and "pred_option (\<lambda>(_, until_ms). unat until_ms < 2 ^ 38) local_load"
    and "control policy local_load ps now s = (adm, s')"
  shows "ctl_inv policy s' \<and> unpack (packed_admission s') = adm \<and>
    pred_option (\<lambda>a. 0 < adm_fraction a \<and> adm_fraction a \<le> max_fraction policy \<and> adm_target a < length ps \<and>
      (\<exists>l until_ms pl. local_load = Some (l, until_ms) \<and> pv_load (ps ! adm_target a) = Some pl \<and>
        2 * unat pl + unat (margin policy) \<le> 2 * unat l \<and>
        adm_until_ms a = min until_ms (report_until_ms (ps ! adm_target a)) \<and> now div 1000000 < adm_until_ms a)) adm"
proof -
  obtain st where wf: "step policy = Fin st" "unat (max_fraction policy) \<le> 1000" using spill_parse_wf [OF assms(1)] by blast
  have u: "unpack (packed_admission s') = adm"
    using assms(3,4) by (intro control_published [OF assms(5) wf assms(2)]) auto
  note spec = control_spec [OF assms(5) wf assms(2)]
  show ?thesis
  proof (cases adm)
    case None
    then show ?thesis using spec(1) u by simp
  next
    case (Some a)
    obtain tr where as: "assess policy local_load ps (now div 1000000) = (tr, Some (adm_target a, adm_until_ms a))"
      using spec(4) [OF Some] by blast
    obtain l lu where ll: "local_load = Some (l, lu)" using assess_target_local [OF as] by blast
    show ?thesis using spec(1) spec(4) [OF Some] u Some ll assess_target [OF as [unfolded ll]] by auto
  qed
qed

definition half_open :: spill_state where
  "half_open = \<lparr>packed_admission = 0, ctl_fraction = Fin 200, ctl_last_ns = 0\<rparr>"

theorem control_publishes_policy_witness:
  "ctl_inv plain_policy (snd (control plain_policy (Some (900, 90)) [view_at 300] 10000000 half_open)) \<and>
   unpack (packed_admission (snd (control plain_policy (Some (900, 90)) [view_at 300] 10000000 half_open))) =
     fst (control plain_policy (Some (900, 90)) [view_at 300] 10000000 half_open)"
  using control_publishes_policy [OF plain_parse, of half_open "[view_at 300]" "Some (900, 90)" 10000000,
      OF _ _ _ prod.collapse [symmetric]]
  by (simp add: ctl_inv_def half_open_def plain_policy_def)

section \<open>Forwarding\<close>

text \<open>C27. A client is handed to at most one peer. Either one peer of the route has its counter raised by one
  and the connection is finished there, or no counter changes and the connection is served locally (when
  the route was only draining or spilling) or reported as failed; nothing is forwarded unless the whole
  hello was seen.\<close>

theorem forward_hands_over_once:
  fixes w :: world
  assumes "wf_refs w (failovers w ! fref)"
    and "out = forward_to_peers env hello_complete hello_length fref mode handshake now peer local_addr w"
  shows "handed (snd out) = handed w \<and>
      fst out = (if mode = Down then Done (Some UpstreamConnect) else ServeLocally (handshake - fe_gave_up env)) \<or>
    hello_complete \<and> (\<exists>i \<in> set (fo_peers (failovers w ! fref)).
      handed (snd out) = (handed w)[i := bump mode (handed w ! i)]) \<and>
      fst out = Done (if fe_hello_read env then fe_tunnel env else Some StreamError)"
  using forward_to_peers_single [OF assms] by (auto simp: kept_here_def gave_up_def handed_to_def)

definition two_peers :: world where
  "two_peers = \<lparr>base = store_empty, buckets = [], identities = [],
     peers = [failover_peer_new \<lparr>sa_ip = V4 [10, 0, 0, 2], sa_port = 443\<rparr>, failover_peer_new \<lparr>sa_ip = V4 [10, 0, 0, 3], sa_port = 443\<rparr>],
     statuses = [failover_status_default], spills = [],
     failovers = [\<lparr>drain = True, probe_interval = 1000000000, cooldown_min_ns = 1000, cooldown_max_ns = 8000,
       fo_peers = [0, 1], cursor = 0, tcp_health = None, fo_status = 0, fo_spill = None\<rparr>]\<rparr>"

definition second_answers :: forward_env where
  "second_answers = \<lparr>fe_elapsed = (\<lambda>_. 0), fe_gave_up = 7, fe_clock = (\<lambda>_. 50), fe_peek = Some [22, 3],
     fe_outcome = (\<lambda>_ a _ _. if sa_ip a = V4 [10, 0, 0, 3] then FirstByte else ConnectFailed ConnectionRefused),
     fe_hello_read = True, fe_tunnel = None\<rparr>"

theorem forward_hands_over_once_witness:
  "handed (snd (forward_to_peers second_answers True 2 0 Down 1000 5 \<lparr>sa_ip = V4 [1, 2, 3, 4], sa_port = 9\<rparr> None two_peers)) = handed two_peers \<and>
     fst (forward_to_peers second_answers True 2 0 Down 1000 5 \<lparr>sa_ip = V4 [1, 2, 3, 4], sa_port = 9\<rparr> None two_peers) = Done (Some UpstreamConnect) \<or>
   (\<exists>i \<in> {0, 1}. handed (snd (forward_to_peers second_answers True 2 0 Down 1000 5 \<lparr>sa_ip = V4 [1, 2, 3, 4], sa_port = 9\<rparr> None two_peers)) =
     (handed two_peers)[i := bump Down (handed two_peers ! i)])"
proof -
  have wf: "wf_refs two_peers (failovers two_peers ! 0)" by (simp add: wf_refs_def two_peers_def)
  have "fo_peers (failovers two_peers ! 0) = [0, 1]" by (simp add: two_peers_def)
  then show ?thesis
    using forward_hands_over_once [OF wf refl, of second_answers True 2 Down 1000 5 "\<lparr>sa_ip = V4 [1, 2, 3, 4], sa_port = 9\<rparr>" None]
    by auto
qed

text \<open>C34. A route that is down or draining does reach a peer: when some peer is not cooling down and answers,
  and the time of the attempts allows it, the client is handed to a peer, whatever the others do.\<close>

theorem forward_reaches_answering_peer:
  fixes w :: world
  assumes "wf_refs w (failovers w ! fref)" "hello_length = length seen" "seen \<noteq> []" "fe_peek env = Some seen"
    and "proxy_v2_header peer local_addr [] = Some h" "mode = Down \<or> mode = Drain"
    and "\<forall>m. fe_elapsed env m < forward_budget mode handshake"
    and "i \<in> set (fo_peers (failovers w ! fref))" "\<not> cooling_down now (peers w ! i)"
    and "\<forall>m share. fe_outcome env m (peer_addr (peers w ! i)) (h @ seen) share = FirstByte"
    and "out = forward_to_peers env True hello_length fref mode handshake now peer local_addr w"
  shows "(\<exists>j \<in> set (fo_peers (failovers w ! fref)). handed (snd out) = (handed w)[j := bump mode (handed w ! j)]) \<and>
    fst out = Done (if fe_hello_read env then fe_tunnel env else Some StreamError)"
  using forward_to_peers_reaches [OF assms(1) TrueI assms(2-5) assms(7,6,8-10)] assms(11) by (simp add: handed_to_def)

theorem forward_reaches_answering_peer_witness:
  "fst (forward_to_peers second_answers True 2 0 Down 1000 5 \<lparr>sa_ip = V4 [1, 2, 3, 4], sa_port = 9\<rparr> None two_peers) = Done None"
proof -
  obtain h where h: "proxy_v2_header \<lparr>sa_ip = V4 [1, 2, 3, 4], sa_port = 9\<rparr> None [] = Some h"
    by (simp add: proxy_v2_header_def addr_block_def normalize_v2_addr_def Let_def)
  have wf: "wf_refs two_peers (failovers two_peers ! 0)" by (simp add: wf_refs_def two_peers_def)
  have "(\<exists>j \<in> set (fo_peers (failovers two_peers ! 0)).
      handed (snd (forward_to_peers second_answers True 2 0 Down 1000 5 \<lparr>sa_ip = V4 [1, 2, 3, 4], sa_port = 9\<rparr> None two_peers)) =
        (handed two_peers)[j := bump Down (handed two_peers ! j)]) \<and>
    fst (forward_to_peers second_answers True 2 0 Down 1000 5 \<lparr>sa_ip = V4 [1, 2, 3, 4], sa_port = 9\<rparr> None two_peers) =
      Done (if fe_hello_read second_answers then fe_tunnel second_answers else Some StreamError)"
    by (rule forward_reaches_answering_peer [OF wf _ _ _ h _ _ _ _ _ refl, where i = 1 and seen = "[22, 3]"])
      (simp_all add: second_answers_def two_peers_def forward_budget_def cooling_down_def cooldown_until_def failover_peer_new_def)
  then show ?thesis by (simp add: second_answers_def)
qed

text \<open>C38. Exponential back-off, exactly: after a failure at \<open>now\<close> a peer is cooling down until \<open>now\<close> plus a
  cooldown that starts at the policy's minimum, doubles with every consecutive failure and stops at the policy's
  maximum, or until an earlier cooldown ends if that is later, and no longer; its first success ends it and starts
  the count again. (The clock saturates at \<open>2\<^sup>5\<^sup>6 - 1\<close> ns, the count at 255.)\<close>

theorem peer_backs_off:
  "(cooling_down t (record_failure k min_ns max_ns now p) \<longleftrightarrow>
      unat t < min (max (unat (cooldown_until p)) (unat now + min (unat min_ns * 2 ^ min (streak_of p) 63) (unat max_ns))) (2 ^ 56 - 1)) \<and>
   streak_of (record_failure k min_ns max_ns now p) = min (streak_of p + 1) 255 \<and>
   \<not> cooling_down t (clear_cooldown p) \<and> streak_of (clear_cooldown p) = 0"
  unfolding record_failure_cools record_failure_cooldown(1)
  using clear_cooldown_ready [of t p] by (simp add: streak_of_def clear_cooldown_def)

section \<open>Health\<close>

text \<open>C39. A probe never hides a refusal it did not see: after the probes of a pass have been applied, an
  endpoint counts as serving only if it did before, or if a probe reached it and the refusal recorded when
  the pass began is still the latest one, whatever was recorded in between.\<close>

theorem probe_clears_only_what_it_saw:
  assumes "h < length (healths st)" "probes = fst (collect_due now routes w)"
  shows "health_refusing (apply_probes alive probes st) h \<longleftrightarrow>
    health_refusing st h \<and>
    \<not> (\<exists>e. (e, h, healths (base w) ! h) \<in> set probes \<and> alive e \<and> healths st ! h = healths (base w) ! h)"
proof -
  have obs: "observed = healths (base w) ! h' \<and> observed \<noteq> 0" if "(e, h', observed) \<in> set probes" for e h' observed
    using collect_due_observed that assms(2) by blast
  have nz: "\<forall>(e, h', observed) \<in> set probes. observed \<noteq> 0" by (auto dest: obs)
  have "(\<exists>e. (e, h, healths st ! h) \<in> set probes \<and> alive e) \<longleftrightarrow>
      (\<exists>e. (e, h, healths (base w) ! h) \<in> set probes \<and> alive e \<and> healths st ! h = healths (base w) ! h)"
    by (metis obs)
  then show ?thesis
    using apply_probes_exact [OF assms(1) nz, of alive, THEN conjunct1] unfolding health_refusing_def by (simp only: split: if_split) blast
qed

definition refused_tcp :: world where
  "refused_tcp = two_peers\<lparr>base := store_empty\<lparr>healths := [5]\<rparr>,
     identities := [\<lparr>id_route = str ''app'', id_group = str ''g'', id_counters = route_metrics_default\<rparr>],
     failovers := map (\<lambda>f. f\<lparr>tcp_health := Some 0\<rparr>) (failovers two_peers)\<rparr>"

definition tcp_route :: failover_route where
  "tcp_route = \<lparr>fr_identity = 0, fr_failover = 0, fr_destination = Tcp \<lparr>sa_ip = V4 [127, 0, 0, 1], sa_port = 80\<rparr>,
     fr_destination_h2 = None\<rparr>"

theorem probe_clears_only_what_it_saw_witness:
  "health_refusing (apply_probes (\<lambda>_. True) (fst (collect_due 10000000000 [tcp_route] refused_tcp)) (store_empty\<lparr>healths := [9]\<rparr>)) 0"
  using probe_clears_only_what_it_saw [of 0 "store_empty\<lparr>healths := [9]\<rparr>" _ 10000000000 "[tcp_route]" refused_tcp "\<lambda>_. True", OF _ refl]
  by (simp add: health_refusing_def refused_tcp_def)

lemma find_distinct_key:
  "distinct (map f xs) \<Longrightarrow> x \<in> set xs \<Longrightarrow> find (\<lambda>y. f y = f x) xs = Some x"
proof (induction xs)
  case (Cons y ys)
  have "f y = f x \<Longrightarrow> x = y" using Cons.prems by (metis imageI list.set_map set_ConsD distinct.simps(2) list.simps(9))
  then show ?case using Cons by auto
qed simp

text \<open>Health reports are exact: one pass tells the callback of exactly the routes whose state changed since
  they were last reported, in order and with the state they are in, and then every route of the pass is
  recorded as reported in that state.\<close>

theorem health_reports_exact:
  assumes "distinct (map (status_of w) routes)" "\<forall>r \<in> set routes. status_of w r < length (statuses w)"
  shows "fst (report_health (\<lambda>_. True) 0 routes w) =
      map (\<lambda>r. (id_route (identities w ! fr_identity r), id_group (identities w ! fr_identity r), \<not> fr_locally_down w r))
        (filter (\<lambda>r. reported_down (statuses w ! status_of w r) \<noteq> fr_locally_down w r) routes) \<and>
    (\<forall>r \<in> set routes. reported_down (statuses (snd (report_health (\<lambda>_. True) 0 routes w)) ! status_of w r) = fr_locally_down w r)"
proof -
  note exact = report_health_exact [of "\<lambda>_. True" w routes 0, OF _ assms]
  have f: "find (\<lambda>r'. status_of w r' = status_of w r) routes = Some r" if "r \<in> set routes" for r
    using assms(1) that by (rule find_distinct_key)
  have "reported_down (statuses (snd (report_health (\<lambda>_. True) 0 routes w)) ! status_of w r) = fr_locally_down w r"
    if "r \<in> set routes" for r
    using exact [THEN conjunct2, rule_format, of "status_of w r"] assms(2) that f [OF that] by simp
  then show ?thesis using exact [THEN conjunct1] by blast
qed

theorem health_reports_exact_witness:
  "fst (report_health (\<lambda>_. True) 0 [tcp_route] refused_tcp) = [(str ''app'', str ''g'', False)]"
proof -
  have d: "fr_locally_down refused_tcp tcp_route" "\<not> reported_down (statuses refused_tcp ! status_of refused_tcp tcp_route)"
    "status_of refused_tcp tcp_route < length (statuses refused_tcp)"
    by (simp_all add: fr_locally_down_def locally_down_def down_dest_def refused_tcp_def two_peers_def tcp_route_def
        health_refusing_def status_of_def failover_status_default_def)
  then show ?thesis
    using health_reports_exact [of refused_tcp "[tcp_route]"] by (simp add: refused_tcp_def tcp_route_def)
qed

end
