(* ===== verification/Tls.thy ===== *)
theory Tls
  imports Prelude
begin

text \<open>
  TLS acceptors (\<open>tls.rs\<close>) and the client-certificate verifier (\<open>mtls.rs\<close>). A built
  \<open>ServerConfig\<close> carries session state of its own, so its identity matters: the configurations
  are a heap and an \<open>Arc<ServerConfig>\<close> is an index into it. PEM decoding, the checks of \<open>rustls\<close> and
  the digest are parameters. \<open>held c\<close> says that something besides the cache refers to \<open>c\<close>
  (\<open>Arc::strong_count > 1\<close>).
\<close>

section \<open>Definitions\<close>

subsection \<open>Library\<close>

text \<open>\<open>pem_certs\<close> lists what the decoder yields, \<open>None\<close> for an error; \<open>pem_key\<close> is \<open>None\<close> for an error and
  \<open>Some None\<close> when there is no key.\<close>

record tls_lib =
  pem_certs :: "bytes \<Rightarrow> bytes option list"
  pem_key :: "bytes \<Rightarrow> bytes option option"
  root_add :: "bytes \<Rightarrow> bool"
  verifier_build :: "bytes list \<Rightarrow> bool"
  single_cert :: "bytes list \<Rightarrow> bytes \<Rightarrow> bool"
  ticketer :: "nat \<Rightarrow> bool"

datatype tls_error =
    InvalidCertChain | NoCertificates | InvalidKey | NoPrivateKey | InvalidCa | CaNotAdded
  | VerifierFailed | TlsRejected

subsection \<open>Client certificates\<close>

record verifier =
  roots :: "bytes list"
  require_cert :: bool

fun add_roots :: "tls_lib \<Rightarrow> bytes option list \<Rightarrow> bytes list \<Rightarrow> tls_error + bytes list" where
  "add_roots lib [] store = Inr store"
| "add_roots lib (None # certs) store = Inl InvalidCa"
| "add_roots lib (Some cert # certs) store =
     (if root_add lib cert then add_roots lib certs (store @ [cert]) else Inl CaNotAdded)"

definition verifier_of :: "tls_lib \<Rightarrow> bytes \<Rightarrow> bool \<Rightarrow> tls_error + verifier" where
  "verifier_of lib ca_pem required =
     (case add_roots lib (pem_certs lib ca_pem) [] of
        Inl e \<Rightarrow> Inl e
      | Inr store \<Rightarrow>
          if verifier_build lib store then Inr \<lparr>roots = store, require_cert = required\<rparr> else Inl VerifierFailed)"

definition client_auth_mandatory :: "verifier \<Rightarrow> bool" where
  "client_auth_mandatory v = require_cert v"

text \<open>The remaining methods hand the call to the verifier of \<open>webpki\<close> over the same roots.\<close>

definition verify_client_cert ::
    "(bytes list \<Rightarrow> bytes \<Rightarrow> bytes list \<Rightarrow> u64 \<Rightarrow> bool) \<Rightarrow> verifier \<Rightarrow> bytes \<Rightarrow> bytes list \<Rightarrow> u64 \<Rightarrow> bool" where
  "verify_client_cert webpki v end_entity intermediates now = webpki (roots v) end_entity intermediates now"

subsection \<open>Server configurations\<close>

record cert_spec =
  cert_chain_pem :: bytes
  private_key_pem :: bytes

record mtls_spec =
  client_ca_pem :: bytes
  require_client_cert :: bool

record server_config =
  sc_certs :: "bytes list"
  sc_key :: bytes
  sc_verifier :: "verifier option"
  sc_alpn :: "bytes list"

text \<open>\<open>n\<close> numbers the configurations, for the random keys of the ticketer.\<close>

definition build_server_config ::
    "tls_lib \<Rightarrow> nat \<Rightarrow> cert_spec \<Rightarrow> mtls_spec option \<Rightarrow> bool \<Rightarrow> tls_error + server_config" where
  "build_server_config lib n cert mtls http2 =
     (case those (pem_certs lib (cert_chain_pem cert)) of
        None \<Rightarrow> Inl InvalidCertChain
      | Some certs \<Rightarrow>
          if certs = [] then Inl NoCertificates
          else case pem_key lib (private_key_pem cert) of
            None \<Rightarrow> Inl InvalidKey
          | Some None \<Rightarrow> Inl NoPrivateKey
          | Some (Some key) \<Rightarrow>
              (case (case mtls of
                       None \<Rightarrow> Inr None
                     | Some m \<Rightarrow> map_sum id Some (verifier_of lib (client_ca_pem m) (require_client_cert m))) of
                 Inl e \<Rightarrow> Inl e
               | Inr v \<Rightarrow>
                   if single_cert lib certs key \<and> ticketer lib n
                   then Inr \<lparr>sc_certs = certs, sc_key = key, sc_verifier = v,
                             sc_alpn = (if http2 then [str ''h2'', str ''http/1.1''] else [])\<rparr>
                   else Inl TlsRejected))"

subsection \<open>The cache\<close>

type_synonym cache_key = "bytes \<times> bytes \<times> bool"

record tls_cache =
  tc_entries :: "(cache_key \<times> nat) list"
  tc_used :: "cache_key set"
  tc_evict_at :: nat

record tls_state =
  configs :: "server_config list"
  tcache :: tls_cache

definition MIN_EVICT_AT :: nat where "MIN_EVICT_AT = 256"

definition tls_cache_new :: tls_cache where
  "tls_cache_new = \<lparr>tc_entries = [], tc_used = {}, tc_evict_at = MIN_EVICT_AT\<rparr>"

definition retain_used :: "(nat \<Rightarrow> bool) \<Rightarrow> tls_cache \<Rightarrow> tls_cache" where
  "retain_used held c =
     c\<lparr>tc_entries := filter (\<lambda>(k, cfg). k \<in> tc_used c \<or> held cfg) (tc_entries c), tc_used := {}\<rparr>"

definition evict_unreferenced :: "(nat \<Rightarrow> bool) \<Rightarrow> tls_cache \<Rightarrow> tls_cache" where
  "evict_unreferenced held c =
     (let entries = filter (\<lambda>(_, cfg). held cfg) (tc_entries c)
      in c\<lparr>tc_entries := entries, tc_evict_at := max MIN_EVICT_AT (length entries * 2)\<rparr>)"

definition clear_used :: "(nat \<Rightarrow> bool) \<Rightarrow> tls_cache \<Rightarrow> tls_cache" where
  "clear_used held c = evict_unreferenced held (c\<lparr>tc_used := {}\<rparr>)"

definition mtls_input :: "mtls_spec \<Rightarrow> bytes" where
  "mtls_input m = client_ca_pem m @ [if require_client_cert m then 1 else 0]"

definition mtls_key :: "(bytes \<Rightarrow> bytes) \<Rightarrow> mtls_spec option \<Rightarrow> bytes" where
  "mtls_key sha256 mtls =
     (case mtls of
        None \<Rightarrow> replicate 32 0
      | Some m \<Rightarrow> sha256 (mtls_input m))"

definition cache_key_of :: "(bytes \<Rightarrow> bytes) \<Rightarrow> cert_spec \<Rightarrow> mtls_spec option \<Rightarrow> bool \<Rightarrow> cache_key" where
  "cache_key_of sha256 cert mtls http2 =
     (sha256 (cert_chain_pem cert @ private_key_pem cert), mtls_key sha256 mtls, http2)"

definition lookup_or_build ::
    "tls_lib \<Rightarrow> (bytes \<Rightarrow> bytes) \<Rightarrow> (nat \<Rightarrow> bool) \<Rightarrow> cert_spec \<Rightarrow> mtls_spec option \<Rightarrow> bool \<Rightarrow> tls_state \<Rightarrow>
     (tls_error + cache_key \<times> nat) \<times> tls_state" where
  "lookup_or_build lib sha256 held cert mtls http2 ts =
     (let k = cache_key_of sha256 cert mtls http2
      in case map_of (tc_entries (tcache ts)) k of
           Some cfg \<Rightarrow> (Inr (k, cfg), ts)
         | None \<Rightarrow>
             let n = length (configs ts)
             in case build_server_config lib n cert mtls http2 of
                  Inl e \<Rightarrow> (Inl e, ts)
                | Inr cfg \<Rightarrow>
                    let c = (tcache ts)\<lparr>tc_entries := (k, n) # tc_entries (tcache ts)\<rparr>;
                        c1 = (if tc_evict_at c < length (tc_entries c)
                              then evict_unreferenced (\<lambda>i. held i \<or> i = n) c else c)
                    in (Inr (k, n), \<lparr>configs = configs ts @ [cfg], tcache = c1\<rparr>))"

definition get_or_build ::
    "tls_lib \<Rightarrow> (bytes \<Rightarrow> bytes) \<Rightarrow> (nat \<Rightarrow> bool) \<Rightarrow> cert_spec \<Rightarrow> mtls_spec option \<Rightarrow> bool \<Rightarrow> tls_state \<Rightarrow>
     (tls_error + nat) \<times> tls_state" where
  "get_or_build lib sha256 held cert mtls http2 ts =
     (case lookup_or_build lib sha256 held cert mtls http2 ts of
        (Inl e, ts1) \<Rightarrow> (Inl e, ts1)
      | (Inr (k, cfg), ts1) \<Rightarrow>
          (Inr cfg, ts1\<lparr>tcache := (tcache ts1)\<lparr>tc_used := insert k (tc_used (tcache ts1))\<rparr>\<rparr>))"

definition get_or_build_unmarked ::
    "tls_lib \<Rightarrow> (bytes \<Rightarrow> bytes) \<Rightarrow> (nat \<Rightarrow> bool) \<Rightarrow> cert_spec \<Rightarrow> mtls_spec option \<Rightarrow> bool \<Rightarrow> tls_state \<Rightarrow>
     (tls_error + nat) \<times> tls_state" where
  "get_or_build_unmarked lib sha256 held cert mtls http2 ts =
     (case lookup_or_build lib sha256 held cert mtls http2 ts of
        (Inl e, ts1) \<Rightarrow> (Inl e, ts1)
      | (Inr (k, cfg), ts1) \<Rightarrow> (Inr cfg, ts1))"

section \<open>Lemmas\<close>

text \<open>Every entry is a configuration that was built under its key. \<open>H\<close> is the set of byte strings the
  proxy has hashed for client-certificate policies.\<close>

definition hashed :: "bytes set \<Rightarrow> mtls_spec option \<Rightarrow> bool" where
  "hashed H mtls \<longleftrightarrow> (case mtls of None \<Rightarrow> True | Some m \<Rightarrow> mtls_input m \<in> H)"

definition tls_inv :: "tls_lib \<Rightarrow> (bytes \<Rightarrow> bytes) \<Rightarrow> bytes set \<Rightarrow> tls_state \<Rightarrow> bool" where
  "tls_inv lib sha256 H ts \<longleftrightarrow>
     (\<forall>(k, cfg) \<in> set (tc_entries (tcache ts)). cfg < length (configs ts) \<and>
        (\<exists>n cert mtls http2. k = cache_key_of sha256 cert mtls http2 \<and> hashed H mtls \<and>
           build_server_config lib n cert mtls http2 = Inr (configs ts ! cfg)))"

lemma tls_inv_entry:
  "tls_inv lib sha256 H ts \<Longrightarrow> (k, cfg) \<in> set (tc_entries (tcache ts)) \<Longrightarrow>
   cfg < length (configs ts) \<and> (\<exists>n cert mtls http2. k = cache_key_of sha256 cert mtls http2 \<and> hashed H mtls \<and>
     build_server_config lib n cert mtls http2 = Inr (configs ts ! cfg))"
  unfolding tls_inv_def by blast

lemma tls_inv_subset:
  assumes "tls_inv lib sha256 H ts" "set (tc_entries (tcache ts')) \<subseteq> set (tc_entries (tcache ts))" "configs ts' = configs ts"
  shows "tls_inv lib sha256 H ts'"
  using assms unfolding tls_inv_def by (simp only:) blast

lemma tls_inv_append:
  assumes "tls_inv lib sha256 H ts" "build_server_config lib n cert mtls http2 = Inr cfg" "hashed H mtls"
    and "set (tc_entries (tcache ts')) \<subseteq> insert (cache_key_of sha256 cert mtls http2, length (configs ts)) (set (tc_entries (tcache ts)))"
    and "configs ts' = configs ts @ [cfg]"
  shows "tls_inv lib sha256 H ts'"
  unfolding tls_inv_def
proof (intro ballI, clarify, intro conjI)
  fix a b c i
  assume m: "((a, b, c), i) \<in> set (tc_entries (tcache ts'))"
  show "i < length (configs ts')"
    using m assms(4,5) tls_inv_entry [OF assms(1), of "(a, b, c)" i] by auto
  show "\<exists>n cert mtls http2. (a, b, c) = cache_key_of sha256 cert mtls http2 \<and> hashed H mtls \<and>
      build_server_config lib n cert mtls http2 = Inr (configs ts' ! i)"
  proof (cases "((a, b, c), i) \<in> set (tc_entries (tcache ts))")
    case True
    then show ?thesis using tls_inv_entry [OF assms(1) True] assms(5) by (auto simp: nth_append)
  next
    case False
    then have "(a, b, c) = cache_key_of sha256 cert mtls http2" "i = length (configs ts)" using m assms(4) by auto
    then show ?thesis using assms(2,3,5) by auto
  qed
qed

lemma set_evict_unreferenced: "set (tc_entries (evict_unreferenced held c)) \<subseteq> set (tc_entries c)"
  by (auto simp: evict_unreferenced_def Let_def)

lemma lookup_or_build_cases:
  assumes "lookup_or_build lib sha256 held cert mtls http2 ts = (r, ts')"
  obtains (hit) cfg where "map_of (tc_entries (tcache ts)) (cache_key_of sha256 cert mtls http2) = Some cfg"
      "r = Inr (cache_key_of sha256 cert mtls http2, cfg)" "ts' = ts"
    | (failed) e where "r = Inl e" "ts' = ts"
    | (built) cfg where "r = Inr (cache_key_of sha256 cert mtls http2, length (configs ts))"
      "map_of (tc_entries (tcache ts)) (cache_key_of sha256 cert mtls http2) = None"
      "build_server_config lib (length (configs ts)) cert mtls http2 = Inr cfg"
      "configs ts' = configs ts @ [cfg]"
      "tc_entries (tcache ts') = (cache_key_of sha256 cert mtls http2, length (configs ts)) # tc_entries (tcache ts) \<or>
       tc_entries (tcache ts') = (cache_key_of sha256 cert mtls http2, length (configs ts)) #
         filter (\<lambda>(_, i). held i \<or> i = length (configs ts)) (tc_entries (tcache ts))"
      "tc_used (tcache ts') = tc_used (tcache ts)"
  using assms
  by (auto simp: lookup_or_build_def Let_def evict_unreferenced_def split: option.splits sum.splits if_splits)

lemma lookup_or_build_inv:
  assumes "lookup_or_build lib sha256 held cert mtls http2 ts = (r, ts')" "tls_inv lib sha256 H ts" "hashed H mtls"
  shows "tls_inv lib sha256 H ts' \<and> (\<exists>new. configs ts' = configs ts @ new) \<and>
    (\<forall>k cfg. r = Inr (k, cfg) \<longrightarrow> k = cache_key_of sha256 cert mtls http2 \<and> cfg < length (configs ts') \<and>
      (\<exists>n cert' mtls' http2'. cache_key_of sha256 cert' mtls' http2' = k \<and> hashed H mtls' \<and>
        build_server_config lib n cert' mtls' http2' = Inr (configs ts' ! cfg)))"
  using assms(1)
proof (cases rule: lookup_or_build_cases)
  case (hit cfg)
  obtain n cert' mtls' http2' where "cfg < length (configs ts)"
    "cache_key_of sha256 cert mtls http2 = cache_key_of sha256 cert' mtls' http2'" "hashed H mtls'"
    "build_server_config lib n cert' mtls' http2' = Inr (configs ts ! cfg)"
    using tls_inv_entry [OF assms(2) map_of_SomeD [OF hit(1)]] by blast
  then have "cfg < length (configs ts)" "\<exists>n cert' mtls' http2'.
      cache_key_of sha256 cert' mtls' http2' = cache_key_of sha256 cert mtls http2 \<and> hashed H mtls' \<and>
      build_server_config lib n cert' mtls' http2' = Inr (configs ts ! cfg)" by metis+
  then show ?thesis using hit(2,3) assms(2) by simp
next
  case (failed e)
  then show ?thesis using assms(2) by auto
next
  case (built cfg)
  have "set (tc_entries (tcache ts')) \<subseteq> insert (cache_key_of sha256 cert mtls http2, length (configs ts)) (set (tc_entries (tcache ts)))"
    using built(5) by auto
  then have "tls_inv lib sha256 H ts'" by (rule tls_inv_append [OF assms(2) built(3) assms(3) _ built(4)])
  then show ?thesis using built(1,3,4) assms(3) by auto
qed

lemma get_or_build_inv:
  assumes "get_or_build lib sha256 held cert mtls http2 ts = (r, ts')" "tls_inv lib sha256 H ts" "hashed H mtls"
  shows "tls_inv lib sha256 H ts' \<and> (\<exists>new. configs ts' = configs ts @ new) \<and>
    (\<forall>cfg. r = Inr cfg \<longrightarrow> cfg < length (configs ts') \<and>
      (\<exists>n cert' mtls' http2'. cache_key_of sha256 cert' mtls' http2' = cache_key_of sha256 cert mtls http2 \<and> hashed H mtls' \<and>
        build_server_config lib n cert' mtls' http2' = Inr (configs ts' ! cfg)))"
proof -
  obtain q ts1 where l: "lookup_or_build lib sha256 held cert mtls http2 ts = (q, ts1)" by fastforce
  note inv = lookup_or_build_inv [OF l assms(2,3)]
  show ?thesis
  proof (cases q)
    case (Inl e)
    then show ?thesis using assms(1) l inv by (auto simp: get_or_build_def)
  next
    case (Inr p)
    obtain k cfg where p: "p = (k, cfg)" by fastforce
    have r: "r = Inr cfg" "ts' = ts1\<lparr>tcache := (tcache ts1)\<lparr>tc_used := insert k (tc_used (tcache ts1))\<rparr>\<rparr>"
      using assms(1) l Inr p by (simp_all add: get_or_build_def)
    have i: "tls_inv lib sha256 H ts'" using inv r by (auto intro: tls_inv_subset)
    have k: "k = cache_key_of sha256 cert mtls http2" "cfg < length (configs ts1)" "\<exists>new. configs ts1 = configs ts @ new"
      using inv unfolding Inr p by blast+
    have "\<exists>n cert' mtls' http2'. cache_key_of sha256 cert' mtls' http2' = k \<and> hashed H mtls' \<and>
        build_server_config lib n cert' mtls' http2' = Inr (configs ts1 ! cfg)"
      using inv unfolding Inr p by blast
    then show ?thesis using i k(2,3) r unfolding k(1) by simp
  qed
qed

subsection \<open>What a configuration enforces\<close>

definition client_policy :: "tls_lib \<Rightarrow> mtls_spec option \<Rightarrow> verifier option \<Rightarrow> bool" where
  "client_policy lib mtls v \<longleftrightarrow>
     (case mtls of
        None \<Rightarrow> v = None
      | Some m \<Rightarrow> \<exists>store. v = Some \<lparr>roots = store, require_cert = require_client_cert m\<rparr> \<and>
          add_roots lib (pem_certs lib (client_ca_pem m)) [] = Inr store)"

lemma build_client_policy:
  "build_server_config lib n cert mtls http2 = Inr cfg \<Longrightarrow> client_policy lib mtls (sc_verifier cfg)"
  by (auto simp: build_server_config_def client_policy_def verifier_of_def split: option.splits sum.splits if_splits)

text \<open>No two of the hashed strings collide and none of them hashes to zeros.\<close>

definition good_digest :: "(bytes \<Rightarrow> bytes) \<Rightarrow> bytes set \<Rightarrow> bool" where
  "good_digest sha256 H \<longleftrightarrow> inj_on sha256 H \<and> replicate 32 0 \<notin> sha256 ` H"

lemma mtls_input_inject [simp]: "mtls_input m = mtls_input m' \<longleftrightarrow> m = m'"
  by (cases m; cases m') (auto simp: mtls_input_def)

lemma mtls_key_eq:
  assumes "good_digest sha256 H" "hashed H m" "hashed H m'" "mtls_key sha256 m = mtls_key sha256 m'"
  shows "m = m'"
  using assms by (cases m; cases m') (auto simp: good_digest_def hashed_def mtls_key_def inj_on_eq_iff image_iff)

lemma get_or_build_policy:
  assumes "get_or_build lib sha256 held cert mtls http2 ts = (Inr cfg, ts')" "tls_inv lib sha256 H ts" "hashed H mtls"
    "good_digest sha256 H"
  shows "cfg < length (configs ts') \<and> client_policy lib mtls (sc_verifier (configs ts' ! cfg))"
proof -
  obtain n cert' mtls' http2' where c: "cfg < length (configs ts')"
    "cache_key_of sha256 cert' mtls' http2' = cache_key_of sha256 cert mtls http2" "hashed H mtls'"
    "build_server_config lib n cert' mtls' http2' = Inr (configs ts' ! cfg)"
    using get_or_build_inv [OF assms(1-3)] by blast
  then have "mtls' = mtls" using mtls_key_eq [OF assms(4) c(3) assms(3)] by (simp add: cache_key_of_def)
  then show ?thesis using c(1) build_client_policy [OF c(4)] by simp
qed

subsection \<open>Sessions across rebuilds\<close>

text \<open>What else the proxy may do to the cache while \<open>cfg\<close> stays referenced.\<close>

definition refers :: "(nat \<Rightarrow> bool) \<Rightarrow> nat \<Rightarrow> bool" where
  "refers held cfg = held cfg"

inductive cache_step :: "tls_lib \<Rightarrow> (bytes \<Rightarrow> bytes) \<Rightarrow> nat \<Rightarrow> tls_state \<Rightarrow> tls_state \<Rightarrow> bool" for lib sha256 cfg where
  marked: "refers held cfg \<Longrightarrow> get_or_build lib sha256 held cert mtls http2 ts = (r, ts') \<Longrightarrow> cache_step lib sha256 cfg ts ts'"
| unmarked: "refers held cfg \<Longrightarrow> get_or_build_unmarked lib sha256 held cert mtls http2 ts = (r, ts') \<Longrightarrow> cache_step lib sha256 cfg ts ts'"
| begin_build: "refers held cfg \<Longrightarrow> cache_step lib sha256 cfg ts (ts\<lparr>tcache := clear_used held (tcache ts)\<rparr>)"
| commit: "refers held cfg \<Longrightarrow> cache_step lib sha256 cfg ts (ts\<lparr>tcache := retain_used held (tcache ts)\<rparr>)"

lemma map_of_filter_keep:
  "map_of xs k = Some v \<Longrightarrow> P (k, v) \<Longrightarrow> distinct (map fst xs) \<Longrightarrow> map_of (filter P xs) k = Some v"
  by (induction xs) (auto split: if_splits simp: image_iff dest: map_of_SomeD)

definition has_entry :: "cache_key \<Rightarrow> nat \<Rightarrow> tls_state \<Rightarrow> bool" where
  "has_entry k cfg ts \<longleftrightarrow> map_of (tc_entries (tcache ts)) k = Some cfg \<and> distinct (map fst (tc_entries (tcache ts)))"

lemma has_entry_filter:
  "has_entry k cfg ts \<Longrightarrow> P (k, cfg) \<Longrightarrow> tc_entries (tcache ts') = filter P (tc_entries (tcache ts)) \<Longrightarrow> has_entry k cfg ts'"
  by (auto simp: has_entry_def map_of_filter_keep distinct_map_filter)

lemma lookup_has_entry:
  assumes "lookup_or_build lib sha256 held cert mtls http2 ts = (r, ts')" "refers held cfg" "has_entry k cfg ts"
  shows "has_entry k cfg ts'"
  using assms(1)
proof (cases rule: lookup_or_build_cases)
  case (built c)
  have k: "cache_key_of sha256 cert mtls http2 \<noteq> k"
    "cache_key_of sha256 cert mtls http2 \<notin> fst ` set (tc_entries (tcache ts))"
    using built(2) assms(3) by (auto simp: has_entry_def map_of_eq_None_iff [symmetric])
  have "has_entry k cfg \<lparr>configs = [], tcache = \<lparr>tc_entries = filter (\<lambda>(_, i). held i \<or> i = length (configs ts)) (tc_entries (tcache ts)),
      tc_used = {}, tc_evict_at = 0\<rparr>\<rparr>"
    by (rule has_entry_filter [OF assms(3)]) (use assms(2) in \<open>simp_all add: refers_def\<close>)
  then show ?thesis using built(5) k assms(3) by (auto simp: has_entry_def)
qed (use assms(3) in simp_all)

lemma cache_step_entry: "cache_step lib sha256 cfg ts ts' \<Longrightarrow> has_entry k cfg ts \<Longrightarrow> has_entry k cfg ts'"
proof (induction rule: cache_step.induct)
  case (marked held cert mtls http2 ts r ts')
  obtain q ts1 where "lookup_or_build lib sha256 held cert mtls http2 ts = (q, ts1)" by fastforce
  with lookup_has_entry [OF this marked(1,3)] marked(2) show ?case
    by (cases q) (auto simp: get_or_build_def has_entry_def)
next
  case (unmarked held cert mtls http2 ts r ts')
  obtain q ts1 where "lookup_or_build lib sha256 held cert mtls http2 ts = (q, ts1)" by fastforce
  with lookup_has_entry [OF this unmarked(1,3)] unmarked(2) show ?case
    by (cases q) (auto simp: get_or_build_unmarked_def)
next
  case (begin_build held ts)
  then show ?case
    by (intro has_entry_filter [OF begin_build(2), of "\<lambda>(_, c). held c"])
      (simp_all add: clear_used_def evict_unreferenced_def Let_def refers_def)
next
  case (commit held ts)
  then show ?case
    by (intro has_entry_filter [OF commit(2), of "\<lambda>(k, c). k \<in> tc_used (tcache ts) \<or> held c"])
      (simp_all add: retain_used_def refers_def)
qed

lemma cache_reach_entry: "(cache_step lib sha256 cfg)\<^sup>*\<^sup>* ts ts' \<Longrightarrow> has_entry k cfg ts \<Longrightarrow> has_entry k cfg ts'"
  by (induction rule: rtranclp_induct) (auto intro: cache_step_entry)

lemma get_or_build_entry:
  assumes "get_or_build lib sha256 held cert mtls http2 ts = (Inr cfg, ts')" "distinct (map fst (tc_entries (tcache ts)))"
  shows "has_entry (cache_key_of sha256 cert mtls http2) cfg ts'"
proof -
  obtain q ts1 where l: "lookup_or_build lib sha256 held cert mtls http2 ts = (q, ts1)" by fastforce
  then obtain k where q: "q = Inr (k, cfg)" "tc_entries (tcache ts') = tc_entries (tcache ts1)"
    using assms(1) by (cases q) (auto simp: get_or_build_def)
  from l show ?thesis
  proof (cases rule: lookup_or_build_cases)
    case (built c)
    then show ?thesis using q assms(2) by (auto simp: has_entry_def map_of_eq_None_iff distinct_map_filter)
  qed (use q assms(2) in \<open>auto simp: has_entry_def\<close>)
qed

lemma get_or_build_hit:
  "has_entry (cache_key_of sha256 cert mtls http2) cfg ts \<Longrightarrow>
   fst (get_or_build lib sha256 held cert mtls http2 ts) = Inr cfg"
  by (simp add: has_entry_def get_or_build_def lookup_or_build_def)

text \<open>The certificate part of the key hashes chain and key with nothing between them.\<close>

lemma cert_key_ambiguous:
  "cache_key_of sha256 \<lparr>cert_chain_pem = chain @ x, private_key_pem = key\<rparr> mtls http2 =
   cache_key_of sha256 \<lparr>cert_chain_pem = chain, private_key_pem = x @ key\<rparr> mtls http2"
  by (simp add: cache_key_of_def)

end
