(* ===== verification/Router.thy ===== *)
theory Router
  imports Failover Tls
begin

text \<open>
  Routes and the route table (\<open>router.rs\<close>). A route refers to its shared cells (metric identity,
  limiter, failover state, balancers) by index into the \<open>world\<close>, and to its TLS configuration by index
  into the heap of \<open>Tls\<close>. \<open>build_route_table\<close> is one step per route specification over the table
  built so far. Log output is left out.
\<close>

section \<open>Definitions\<close>

subsection \<open>Modes\<close>

datatype source_address_mode = NoSourceAddress | ProxyProtocol | ProxyProtocolV2 | XForwardedFor

record forward_fingerprint =
  fp_ja3 :: bool
  fp_ja4 :: bool

definition forward_none :: forward_fingerprint where
  "forward_none = \<lparr>fp_ja3 = False, fp_ja4 = False\<rparr>"

definition fingerprint_empty :: "forward_fingerprint \<Rightarrow> bool" where
  "fingerprint_empty f \<longleftrightarrow> \<not> fp_ja3 f \<and> \<not> fp_ja4 f"

datatype route_protocol = Opaque | Http

definition requires_http_protocol :: "source_address_mode \<Rightarrow> forward_fingerprint \<Rightarrow> bool" where
  "requires_http_protocol mode fingerprint \<longleftrightarrow>
     mode = XForwardedFor \<or> \<not> fingerprint_empty fingerprint \<and> mode \<noteq> ProxyProtocolV2"

subsection \<open>Routes\<close>

record route =
  rt_identity :: nat
  rt_destination :: destination
  rt_destination_h2 :: "destination option"
  rt_tls_config :: "nat option"
  rt_terminate_tls :: bool
  rt_suspended :: bool
  rt_suspend_timeout :: nat
  rt_rate_limiter :: "nat option"
  rt_source_address_mode :: source_address_mode
  rt_forward_fingerprint :: forward_fingerprint
  rt_protocol :: route_protocol
  rt_allowed_sources :: "source_allowlist option"
  rt_failover :: "nat option"
  rt_requires_client_cert :: bool

definition metric_identity_new :: "bytes \<Rightarrow> bytes \<Rightarrow> metric_identity" where
  "metric_identity_new name grp = \<lparr>id_route = name, id_group = grp, id_counters = route_metrics_default\<rparr>"

definition wildcard_suffix_matches :: "bytes \<Rightarrow> bytes \<Rightarrow> bool" where
  "wildcard_suffix_matches name sfx =
     (if length name \<le> length sfx + 1 then False
      else let dot_pos = length name - length sfx - 1
           in name ! dot_pos = 0x2E \<and> drop (dot_pos + 1) name = sfx \<and> 0x2E \<notin> set (take dot_pos name))"

subsection \<open>Specifications\<close>

datatype upstream_spec =
    TcpUpstream bytes u16
  | UdsUpstream "bytes list" "u32 option list" "u32 option list" bool u64 "bytes option"

record route_spec =
  rs_sni :: bytes
  rs_metrics_group :: bytes
  rs_upstreams :: "upstream_spec list"
  rs_terminate_tls :: bool
  rs_cert_pem :: "bytes option"
  rs_key_pem :: "bytes option"
  rs_mtls_ca_pem :: "bytes option"
  rs_require_client_cert :: bool
  rs_suspended :: bool
  rs_suspend_timeout_ms :: u64
  rs_max_cps :: "f64 option"
  rs_burst :: "f64 option"
  rs_source_address_mode :: source_address_mode
  rs_forward_fingerprint :: forward_fingerprint
  rs_http2 :: bool
  rs_protocol :: route_protocol
  rs_allowed_sources :: "bytes list"
  rs_failover :: "failover_spec option"

record listener_tls_spec =
  ls_cert_pem :: "bytes option"
  ls_key_pem :: "bytes option"
  ls_mtls_ca_pem :: "bytes option"
  ls_require_client_cert :: bool

definition listener_tls_empty :: listener_tls_spec where
  "listener_tls_empty = \<lparr>ls_cert_pem = None, ls_key_pem = None, ls_mtls_ca_pem = None, ls_require_client_cert = True\<rparr>"

definition effective_mtls :: "route_spec \<Rightarrow> listener_tls_spec \<Rightarrow> (bytes \<times> bool) option" where
  "effective_mtls spec ltls =
     (case rs_mtls_ca_pem spec of
        Some ca \<Rightarrow> Some (ca, rs_require_client_cert spec)
      | None \<Rightarrow> map_option (\<lambda>ca. (ca, ls_require_client_cert ltls)) (ls_mtls_ca_pem ltls))"

datatype client_auth = Passthrough | NoClientCert | ClientCert bytes bool

definition client_auth_of :: "(bytes \<Rightarrow> bytes) \<Rightarrow> route_spec \<Rightarrow> listener_tls_spec \<Rightarrow> client_auth" where
  "client_auth_of sha256 spec ltls =
     (if \<not> rs_terminate_tls spec then Passthrough
      else case effective_mtls spec ltls of
        None \<Rightarrow> NoClientCert
      | Some (ca, required) \<Rightarrow> ClientCert (sha256 ca) required)"

subsection \<open>The table\<close>

record route_table =
  exact :: "(bytes \<times> route) list"
  wildcard :: "(bytes \<times> route) list"
  default_route :: "route option"
  metric_identities :: "nat list"
  monitored_balancers :: "nat list"
  affinity_balancers :: "nat list"
  failing_snis :: "bytes set"
  invalid_failover :: "bytes set"
  invalid_spill :: "bytes set"
  dropped_exact :: "bytes set"
  dropped_wildcard :: "bytes list"
  client_auths :: "bytes \<Rightarrow> client_auth option"
  failover_routes :: "failover_route list"

definition route_table_empty :: route_table where
  "route_table_empty = \<lparr>exact = [], wildcard = [], default_route = None, metric_identities = [],
     monitored_balancers = [], affinity_balancers = [], failing_snis = {}, invalid_failover = {},
     invalid_spill = {}, dropped_exact = {}, dropped_wildcard = [], client_auths = (\<lambda>_. None),
     failover_routes = []\<rparr>"

definition route_count :: "route_table \<Rightarrow> nat" where
  "route_count t = length (exact t) + length (wildcard t) + (if default_route t = None then 0 else 1)"

definition failing_route_count :: "route_table \<Rightarrow> nat" where
  "failing_route_count t = card (failing_snis t \<union> invalid_failover t \<union> invalid_spill t)"

definition table_load_answer :: "world \<Rightarrow> u64 \<Rightarrow> route_table \<Rightarrow> bytes \<Rightarrow> u32 option" where
  "table_load_answer w now t name =
     (case map_of (exact t) name of
        None \<Rightarrow> None
      | Some r \<Rightarrow>
          if rt_suspended r then None
          else if (case rt_failover r of
                     Some f \<Rightarrow> drain (failovers w ! f) \<or>
                       locally_down w (failovers w ! f) (rt_destination r) (rt_destination_h2 r)
                   | None \<Rightarrow> False) then None
          else map_option fst (route_load w (rt_destination r) (rt_destination_h2 r) now))"

definition resolve_with :: "bytes option \<Rightarrow> bool \<Rightarrow> route_table \<Rightarrow> route option" where
  "resolve_with server_name allow_default t =
     (let dflt = (if allow_default then default_route t else None)
      in case server_name of
           None \<Rightarrow> dflt
         | Some name \<Rightarrow>
             (case map_of (exact t) name of
                Some r \<Rightarrow> Some r
              | None \<Rightarrow>
                  if name \<in> dropped_exact t then None
                  else case find (\<lambda>(sfx, _). wildcard_suffix_matches name sfx) (wildcard t) of
                    Some (_, r) \<Rightarrow> Some r
                  | None \<Rightarrow>
                      if list_ex (wildcard_suffix_matches name) (dropped_wildcard t) then None else dflt))"

definition wildcard_prefix :: bytes where "wildcard_prefix = [0x2A, 0x2E]"

definition get_for_spec_sni :: "bytes \<Rightarrow> route_table \<Rightarrow> route option" where
  "get_for_spec_sni name t =
     (case strip_prefix wildcard_prefix name of
        Some sfx \<Rightarrow> map_option snd (find (\<lambda>(s, _). s = sfx) (wildcard t))
      | None \<Rightarrow> if name = [] then default_route t else map_of (exact t) name)"

subsection \<open>Destinations\<close>

datatype route_error =
    NoHeaderCarrier | ProtocolNotDeclared | BadSources bytes | NoCert | NoKey | TlsFailed tls_error
  | NoUpstreams | BadAddress | OnlyH2 | XffWithH2 | H2NeedsTermination

record build_env =
  be_lib :: tls_lib
  be_sha256 :: "bytes \<Rightarrow> bytes"
  be_linux :: bool
  be_parse_net :: net_parser
  be_new_v4 :: net_new

definition validate_route_protocol_declaration :: "route_spec \<Rightarrow> route_error option" where
  "validate_route_protocol_declaration spec =
     (let requires_http = requires_http_protocol (rs_source_address_mode spec) (rs_forward_fingerprint spec)
      in if requires_http \<and> \<not> rs_terminate_tls spec then Some NoHeaderCarrier
         else if requires_http \<and> rs_protocol spec \<noteq> Http then Some ProtocolNotDeclared
         else None)"

definition same_load_source :: "store \<Rightarrow> destination \<Rightarrow> destination \<Rightarrow> bool" where
  "same_load_source st a b =
     (case (a, b) of
        (UdsSet i, UdsSet j) \<Rightarrow> shares_load_with (balancers st ! i) (balancers st ! j)
      | (Tcp x, Tcp y) \<Rightarrow> x = y
      | _ \<Rightarrow> False)"

definition add_balancer :: "uds_balancer \<Rightarrow> store \<Rightarrow> nat \<times> store" where
  "add_balancer b st = (length (balancers st), st\<lparr>balancers := balancers st @ [b]\<rparr>)"

definition retracked_dest :: "bool \<Rightarrow> u64 \<Rightarrow> bool \<Rightarrow> destination \<Rightarrow> store \<Rightarrow> destination \<times> store" where
  "retracked_dest linux now track dest st =
     (case dest of
        UdsSet i \<Rightarrow>
          (let (b, st1) = retracked linux now track (balancers st ! i) st; (j, st2) = add_balancer b st1
           in (UdsSet j, st2))
      | Tcp addr \<Rightarrow> (Tcp addr, st))"

definition tracks_health_as :: "store \<Rightarrow> route \<Rightarrow> bool \<Rightarrow> bool" where
  "tracks_health_as st r tracked =
     list_all (\<lambda>dest. case dest of
         UdsSet i \<Rightarrow> (tracked_slots (balancers st ! i) \<noteq> []) = tracked
       | Tcp _ \<Rightarrow> True)
       (rt_destination r # (case rt_destination_h2 r of Some d \<Rightarrow> [d] | None \<Rightarrow> []))"

definition nth_or_none :: "'a option list \<Rightarrow> nat \<Rightarrow> 'a option" where
  "nth_or_none xs i = (if i < length xs then xs ! i else None)"

fun uds_slots_of :: "upstream_spec list \<Rightarrow> uds_slot_spec list \<Rightarrow> bool \<Rightarrow> u64 \<Rightarrow> uds_slot_spec list \<times> bool \<times> u64" where
  "uds_slots_of [] slots aff ttl = (slots, aff, ttl)"
| "uds_slots_of (TcpUpstream _ _ # us) slots aff ttl = uds_slots_of us slots aff ttl"
| "uds_slots_of (UdsUpstream paths pids tids aff' ttl' _ # us) slots aff ttl =
     uds_slots_of us
       (slots @ map (\<lambda>(i, path). \<lparr>spec_path = path, spec_pid = nth_or_none pids i, spec_tid = nth_or_none tids i\<rparr>)
         (enumerate 0 paths)) aff' ttl'"

definition build_destination_for ::
    "bool \<Rightarrow> u64 \<Rightarrow> upstream_spec list \<Rightarrow> uds_balancer option \<Rightarrow> bool \<Rightarrow> bool \<Rightarrow> store \<Rightarrow>
     (route_error + destination) \<times> store" where
  "build_destination_for linux now upstreams previous track_health refuse_new st =
     (case upstreams of
        [] \<Rightarrow> (Inl NoUpstreams, st)
      | TcpUpstream host port # _ \<Rightarrow>
          (case parse_socket_addr (host @ str '':'' @ dec (unat port)) of
             Some addr \<Rightarrow> (Inr (Tcp addr), st)
           | None \<Rightarrow> (Inl BadAddress, st))
      | _ \<Rightarrow>
          let (slots, ip_affinity, ttl_ms) = uds_slots_of upstreams [] False 300000;
              (b, st1) = uds_balancer_new linux slots ip_affinity ttl_ms st;
              b1 = with_cpu_from previous st1 b;
              (b2, st2) = (if track_health then with_health previous refuse_new now b1 st1 else (b1, st1));
              (i, st3) = add_balancer b2 st2
          in (Inr (UdsSet i), st3))"

record inherit =
  in_previous :: "route option"
  in_track_health :: bool
  in_refuse_new :: bool

definition is_h2 :: "upstream_spec \<Rightarrow> bool" where
  "is_h2 u = (case u of UdsUpstream _ _ _ _ _ (Some p) \<Rightarrow> p = str ''h2'' | _ \<Rightarrow> False)"

definition previous_balancer :: "store \<Rightarrow> destination option \<Rightarrow> uds_balancer option" where
  "previous_balancer st dest = (case dest of Some (UdsSet i) \<Rightarrow> Some (balancers st ! i) | _ \<Rightarrow> None)"

definition placeholder :: destination where
  "placeholder = Tcp \<lparr>sa_ip = V4 [127, 0, 0, 1], sa_port = 1\<rparr>"

definition build_destinations ::
    "bool \<Rightarrow> u64 \<Rightarrow> route_spec \<Rightarrow> inherit \<Rightarrow> store \<Rightarrow>
     (route_error + destination \<times> destination option) \<times> store" where
  "build_destinations linux now spec inh st =
     (if rs_suspended spec \<or> rs_upstreams spec = [] then (Inr (placeholder, None), st)
      else
        let h1 = filter (\<lambda>u. \<not> is_h2 u) (rs_upstreams spec); h2 = filter is_h2 (rs_upstreams spec)
        in if h1 = [] then (Inl OnlyH2, st)
           else case build_destination_for linux now h1
               (previous_balancer st (map_option rt_destination (in_previous inh)))
               (in_track_health inh) (in_refuse_new inh) st of
             (Inl e, st1) \<Rightarrow> (Inl e, st1)
           | (Inr dest, st1) \<Rightarrow>
               if h2 = [] then (Inr (dest, None), st1)
               else case build_destination_for linux now h2
                   (previous_balancer st (Option.bind (in_previous inh) rt_destination_h2))
                   (in_track_health inh) (in_refuse_new inh) st1 of
                 (Inl e, st2) \<Rightarrow> (Inl e, st2)
               | (Inr dest2, st2) \<Rightarrow> (Inr (dest, Some dest2), st2))"

subsection \<open>Building a route\<close>

definition route_tls ::
    "build_env \<Rightarrow> (nat \<Rightarrow> bool) \<Rightarrow> route_spec \<Rightarrow> listener_tls_spec \<Rightarrow> tls_state \<Rightarrow>
     (route_error + nat option) \<times> tls_state" where
  "route_tls env held spec ltls ts =
     (if rs_terminate_tls spec then
        (case (case rs_cert_pem spec of Some c \<Rightarrow> Some c | None \<Rightarrow> ls_cert_pem ltls) of
           None \<Rightarrow> (Inl NoCert, ts)
         | Some cert \<Rightarrow>
             (case (case rs_key_pem spec of Some k \<Rightarrow> Some k | None \<Rightarrow> ls_key_pem ltls) of
                None \<Rightarrow> (Inl NoKey, ts)
              | Some key \<Rightarrow>
                  (case get_or_build (be_lib env) (be_sha256 env) held
                       \<lparr>cert_chain_pem = cert, private_key_pem = key\<rparr>
                       (map_option (\<lambda>(ca, required). \<lparr>client_ca_pem = ca, require_client_cert = required\<rparr>)
                         (effective_mtls spec ltls))
                       (rs_http2 spec) ts of
                     (Inl e, ts1) \<Rightarrow> (Inl (TlsFailed e), ts1)
                   | (Inr cfg, ts1) \<Rightarrow> (Inr (Some cfg), ts1))))
      else (Inr None, ts))"

definition build_route ::
    "build_env \<Rightarrow> (nat \<Rightarrow> bool) \<Rightarrow> u64 \<Rightarrow> route_spec \<Rightarrow> listener_tls_spec \<Rightarrow> inherit \<Rightarrow> tls_state \<Rightarrow> world \<Rightarrow>
     (route_error + route) \<times> tls_state \<times> world" where
  "build_route env held now spec ltls inh ts w =
     (case route_tls env held spec ltls ts of
        (Inl e, ts1) \<Rightarrow> (Inl e, ts1, w)
      | (Inr tls, ts1) \<Rightarrow>
          (case build_destinations (be_linux env) now spec inh (base w) of
             (Inl e, st) \<Rightarrow> (Inl e, ts1, w\<lparr>base := st\<rparr>)
           | (Inr (dest, dest_h2), st) \<Rightarrow>
               let w1 = w\<lparr>base := st\<rparr>
               in if (dest_h2 \<noteq> None \<or> rs_http2 spec \<and> rs_terminate_tls spec) \<and>
                     rs_source_address_mode spec = XForwardedFor
                  then (Inl XffWithH2, ts1, w1)
                  else if dest_h2 \<noteq> None \<and> \<not> rs_terminate_tls spec then (Inl H2NeedsTermination, ts1, w1)
                  else
                    let (limiter, w2) = (case rs_max_cps spec of
                          Some cps \<Rightarrow> (Some (length (buckets w1)),
                            w1\<lparr>buckets := buckets w1 @ [route_token_bucket_new now cps (rs_burst spec)]\<rparr>)
                        | None \<Rightarrow> (None, w1));
                        w3 = w2\<lparr>identities := identities w2 @ [metric_identity_new (rs_sni spec) (rs_metrics_group spec)]\<rparr>
                    in (Inr \<lparr>rt_identity = length (identities w2), rt_destination = dest, rt_destination_h2 = dest_h2,
                             rt_tls_config = tls, rt_terminate_tls = rs_terminate_tls spec,
                             rt_suspended = rs_suspended spec,
                             rt_suspend_timeout = unat (max (rs_suspend_timeout_ms spec) 1) * 1000000,
                             rt_rate_limiter = limiter,
                             rt_source_address_mode = rs_source_address_mode spec,
                             rt_forward_fingerprint = rs_forward_fingerprint spec,
                             rt_protocol = rs_protocol spec, rt_allowed_sources = None, rt_failover = None,
                             rt_requires_client_cert = (rs_terminate_tls spec \<and>
                               (case effective_mtls spec ltls of Some (_, required) \<Rightarrow> required | None \<Rightarrow> False))\<rparr>,
                        ts1, w3)))"

subsection \<open>Building the table\<close>

definition tombstone :: "bytes \<Rightarrow> route_table \<Rightarrow> route_table" where
  "tombstone name t =
     (case strip_prefix wildcard_prefix name of
        Some sfx \<Rightarrow> t\<lparr>dropped_wildcard := dropped_wildcard t @ [sfx]\<rparr>
      | None \<Rightarrow> t\<lparr>dropped_exact := insert name (dropped_exact t)\<rparr>)"

definition fail_sni :: "bytes \<Rightarrow> route_table \<Rightarrow> route_table" where
  "fail_sni name t = t\<lparr>failing_snis := insert name (failing_snis t)\<rparr>"

text \<open>The failover policy of a specification, and whether its \<open>failover\<close> or its \<open>spill\<close> is invalid.\<close>

definition failover_policy_of :: "route_spec \<Rightarrow> failover_policy option \<times> bool \<times> bool" where
  "failover_policy_of spec =
     (case rs_failover spec of
        None \<Rightarrow> (None, False, False)
      | Some f \<Rightarrow>
          if rs_sni spec = [] then (None, True, False)
          else case failover_parse f of
            Inl _ \<Rightarrow> (None, True, False)
          | Inr policy \<Rightarrow>
              (case fs_spill f of
                 None \<Rightarrow> (Some policy, False, False)
               | Some s \<Rightarrow>
                   if starts_with wildcard_prefix (rs_sni spec) then (Some policy, False, True)
                   else case spill_parse s of
                     Inr sp \<Rightarrow> (Some (policy\<lparr>fp_spill := Some sp\<rparr>), False, False)
                   | Inl _ \<Rightarrow> (Some policy, False, True)))"

definition note_invalid :: "bytes \<Rightarrow> bool \<Rightarrow> bool \<Rightarrow> route_table \<Rightarrow> route_table" where
  "note_invalid name bad_failover bad_spill t =
     t\<lparr>invalid_failover := (if bad_failover then insert name (invalid_failover t) else invalid_failover t),
       invalid_spill := (if bad_spill then insert name (invalid_spill t) else invalid_spill t)\<rparr>"

definition is_route_down :: "world \<Rightarrow> route \<Rightarrow> bool" where
  "is_route_down w r =
     (case rt_failover r of
        Some f \<Rightarrow> locally_down w (failovers w ! f) (rt_destination r) (rt_destination_h2 r)
      | None \<Rightarrow> False)"

definition tcp_health_for ::
    "u64 \<Rightarrow> bool \<Rightarrow> route option \<Rightarrow> destination \<Rightarrow> world \<Rightarrow> nat option \<times> world" where
  "tcp_health_for now previous_down previous_route dest w =
     (case dest of
        UdsSet _ \<Rightarrow> (None, w)
      | Tcp addr \<Rightarrow>
          (case (case previous_route of
               Some p \<Rightarrow> (case (rt_destination p, rt_failover p) of
                   (Tcp prev, Some f) \<Rightarrow> if prev = addr then tcp_health (failovers w ! f) else None
                 | _ \<Rightarrow> None)
             | None \<Rightarrow> None) of
             Some h \<Rightarrow> (Some h, w)
           | None \<Rightarrow> (Some (length (healths (base w))),
               w\<lparr>base := (base w)\<lparr>healths := healths (base w) @ [slot_health_new now previous_down]\<rparr>\<rparr>)))"

definition same_sources :: "store \<Rightarrow> route option \<Rightarrow> route \<Rightarrow> bool" where
  "same_sources st previous_route r =
     (case previous_route of
        None \<Rightarrow> False
      | Some p \<Rightarrow>
          same_load_source st (rt_destination p) (rt_destination r) \<and>
          (case (rt_destination_h2 p, rt_destination_h2 r) of
             (None, None) \<Rightarrow> True
           | (Some a, Some b) \<Rightarrow> same_load_source st a b
           | _ \<Rightarrow> False))"

definition route_failover ::
    "u64 \<Rightarrow> bool \<Rightarrow> route option \<Rightarrow> failover_policy option \<Rightarrow> route \<Rightarrow> world \<Rightarrow> nat option \<times> world" where
  "route_failover now previous_down previous_route policy r w =
     (case policy of
        None \<Rightarrow> (None, w)
      | Some pol \<Rightarrow>
          let previous_failover = (case previous_route of
                Some p \<Rightarrow> if rt_identity p = rt_identity r then map_option (\<lambda>f. failovers w ! f) (rt_failover p) else None
              | None \<Rightarrow> None);
              (health, w1) = tcp_health_for now previous_down previous_route (rt_destination r) w;
              (f, w2) = failover_new pol previous_failover health (same_sources (base w1) previous_route r) w1
          in (Some (length (failovers w2)), w2\<lparr>failovers := failovers w2 @ [f]\<rparr>))"

definition route_dests :: "route \<Rightarrow> destination list" where
  "route_dests r = rt_destination r # (case rt_destination_h2 r of Some d \<Rightarrow> [d] | None \<Rightarrow> [])"

definition balancers_with :: "(uds_balancer \<Rightarrow> bool) \<Rightarrow> store \<Rightarrow> route \<Rightarrow> nat list" where
  "balancers_with P st r =
     List.map_filter (\<lambda>d. case d of UdsSet i \<Rightarrow> if P (balancers st ! i) then Some i else None | Tcp _ \<Rightarrow> None)
       (route_dests r)"

definition install_route :: "store \<Rightarrow> bytes \<Rightarrow> client_auth \<Rightarrow> route \<Rightarrow> route_table \<Rightarrow> route_table" where
  "install_route st name auth r t =
     (let t1 = t\<lparr>failover_routes := failover_routes t @ (case rt_failover r of
              Some f \<Rightarrow> [\<lparr>fr_identity = rt_identity r, fr_failover = f, fr_destination = rt_destination r,
                fr_destination_h2 = rt_destination_h2 r\<rparr>] | None \<Rightarrow> []),
            monitored_balancers := monitored_balancers t @ balancers_with has_monitored_slots st r,
            affinity_balancers := affinity_balancers t @ balancers_with has_affinity st r,
            client_auths := (client_auths t)(name \<mapsto> auth)\<rparr>
      in case strip_prefix wildcard_prefix name of
           Some sfx \<Rightarrow> t1\<lparr>wildcard := wildcard t1 @ [(sfx, r)]\<rparr>
         | None \<Rightarrow>
             if name = [] then t1\<lparr>default_route := Some r\<rparr>
             else t1\<lparr>exact := (name, r) # filter (\<lambda>(k, _). k \<noteq> name) (exact t1)\<rparr>)"

text \<open>What happens to a route after it was built or carried forward.\<close>

definition finish_route ::
    "build_env \<Rightarrow> u64 \<Rightarrow> bool \<Rightarrow> bool \<Rightarrow> route option \<Rightarrow> source_allowlist option \<Rightarrow> failover_policy option \<Rightarrow> bytes \<Rightarrow>
     route \<Rightarrow> world \<Rightarrow> route \<times> world" where
  "finish_route env now carried previous_down previous_route sources policy grp r w =
     (let r1 = r\<lparr>rt_allowed_sources := sources\<rparr>;
          track = (policy \<noteq> None);
          (r2, w2) = (if carried \<and> \<not> tracks_health_as (base w) r1 track
            then (let (d, st1) = retracked_dest (be_linux env) now track (rt_destination r1) (base w);
                      (d2, st2) = (case rt_destination_h2 r1 of
                        Some h \<Rightarrow> (let (h', st') = retracked_dest (be_linux env) now track h st1 in (Some h', st'))
                      | None \<Rightarrow> (None, st1))
                  in (r1\<lparr>rt_destination := d, rt_destination_h2 := d2\<rparr>, w\<lparr>base := st2\<rparr>))
            else (r1, w));
          r3 = (case previous_route of
              Some p \<Rightarrow> if id_group (identities w2 ! rt_identity p) = grp then r2\<lparr>rt_identity := rt_identity p\<rparr> else r2
            | None \<Rightarrow> r2);
          (f, w3) = route_failover now previous_down previous_route policy r3 w2
      in (r3\<lparr>rt_failover := f\<rparr>, w3))"

definition last_exact :: "route_spec list \<Rightarrow> bytes \<Rightarrow> nat option" where
  "last_exact specs name =
     (if starts_with wildcard_prefix name then None
      else map_option fst (find (\<lambda>(_, s). rs_sni s = name) (rev (enumerate 0 specs))))"

definition table_routes :: "route_table \<Rightarrow> route list" where
  "table_routes t = map snd (exact t) @ map snd (wildcard t) @ (case default_route t of Some r \<Rightarrow> [r] | None \<Rightarrow> [])"

definition in_table :: "route_table \<Rightarrow> nat \<Rightarrow> bool" where
  "in_table t c = list_ex (\<lambda>r. rt_tls_config r = Some c) (table_routes t)"

record building =
  bt :: route_table
  configured_wildcards :: "bytes set"
  bts :: tls_state
  bw :: world

text \<open>The last-good route, and whether it enforces the requested policy.\<close>

definition last_good :: "route_table option \<Rightarrow> bytes \<Rightarrow> client_auth \<Rightarrow> (route \<times> bool) option" where
  "last_good previous name requested =
     (case previous of
        None \<Rightarrow> None
      | Some p \<Rightarrow> map_option (\<lambda>r. (r, client_auths p name = Some requested)) (get_for_spec_sni name p))"

definition decide_route ::
    "build_env \<Rightarrow> (nat \<Rightarrow> bool) \<Rightarrow> u64 \<Rightarrow> listener_tls_spec \<Rightarrow> route_table option \<Rightarrow> route_spec \<Rightarrow>
     source_allowlist option \<Rightarrow> building \<Rightarrow> building" where
  "decide_route env held now ltls previous spec sources b =
     (let name = rs_sni spec;
          previous_route = (case previous of Some p \<Rightarrow> get_for_spec_sni name p | None \<Rightarrow> None);
          (policy, bad_failover, bad_spill) = failover_policy_of spec;
          t = note_invalid name bad_failover bad_spill (bt b);
          requested = client_auth_of (be_sha256 env) spec ltls;
          previous_down = (case previous_route of Some p \<Rightarrow> is_route_down (bw b) p | None \<Rightarrow> False);
          inh = \<lparr>in_previous = previous_route, in_track_health = (policy \<noteq> None), in_refuse_new = previous_down\<rparr>;
          install = (\<lambda>carried r t ts w.
            let (r', w') = finish_route env now carried previous_down previous_route sources policy (rs_metrics_group spec) r w
            in b\<lparr>bt := install_route (base w') name requested r' t, bts := ts, bw := w'\<rparr>)
      in case build_route env (\<lambda>c. held c \<or> in_table (bt b) c) now spec ltls inh (bts b) (bw b) of
           (Inr r, ts, w) \<Rightarrow> install False r t ts w
         | (Inl e, ts, w) \<Rightarrow>
             let t1 = fail_sni name t
             in case last_good previous name requested of
                  Some (prev, True) \<Rightarrow> install True prev t1 ts w
                | _ \<Rightarrow> b\<lparr>bt := tombstone name t1, bts := ts, bw := w\<rparr>)"

definition admit_spec ::
    "build_env \<Rightarrow> (nat \<Rightarrow> bool) \<Rightarrow> u64 \<Rightarrow> listener_tls_spec \<Rightarrow> route_table option \<Rightarrow> route_spec \<Rightarrow> building \<Rightarrow> building" where
  "admit_spec env held now ltls previous spec b =
     (case validate_route_protocol_declaration spec of
        Some _ \<Rightarrow> b\<lparr>bt := tombstone (rs_sni spec) (fail_sni (rs_sni spec) (bt b))\<rparr>
      | None \<Rightarrow>
          (case parse_allowlist (be_parse_net env) (be_new_v4 env) (rs_allowed_sources spec) of
             Inl _ \<Rightarrow> b\<lparr>bt := tombstone (rs_sni spec) (fail_sni (rs_sni spec) (bt b))\<rparr>
           | Inr sources \<Rightarrow> decide_route env held now ltls previous spec sources b))"

definition add_spec ::
    "build_env \<Rightarrow> (nat \<Rightarrow> bool) \<Rightarrow> (nat \<Rightarrow> u64) \<Rightarrow> listener_tls_spec \<Rightarrow> route_table option \<Rightarrow> route_spec list \<Rightarrow>
     nat \<times> route_spec \<Rightarrow> building \<Rightarrow> building" where
  "add_spec env held clock ltls previous specs p b =
     (let (i, spec) = p
      in if (case last_exact specs (rs_sni spec) of Some j \<Rightarrow> j \<noteq> i | None \<Rightarrow> False) then b
         else case strip_prefix wildcard_prefix (rs_sni spec) of
           Some sfx \<Rightarrow>
             if sfx \<in> configured_wildcards b then b\<lparr>bt := fail_sni (rs_sni spec) (bt b)\<rparr>
             else admit_spec env held (clock i) ltls previous spec
               (b\<lparr>configured_wildcards := insert sfx (configured_wildcards b)\<rparr>)
         | None \<Rightarrow> admit_spec env held (clock i) ltls previous spec b)"

definition identity_key :: "world \<Rightarrow> nat \<Rightarrow> bytes \<times> bytes" where
  "identity_key w i = (id_route (identities w ! i), id_group (identities w ! i))"

definition build_route_table ::
    "build_env \<Rightarrow> (nat \<Rightarrow> bool) \<Rightarrow> (nat \<Rightarrow> u64) \<Rightarrow> route_spec list \<Rightarrow> listener_tls_spec \<Rightarrow> route_table option \<Rightarrow>
     tls_state \<Rightarrow> world \<Rightarrow> route_table \<times> tls_state \<times> world" where
  "build_route_table env held clock specs ltls previous ts w =
     (let b = fold (add_spec env held clock ltls previous specs) (enumerate 0 specs)
            \<lparr>bt = route_table_empty, configured_wildcards = {},
             bts = ts\<lparr>tcache := clear_used held (tcache ts)\<rparr>, bw = w\<rparr>;
          t = bt b;
          ids = map rt_identity (table_routes t)
      in (t\<lparr>metric_identities := sort_key (identity_key (bw b)) ids\<rparr>, bts b, bw b))"

subsection \<open>The eviction task\<close>

definition evict_affinity_pass :: "u64 \<Rightarrow> route_table \<Rightarrow> store \<Rightarrow> store" where
  "evict_affinity_pass now t st =
     fold (\<lambda>i st. st\<lparr>balancers := (balancers st)[i := evict_affinity now (balancers st ! i)]\<rparr>) (affinity_balancers t) st"

end
