(* ===== verification/Router_Properties.thy ===== *)
theory Router_Properties
  imports Router
begin

text \<open>
  Properties of the route table: every configured name is decided by one specification, a name that was
  configured and rejected answers to nothing, and what is installed enforces the policy of the
  specification that decided it, across any number of reloads.
\<close>

section \<open>Lookups\<close>

definition is_wildcard :: "bytes \<Rightarrow> bool" where
  "is_wildcard name \<longleftrightarrow> starts_with wildcard_prefix name"

lemma is_wildcard_append [simp]: "is_wildcard (wildcard_prefix @ sfx)"
  by (auto simp: is_wildcard_def starts_with_iff)

lemma not_wildcard_strip: "\<not> is_wildcard name \<Longrightarrow> strip_prefix wildcard_prefix name = None"
  by (metis is_wildcard_def not_Some_eq starts_with_iff strip_prefix_Some_iff)

lemma wildcard_cases:
  obtains (wildcard) sfx where "name = wildcard_prefix @ sfx" | (plain) "\<not> is_wildcard name"
  by (metis is_wildcard_def starts_with_iff)

lemma wildcard_prefix_nonempty [simp]: "wildcard_prefix \<noteq> []"
  by (simp add: wildcard_prefix_def)

text \<open>A configured name that was rejected with nothing to carry forward.\<close>

definition dropped :: "bytes \<Rightarrow> route_table \<Rightarrow> bool" where
  "dropped name t =
     (case strip_prefix wildcard_prefix name of
        Some sfx \<Rightarrow> sfx \<in> set (dropped_wildcard t)
      | None \<Rightarrow> name \<in> dropped_exact t)"

definition decided :: "bytes \<Rightarrow> route_table \<Rightarrow> bool" where
  "decided name t \<longleftrightarrow> get_for_spec_sni name t \<noteq> None \<or> dropped name t"

text \<open>Bookkeeping that no lookup reads.\<close>

lemma bookkeeping [simp]:
  "get_for_spec_sni n (fail_sni name t) = get_for_spec_sni n t"
  "dropped n (fail_sni name t) = dropped n t"
  "client_auths (fail_sni name t) = client_auths t"
  "get_for_spec_sni n (note_invalid name x y t) = get_for_spec_sni n t"
  "dropped n (note_invalid name x y t) = dropped n t"
  "client_auths (note_invalid name x y t) = client_auths t"
  "get_for_spec_sni n (tombstone name t) = get_for_spec_sni n t"
  "client_auths (tombstone name t) = client_auths t"
  by (simp_all add: get_for_spec_sni_def dropped_def fail_sni_def note_invalid_def tombstone_def split: option.splits)

lemma dropped_tombstone [simp]: "dropped n (tombstone name t) \<longleftrightarrow> n = name \<or> dropped n t"
  by (auto simp: dropped_def tombstone_def strip_prefix_Some_iff split: option.splits)

lemma dropped_install [simp]: "dropped n (install_route st name a r t) = dropped n t"
  by (simp add: dropped_def install_route_def Let_def split: option.splits)

lemma client_auths_install [simp]: "client_auths (install_route st name a r t) = (client_auths t)(name \<mapsto> a)"
  by (simp add: install_route_def Let_def split: option.splits)

lemma map_of_filter_ne: "k \<noteq> name \<Longrightarrow> map_of (filter (\<lambda>(k, _). k \<noteq> name) xs) k = map_of xs k"
  by (induction xs) auto

lemma find_append: "find P (xs @ ys) = (case find P xs of Some x \<Rightarrow> Some x | None \<Rightarrow> find P ys)"
  by (induction xs) auto

lemma get_install:
  assumes "is_wildcard name \<Longrightarrow> get_for_spec_sni name t = None"
  shows "get_for_spec_sni n (install_route st name a r t) = (if n = name then Some r else get_for_spec_sni n t)"
proof (cases name rule: wildcard_cases)
  case (wildcard sfx)
  then have "find (\<lambda>(s, _). s = sfx) (wildcard t) = None"
    using assms by (simp add: get_for_spec_sni_def)
  then show ?thesis
    using wildcard
    by (cases n rule: wildcard_cases)
      (auto simp: get_for_spec_sni_def install_route_def Let_def find_append not_wildcard_strip split: option.splits)
next
  case plain
  then show ?thesis
    by (cases n rule: wildcard_cases)
      (auto simp: get_for_spec_sni_def install_route_def Let_def not_wildcard_strip map_of_filter_ne)
qed

subsection \<open>What a lookup may answer\<close>

lemma resolve_decided_exact:
  assumes "decided name t" "\<not> is_wildcard name" "name \<noteq> []"
  shows "resolve_with (Some name) allow_default t = get_for_spec_sni name t"
  using assms by (auto simp: resolve_with_def decided_def dropped_def get_for_spec_sni_def not_wildcard_strip split: option.splits)

lemma resolve_decided_wildcard:
  assumes "decided (wildcard_prefix @ sfx) t" "wildcard_suffix_matches name sfx"
  shows "resolve_with (Some name) True t = resolve_with (Some name) False t"
proof (cases "find (\<lambda>(s, _). wildcard_suffix_matches name s) (wildcard t)")
  case None
  then have "sfx \<notin> fst ` set (wildcard t)" using assms(2) by (auto simp: find_None_iff)
  then have "find (\<lambda>(s, _). s = sfx) (wildcard t) = None" by (force simp: find_None_iff)
  then have "list_ex (wildcard_suffix_matches name) (dropped_wildcard t)"
    using assms by (auto simp: decided_def dropped_def get_for_spec_sni_def list_ex_iff)
  then show ?thesis using None by (simp add: resolve_with_def split: option.splits)
qed (auto simp: resolve_with_def split: option.splits)

section \<open>Policies\<close>

text \<open>The client-certificate policy a specification asks for: \<open>None\<close> for a passthrough route, and the
  client CA when one is configured.\<close>

type_synonym tls_policy = "mtls_spec option option"

definition requested_policy :: "route_spec \<Rightarrow> listener_tls_spec \<Rightarrow> tls_policy" where
  "requested_policy spec ltls =
     (if rs_terminate_tls spec
      then Some (map_option (\<lambda>(ca, required). \<lparr>client_ca_pem = ca, require_client_cert = required\<rparr>) (effective_mtls spec ltls))
      else None)"

definition auth_value :: "(bytes \<Rightarrow> bytes) \<Rightarrow> tls_policy \<Rightarrow> client_auth" where
  "auth_value sha256 pol =
     (case pol of
        None \<Rightarrow> Passthrough
      | Some None \<Rightarrow> NoClientCert
      | Some (Some m) \<Rightarrow> ClientCert (sha256 (client_ca_pem m)) (require_client_cert m))"

lemma client_auth_of_policy: "client_auth_of sha256 spec ltls = auth_value sha256 (requested_policy spec ltls)"
  by (auto simp: client_auth_of_def auth_value_def requested_policy_def split: option.splits)

text \<open>The strings of a policy that are hashed: the CA, and the CA with the flag.\<close>

definition policy_hashed :: "bytes set \<Rightarrow> tls_policy \<Rightarrow> bool" where
  "policy_hashed H pol \<longleftrightarrow>
     (case pol of Some (Some m) \<Rightarrow> client_ca_pem m \<in> H \<and> mtls_input m \<in> H | _ \<Rightarrow> True)"

lemma auth_value_inject:
  assumes "good_digest sha256 H" "policy_hashed H p" "policy_hashed H q" "auth_value sha256 p = auth_value sha256 q"
  shows "p = q"
proof (cases "p = None \<or> q = None \<or> p = Some None \<or> q = Some None")
  case False
  then obtain m m' where "p = Some (Some m)" "q = Some (Some m')" by (metis not_None_eq)
  with assms show ?thesis
    by (cases m; cases m') (auto simp: auth_value_def policy_hashed_def good_digest_def inj_on_eq_iff)
qed (use assms(4) in \<open>auto simp: auth_value_def split: option.splits\<close>)

text \<open>What a route enforces, given the heap of configurations.\<close>

definition enforces :: "tls_lib \<Rightarrow> server_config list \<Rightarrow> tls_policy \<Rightarrow> route \<Rightarrow> bool" where
  "enforces lib cfgs pol r \<longleftrightarrow>
     rt_terminate_tls r = (pol \<noteq> None) \<and>
     rt_requires_client_cert r = (case pol of Some (Some m) \<Rightarrow> require_client_cert m | _ \<Rightarrow> False) \<and>
     (case pol of
        None \<Rightarrow> rt_tls_config r = None
      | Some mtls \<Rightarrow>
          (case rt_tls_config r of
             None \<Rightarrow> False
           | Some c \<Rightarrow> c < length cfgs \<and> client_policy lib mtls (sc_verifier (cfgs ! c))))"

lemma enforces_append: "enforces lib cfgs pol r \<Longrightarrow> enforces lib (cfgs @ new) pol r"
  by (auto simp: enforces_def nth_append split: option.splits)

lemma enforces_update [simp]:
  "enforces lib cfgs pol (r\<lparr>rt_allowed_sources := a\<rparr>) = enforces lib cfgs pol r"
  "enforces lib cfgs pol (r\<lparr>rt_destination := d, rt_destination_h2 := d2\<rparr>) = enforces lib cfgs pol r"
  "enforces lib cfgs pol (r\<lparr>rt_identity := i\<rparr>) = enforces lib cfgs pol r"
  "enforces lib cfgs pol (r\<lparr>rt_failover := f\<rparr>) = enforces lib cfgs pol r"
  by (simp_all add: enforces_def split: option.splits)

text \<open>A table in which every installed route enforces the policy recorded for it.\<close>

definition table_ok :: "tls_lib \<Rightarrow> (bytes \<Rightarrow> bytes) \<Rightarrow> bytes set \<Rightarrow> server_config list \<Rightarrow> route_table \<Rightarrow> bool" where
  "table_ok lib sha256 H cfgs t \<longleftrightarrow>
     (\<forall>name r. get_for_spec_sni name t = Some r \<longrightarrow>
        (\<exists>pol. policy_hashed H pol \<and> client_auths t name = Some (auth_value sha256 pol) \<and> enforces lib cfgs pol r))"

section \<open>Building\<close>

lemma route_tls_policy:
  assumes "route_tls env held spec ltls ts = (q, ts')" "tls_inv (be_lib env) (be_sha256 env) H ts"
    and "good_digest (be_sha256 env) H" "policy_hashed H (requested_policy spec ltls)"
  shows "tls_inv (be_lib env) (be_sha256 env) H ts'" "\<exists>new. configs ts' = configs ts @ new"
    and "q = Inr tls \<Longrightarrow> (case requested_policy spec ltls of None \<Rightarrow> tls = None
      | Some mtls \<Rightarrow> (case tls of None \<Rightarrow> False
          | Some c \<Rightarrow> c < length (configs ts') \<and> client_policy (be_lib env) mtls (sc_verifier (configs ts' ! c))))"
proof -
  define mtls where "mtls = map_option (\<lambda>(ca, required). \<lparr>client_ca_pem = ca, require_client_cert = required\<rparr>) (effective_mtls spec ltls)"
  have h: "rs_terminate_tls spec \<Longrightarrow> hashed H mtls"
    using assms(4) by (auto simp: hashed_def policy_hashed_def requested_policy_def mtls_def split: option.splits)
  have "tls_inv (be_lib env) (be_sha256 env) H ts' \<and> (\<exists>new. configs ts' = configs ts @ new) \<and>
     (q = Inr tls \<longrightarrow> (case requested_policy spec ltls of None \<Rightarrow> tls = None
      | Some mtls \<Rightarrow> (case tls of None \<Rightarrow> False
          | Some c \<Rightarrow> c < length (configs ts') \<and> client_policy (be_lib env) mtls (sc_verifier (configs ts' ! c)))))"
    (is "?I \<and> ?G \<and> (_ \<longrightarrow> ?P)")
  proof (cases "ts' = ts \<and> (\<exists>e. q = Inl e) \<or> \<not> rs_terminate_tls spec")
    case True
    then show ?thesis using assms(1,2) by (auto simp: route_tls_def requested_policy_def)
  next
    case False
    then obtain cert res where g: "get_or_build (be_lib env) (be_sha256 env) held cert mtls (rs_http2 spec) ts = (res, ts')"
        "q = map_sum TlsFailed Some res" "rs_terminate_tls spec"
      using assms(1) by (auto simp: route_tls_def mtls_def split: option.splits sum.splits prod.splits if_splits)
    have "requested_policy spec ltls = Some mtls" using g(3) by (simp add: requested_policy_def mtls_def)
    then have "q = Inr tls \<longrightarrow> ?P"
      using g(2) get_or_build_policy [OF _ assms(2) h [OF g(3)] assms(3)] g(1) by (cases res) auto
    then show ?thesis using get_or_build_inv [OF g(1) assms(2) h [OF g(3)]] by simp
  qed
  then show ?I ?G "q = Inr tls \<Longrightarrow> ?P" by simp_all
qed

lemma build_route_enforces:
  assumes "build_route env held now spec ltls inh ts w = (res, ts', w')" "tls_inv (be_lib env) (be_sha256 env) H ts"
    and "good_digest (be_sha256 env) H" "policy_hashed H (requested_policy spec ltls)"
  shows "tls_inv (be_lib env) (be_sha256 env) H ts'" "\<exists>new. configs ts' = configs ts @ new"
    and "res = Inr r \<Longrightarrow> enforces (be_lib env) (configs ts') (requested_policy spec ltls) r"
proof -
  obtain q where t: "route_tls env held spec ltls ts = (q, ts')"
    using assms(1) by (auto simp: build_route_def Let_def split: prod.splits sum.splits if_splits)
  note tls = route_tls_policy [OF t assms(2-4)]
  show "tls_inv (be_lib env) (be_sha256 env) H ts'" "\<exists>new. configs ts' = configs ts @ new"
    by (fact tls(1), fact tls(2))
  assume res: "res = Inr r"
  have "q = Inr (rt_tls_config r) \<and> rt_terminate_tls r = rs_terminate_tls spec \<and>
    rt_requires_client_cert r = (rs_terminate_tls spec \<and>
       (case effective_mtls spec ltls of Some (_, required) \<Rightarrow> required | None \<Rightarrow> False))"
  proof (cases q)
    case (Inr tls)
    obtain e st where d: "build_destinations (be_linux env) now spec inh (base w) = (e, st)" by fastforce
    show ?thesis
    proof (cases e)
      case (Inl x)
      then show ?thesis using assms(1) unfolding res build_route_def t Let_def Inr d by simp
    next
      case e: (Inr p)
      obtain dest h2 where p: "p = (dest, h2)" by fastforce
      obtain limiter w2 where l: "(case rs_max_cps spec of None \<Rightarrow> (None, w\<lparr>base := st\<rparr>)
          | Some cps \<Rightarrow> (Some (length (buckets (w\<lparr>base := st\<rparr>))),
               w\<lparr>base := st, buckets := buckets (w\<lparr>base := st\<rparr>) @ [route_token_bucket_new now cps (rs_burst spec)]\<rparr>)) = (limiter, w2)"
        by fastforce
      show ?thesis
        using assms(1) unfolding res build_route_def t Let_def Inr d e p prod.case sum.case l
        by (clarsimp split: if_split_asm)
    qed
  qed (use assms(1) in \<open>simp add: res build_route_def t\<close>)
  with tls(3) [of "rt_tls_config r"] show "enforces (be_lib env) (configs ts') (requested_policy spec ltls) r"
    by (auto simp: enforces_def requested_policy_def split: option.splits)
qed

lemma finish_route_spec:
  assumes "finish_route env now carried down prev sources policy grp r w = (r', w')"
  shows "rt_allowed_sources r' = sources" "enforces lib cfgs pol r' = enforces lib cfgs pol r"
  using assms by (auto simp: finish_route_def Let_def split: prod.splits if_splits option.splits)

text \<open>Two tables that answer every lookup alike.\<close>

definition same_lookups :: "route_table \<Rightarrow> route_table \<Rightarrow> bool" where
  "same_lookups t t' \<longleftrightarrow>
     (\<forall>n. get_for_spec_sni n t' = get_for_spec_sni n t \<and> dropped n t' = dropped n t) \<and> client_auths t' = client_auths t"

lemma same_lookups_bookkeeping [simp]:
  "same_lookups t (fail_sni name (note_invalid n x y t))" "same_lookups t (fail_sni name t)" "same_lookups t (note_invalid n x y t)"
  by (simp_all add: same_lookups_def)

text \<open>A route is as its specification asks.\<close>

definition as_specified :: "build_env \<Rightarrow> listener_tls_spec \<Rightarrow> server_config list \<Rightarrow> route_spec \<Rightarrow> route \<Rightarrow> bool" where
  "as_specified env ltls cfgs spec r \<longleftrightarrow>
     enforces (be_lib env) cfgs (requested_policy spec ltls) r \<and>
     parse_allowlist (be_parse_net env) (be_new_v4 env) (rs_allowed_sources spec) = Inr (rt_allowed_sources r)"

text \<open>One specification is either rejected, or installed with a route that is as it asks.\<close>

definition outcome ::
    "build_env \<Rightarrow> listener_tls_spec \<Rightarrow> route_spec \<Rightarrow> server_config list \<Rightarrow> route_table \<Rightarrow> route_table \<Rightarrow> bool" where
  "outcome env ltls spec cfgs t t' \<longleftrightarrow>
     (\<exists>t1. same_lookups t t1 \<and>
        (t' = tombstone (rs_sni spec) t1 \<or>
         (\<exists>st r. t' = install_route st (rs_sni spec) (auth_value (be_sha256 env) (requested_policy spec ltls)) r t1 \<and>
            as_specified env ltls cfgs spec r)))"

lemma outcome_install:
  "same_lookups t t1 \<Longrightarrow> as_specified env ltls cfgs spec r \<Longrightarrow>
   outcome env ltls spec cfgs t
     (install_route st (rs_sni spec) (auth_value (be_sha256 env) (requested_policy spec ltls)) r t1)"
  unfolding outcome_def by blast

lemma outcome_drop: "same_lookups t t1 \<Longrightarrow> outcome env ltls spec cfgs t (tombstone (rs_sni spec) t1)"
  unfolding outcome_def by blast

lemma decide_route_spec:
  assumes "tls_inv (be_lib env) (be_sha256 env) H (bts b)" "good_digest (be_sha256 env) H"
    and "policy_hashed H (requested_policy spec ltls)"
    and "\<And>p. previous = Some p \<Longrightarrow> table_ok (be_lib env) (be_sha256 env) H (configs (bts b)) p"
    and "decide_route env held now ltls previous spec sources b = b'"
    and "parse_allowlist (be_parse_net env) (be_new_v4 env) (rs_allowed_sources spec) = Inr sources"
  shows "tls_inv (be_lib env) (be_sha256 env) H (bts b')" "\<exists>new. configs (bts b') = configs (bts b) @ new"
    and "configured_wildcards b' = configured_wildcards b"
    and "outcome env ltls spec (configs (bts b')) (bt b) (bt b')"
proof -
  define prev where "prev = (case previous of Some p \<Rightarrow> get_for_spec_sni (rs_sni spec) p | None \<Rightarrow> None)"
  obtain policy bad_f bad_s where pol: "failover_policy_of spec = (policy, bad_f, bad_s)" by (metis prod_cases3)
  define t where "t = note_invalid (rs_sni spec) bad_f bad_s (bt b)"
  define down where "down = (case prev of Some p \<Rightarrow> is_route_down (bw b) p | None \<Rightarrow> False)"
  define auth where "auth = auth_value (be_sha256 env) (requested_policy spec ltls)"
  define install where "install = (\<lambda>carried r t ts w.
     let (r', w') = finish_route env now carried down prev sources policy (rs_metrics_group spec) r w
     in b\<lparr>bt := install_route (base w') (rs_sni spec) auth r' t, bts := ts, bw := w'\<rparr>)"
  obtain res ts w where br: "build_route env (\<lambda>c. held c \<or> in_table (bt b) c) now spec ltls
      \<lparr>in_previous = prev, in_track_health = (policy \<noteq> None), in_refuse_new = down\<rparr> (bts b) (bw b) = (res, ts, w)"
    by (metis prod_cases3)
  note bre = build_route_enforces [OF br assms(1-3)]
  have b': "b' = (case res of Inr r \<Rightarrow> install False r t ts w
      | Inl e \<Rightarrow> (case last_good previous (rs_sni spec) auth of
            Some (p, True) \<Rightarrow> install True p (fail_sni (rs_sni spec) t) ts w
          | _ \<Rightarrow> b\<lparr>bt := tombstone (rs_sni spec) (fail_sni (rs_sni spec) t), bts := ts, bw := w\<rparr>))"
    using assms(5) br
    unfolding decide_route_def Let_def pol prod.case client_auth_of_policy prev_def [symmetric] down_def [symmetric] auth_def [symmetric]
      t_def [symmetric] install_def by (auto split: sum.splits)
  have inst: "bts b2 = ts \<and> configured_wildcards b2 = configured_wildcards b \<and> outcome env ltls spec (configs ts) (bt b) (bt b2)"
    if "install carried r t1 ts w = b2" "enforces (be_lib env) (configs ts) (requested_policy spec ltls) r" "same_lookups (bt b) t1"
    for carried r t1 b2
  proof -
    obtain r' w' where f: "finish_route env now carried down prev sources policy (rs_metrics_group spec) r w = (r', w')" by fastforce
    then have "b2 = b\<lparr>bt := install_route (base w') (rs_sni spec) auth r' t1, bts := ts, bw := w'\<rparr>"
      using that(1) by (simp add: install_def)
    then show ?thesis using outcome_install [OF that(3)] that(2) finish_route_spec [OF f] assms(6) by (simp add: auth_def as_specified_def)
  qed
  have good: "enforces (be_lib env) (configs ts) (requested_policy spec ltls) p"
    if lg: "last_good previous (rs_sni spec) auth = Some (p, True)" for p
  proof -
    obtain pt where pt: "previous = Some pt" "get_for_spec_sni (rs_sni spec) pt = Some p" "client_auths pt (rs_sni spec) = Some auth"
      using lg by (auto simp: last_good_def split: option.splits)
    obtain q where q: "policy_hashed H q" "auth_value (be_sha256 env) q = auth" "enforces (be_lib env) (configs (bts b)) q p"
      using assms(4) [OF pt(1)] pt(2,3) unfolding table_ok_def by force
    have "q = requested_policy spec ltls" using auth_value_inject [OF assms(2) q(1) assms(3)] q(2) by (simp add: auth_def)
    then show ?thesis using q(3) bre(2) enforces_append by force
  qed
  have tb: "same_lookups (bt b) t" "same_lookups (bt b) (fail_sni (rs_sni spec) t)" by (simp_all add: t_def)
  have "bts b' = ts \<and> configured_wildcards b' = configured_wildcards b \<and>
      outcome env ltls spec (configs ts) (bt b) (bt b')"
  proof (cases res)
    case (Inr r)
    then show ?thesis using inst [OF _ bre(3) tb(1)] b' by simp
  next
    case (Inl e)
    show ?thesis
    proof (cases "\<exists>p. last_good previous (rs_sni spec) auth = Some (p, True)")
      case True
      then obtain p where p: "last_good previous (rs_sni spec) auth = Some (p, True)" by blast
      then show ?thesis using inst [OF _ good [OF p] tb(2)] b' Inl by simp
    next
      case False
      then have "b' = b\<lparr>bt := tombstone (rs_sni spec) (fail_sni (rs_sni spec) t), bts := ts, bw := w\<rparr>"
        using b' Inl by (auto split: option.splits prod.splits bool.splits)
      then show ?thesis using outcome_drop [OF tb(2)] by simp
    qed
  qed
  then show "tls_inv (be_lib env) (be_sha256 env) H (bts b')" "\<exists>new. configs (bts b') = configs (bts b) @ new"
    "configured_wildcards b' = configured_wildcards b" "outcome env ltls spec (configs (bts b')) (bt b) (bt b')"
    using bre(1,2) by simp_all
qed

lemma admit_spec_spec:
  assumes "tls_inv (be_lib env) (be_sha256 env) H (bts b)" "good_digest (be_sha256 env) H"
    and "policy_hashed H (requested_policy spec ltls)"
    and "\<And>p. previous = Some p \<Longrightarrow> table_ok (be_lib env) (be_sha256 env) H (configs (bts b)) p"
    and "admit_spec env held now ltls previous spec b = b'"
  shows "tls_inv (be_lib env) (be_sha256 env) H (bts b') \<and> (\<exists>new. configs (bts b') = configs (bts b) @ new) \<and>
    configured_wildcards b' = configured_wildcards b \<and>
    outcome env ltls spec (configs (bts b')) (bt b) (bt b')"
proof (cases "b' = b\<lparr>bt := tombstone (rs_sni spec) (fail_sni (rs_sni spec) (bt b))\<rparr>")
  case True
  then show ?thesis using assms(1) outcome_drop [OF same_lookups_bookkeeping(2)] by auto
next
  case False
  then obtain sources where s: "parse_allowlist (be_parse_net env) (be_new_v4 env) (rs_allowed_sources spec) = Inr sources"
      "decide_route env held now ltls previous spec sources b = b'"
    using assms(5) by (auto simp: admit_spec_def split: option.splits sum.splits)
  then show ?thesis using decide_route_spec [OF assms(1-4) s(2,1)] by simp
qed

subsection \<open>The specification that decides a name\<close>

definition deciding :: "route_spec list \<Rightarrow> bytes \<Rightarrow> route_spec option" where
  "deciding specs name = find (\<lambda>s. rs_sni s = name) (if is_wildcard name then specs else rev specs)"

lemma find_unique_prefix:
  "i < length xs \<Longrightarrow> P (xs ! i) \<Longrightarrow> (\<And>j. j < i \<Longrightarrow> \<not> P (xs ! j)) \<Longrightarrow> find P xs = Some (xs ! i)"
  by (auto simp: find_Some_iff)

lemma find_rev_enumerate: "find P (rev xs) = map_option snd (find (\<lambda>(_, s). P s) (rev (enumerate n xs)))"
proof (induction xs arbitrary: n)
  case (Cons x xs)
  show ?case using Cons [of "Suc n"] by (auto simp: find_append split: option.splits)
qed simp

lemma deciding_exact:
  assumes "\<not> is_wildcard name" "last_exact specs name = Some i" "i < length specs"
  shows "deciding specs name = Some (specs ! i)"
proof -
  obtain x where x: "find (\<lambda>(_, s). rs_sni s = name) (rev (enumerate 0 specs)) = Some (i, x)"
    using assms by (auto simp: last_exact_def is_wildcard_def)
  then have "(i, x) \<in> set (enumerate 0 specs)" by (metis (lifting) find_Some_iff nth_mem set_rev)
  then have "x = specs ! i" by (auto simp: in_set_enumerate_eq)
  then show ?thesis using x assms(1) find_rev_enumerate [of "\<lambda>s. rs_sni s = name" specs 0] by (simp add: deciding_def)
qed

lemma deciding_wildcard:
  assumes "is_wildcard name" "i < length specs" "rs_sni (specs ! i) = name" "name \<notin> rs_sni ` set (take i specs)"
  shows "deciding specs name = Some (specs ! i)"
proof -
  have "rs_sni (specs ! j) \<noteq> name" if "j < i" for j
    using assms(2,4) that by (auto simp: nth_image [symmetric] image_image image_iff)
  then show ?thesis using assms(1-3) find_unique_prefix [of i specs "\<lambda>s. rs_sni s = name"] by (simp add: deciding_def)
qed

subsection \<open>The invariant of the loop over the specifications\<close>

definition loop_inv ::
    "build_env \<Rightarrow> bytes set \<Rightarrow> listener_tls_spec \<Rightarrow> route_spec list \<Rightarrow> server_config list \<Rightarrow> nat \<Rightarrow> building \<Rightarrow> bool" where
  "loop_inv env H ltls specs cfgs i b \<longleftrightarrow>
     tls_inv (be_lib env) (be_sha256 env) H (bts b) \<and> (\<exists>new. configs (bts b) = cfgs @ new) \<and>
     (\<forall>sfx. sfx \<in> configured_wildcards b \<longleftrightarrow> wildcard_prefix @ sfx \<in> rs_sni ` set (take i specs)) \<and>
     (\<forall>j < i. last_exact specs (rs_sni (specs ! j)) \<in> {None, Some j} \<longrightarrow> decided (rs_sni (specs ! j)) (bt b)) \<and>
     (\<forall>name r. get_for_spec_sni name (bt b) = Some r \<longrightarrow> name \<in> rs_sni ` set (take i specs) \<and>
        (\<exists>spec. deciding specs name = Some spec \<and> as_specified env ltls (configs (bts b)) spec r \<and>
           client_auths (bt b) name = Some (auth_value (be_sha256 env) (requested_policy spec ltls))))"

lemma outcome_lookups:
  assumes "outcome env ltls spec cfgs t t'" "is_wildcard (rs_sni spec) \<longrightarrow> get_for_spec_sni (rs_sni spec) t = None"
  shows "decided (rs_sni spec) t'" "decided n t \<Longrightarrow> decided n t'"
    and "get_for_spec_sni n t' = Some r \<Longrightarrow> get_for_spec_sni n t = Some r \<and> client_auths t' n = client_auths t n \<or>
       n = rs_sni spec \<and> as_specified env ltls cfgs spec r \<and>
       client_auths t' n = Some (auth_value (be_sha256 env) (requested_policy spec ltls))"
proof -
  obtain t1 where t1: "same_lookups t t1"
    and alt: "t' = tombstone (rs_sni spec) t1 \<or>
         (\<exists>st r. t' = install_route st (rs_sni spec) (auth_value (be_sha256 env) (requested_policy spec ltls)) r t1 \<and>
            as_specified env ltls cfgs spec r)"
    using assms(1) unfolding outcome_def by blast
  have gi: "get_for_spec_sni n (install_route st (rs_sni spec) a r t1) = (if n = rs_sni spec then Some r else get_for_spec_sni n t1)" for n st a r
    using assms(2) t1 by (intro get_install) (simp add: same_lookups_def)
  show "decided (rs_sni spec) t'" "decided n t \<Longrightarrow> decided n t'"
    using alt t1 by (auto simp: decided_def gi same_lookups_def)
  show "get_for_spec_sni n t' = Some r \<Longrightarrow> get_for_spec_sni n t = Some r \<and> client_auths t' n = client_auths t n \<or>
       n = rs_sni spec \<and> as_specified env ltls cfgs spec r \<and>
       client_auths t' n = Some (auth_value (be_sha256 env) (requested_policy spec ltls))"
    using alt t1 by (auto simp: gi same_lookups_def split: if_splits)
qed

lemma last_exact_Some: "last_exact specs name = Some j \<Longrightarrow> \<not> is_wildcard name"
  by (auto simp: last_exact_def is_wildcard_def split: if_splits)

lemma last_exact_wildcard: "is_wildcard name \<Longrightarrow> last_exact specs name = None"
  by (simp add: last_exact_def is_wildcard_def)

lemma last_exact_configured:
  assumes "name \<in> rs_sni ` set specs" "\<not> is_wildcard name"
  obtains j where "last_exact specs name = Some j" "j < length specs" "rs_sni (specs ! j) = name"
proof -
  obtain i where i: "i < length specs" "rs_sni (specs ! i) = name" using assms(1) by (auto simp: in_set_conv_nth)
  then have "(i, specs ! i) \<in> set (rev (enumerate 0 specs))" by (auto simp: in_set_enumerate_eq)
  then obtain j s where js: "find (\<lambda>(_, s). rs_sni s = name) (rev (enumerate 0 specs)) = Some (j, s)"
    using i(2) by (cases "find (\<lambda>(_, s). rs_sni s = name) (rev (enumerate 0 specs))") (auto simp: find_None_iff)
  then have "(j, s) \<in> set (enumerate 0 specs)" "rs_sni s = name"
    by (metis (lifting) find_Some_iff nth_mem set_rev, auto simp: find_Some_iff)
  then show thesis using that [of j] js assms(2) by (auto simp: last_exact_def is_wildcard_def in_set_enumerate_eq)
qed

lemma as_specified_append: "as_specified env ltls cfgs spec r \<Longrightarrow> as_specified env ltls (cfgs @ new) spec r"
  by (auto simp: as_specified_def enforces_append)

lemma table_ok_append: "table_ok lib sha256 H cfgs t \<Longrightarrow> table_ok lib sha256 H (cfgs @ new) t"
  unfolding table_ok_def using enforces_append by blast

lemma loop_inv_admit:
  assumes inv: "loop_inv env H ltls specs cfgs i b" and i: "i < length specs" "specs ! i = spec"
    and fresh: "if is_wildcard (rs_sni spec) then rs_sni spec \<notin> rs_sni ` set (take i specs) else last_exact specs (rs_sni spec) = Some i"
    and tls: "tls_inv (be_lib env) (be_sha256 env) H (bts b')" "\<exists>new. configs (bts b') = configs (bts b) @ new"
    and wild: "\<forall>sfx. sfx \<in> configured_wildcards b' \<longleftrightarrow> wildcard_prefix @ sfx \<in> rs_sni ` set (take (Suc i) specs)"
    and out: "outcome env ltls spec (configs (bts b')) (bt b) (bt b')"
  shows "loop_inv env H ltls specs cfgs (Suc i) b'"
proof -
  have names: "get_for_spec_sni n (bt b) = Some r \<Longrightarrow> n \<in> rs_sni ` set (take i specs)" for n r
    using inv unfolding loop_inv_def by blast
  have new: "is_wildcard (rs_sni spec) \<longrightarrow> get_for_spec_sni (rs_sni spec) (bt b) = None"
    using fresh names by (cases "get_for_spec_sni (rs_sni spec) (bt b)") auto
  note lk = outcome_lookups [OF out new]
  have dec: "deciding specs (rs_sni spec) = Some spec"
    using fresh deciding_wildcard [OF _ i(1)] deciding_exact [OF _ _ i(1)] i(2) by (auto split: if_splits)
  have take: "set (take (Suc i) specs) = insert spec (set (take i specs))"
    using i by (simp add: take_Suc_conv_app_nth)
  have "\<exists>new. configs (bts b') = cfgs @ new"
    using inv tls(2) unfolding loop_inv_def by (metis append_assoc)
  moreover have "\<forall>j < Suc i. last_exact specs (rs_sni (specs ! j)) \<in> {None, Some j} \<longrightarrow> decided (rs_sni (specs ! j)) (bt b')"
    using inv lk(1,2) i(2) unfolding loop_inv_def by (metis less_Suc_eq)
  moreover have "n \<in> rs_sni ` set (take (Suc i) specs) \<and>
      (\<exists>sp. deciding specs n = Some sp \<and> as_specified env ltls (configs (bts b')) sp r \<and>
         client_auths (bt b') n = Some (auth_value (be_sha256 env) (requested_policy sp ltls)))"
    if g: "get_for_spec_sni n (bt b') = Some r" for n r
    using lk(3) [OF g]
  proof (elim disjE conjE)
    assume old: "get_for_spec_sni n (bt b) = Some r" "client_auths (bt b') n = client_auths (bt b) n"
    obtain sp where "deciding specs n = Some sp" "as_specified env ltls (configs (bts b)) sp r"
        "client_auths (bt b) n = Some (auth_value (be_sha256 env) (requested_policy sp ltls))"
      using inv old(1) unfolding loop_inv_def by blast
    moreover have "n \<in> rs_sni ` set (take (Suc i) specs)" using names [OF old(1)] take by simp
    ultimately show ?thesis using old(2) tls(2) as_specified_append by fastforce
  next
    assume "n = rs_sni spec" "as_specified env ltls (configs (bts b')) spec r"
      "client_auths (bt b') n = Some (auth_value (be_sha256 env) (requested_policy spec ltls))"
    then show ?thesis using dec take by simp
  qed
  ultimately show ?thesis using tls(1) wild unfolding loop_inv_def by blast
qed

lemma loop_inv_skip:
  assumes "loop_inv env H ltls specs cfgs i b" "i < length specs"
    and "\<not> is_wildcard (rs_sni (specs ! i)) \<and> last_exact specs (rs_sni (specs ! i)) \<notin> {None, Some i} \<or>
      rs_sni (specs ! i) \<in> rs_sni ` set (take i specs) \<and> decided (rs_sni (specs ! i)) (bt b)"
    and "same_lookups (bt b) (bt b')" "bts b' = bts b" "configured_wildcards b' = configured_wildcards b"
  shows "loop_inv env H ltls specs cfgs (Suc i) b'"
proof -
  have take: "rs_sni ` set (take (Suc i) specs) = insert (rs_sni (specs ! i)) (rs_sni ` set (take i specs))"
    using assms(2) by (simp add: take_Suc_conv_app_nth)
  have dec: "decided n (bt b') = decided n (bt b)" for n using assms(4) by (simp add: decided_def same_lookups_def)
  have "(wildcard_prefix @ sfx \<in> rs_sni ` set (take (Suc i) specs)) = (wildcard_prefix @ sfx \<in> rs_sni ` set (take i specs))" for sfx
    using assms(3) unfolding take by (metis insert_iff is_wildcard_append)
  moreover have "\<forall>j < Suc i. last_exact specs (rs_sni (specs ! j)) \<in> {None, Some j} \<longrightarrow> decided (rs_sni (specs ! j)) (bt b')"
    using assms(1,3) unfolding loop_inv_def dec by (metis less_Suc_eq)
  ultimately show ?thesis using assms(1,4-6) unfolding loop_inv_def same_lookups_def take by simp
qed

lemma add_spec_inv:
  assumes inv: "loop_inv env H ltls specs cfgs i b" and i: "i < length specs" and dig: "good_digest (be_sha256 env) H"
    and hash: "policy_hashed H (requested_policy (specs ! i) ltls)"
    and prev: "\<And>p. previous = Some p \<Longrightarrow> table_ok (be_lib env) (be_sha256 env) H cfgs p"
  shows "loop_inv env H ltls specs cfgs (Suc i) (add_spec env held clock ltls previous specs (i, specs ! i) b)" (is "loop_inv _ _ _ _ _ _ ?b'")
proof -
  define spec where "spec = specs ! i"
  have tls: "tls_inv (be_lib env) (be_sha256 env) H (bts b)" and cfgs: "\<exists>new. configs (bts b) = cfgs @ new"
    and wild: "\<And>sfx. sfx \<in> configured_wildcards b \<longleftrightarrow> wildcard_prefix @ sfx \<in> rs_sni ` set (take i specs)"
    using inv unfolding loop_inv_def by blast+
  have prev': "\<And>p. previous = Some p \<Longrightarrow> table_ok (be_lib env) (be_sha256 env) H (configs (bts b)) p"
    using prev cfgs table_ok_append by metis
  have take: "rs_sni ` set (take (Suc i) specs) = insert (rs_sni spec) (rs_sni ` set (take i specs))"
    using i by (simp add: take_Suc_conv_app_nth spec_def)
  have admit: "loop_inv env H ltls specs cfgs (Suc i) (admit_spec env held (clock i) ltls previous spec b1)"
    if "bts b1 = bts b" "bt b1 = bt b" "\<forall>sfx. sfx \<in> configured_wildcards b1 \<longleftrightarrow> wildcard_prefix @ sfx \<in> rs_sni ` set (take (Suc i) specs)"
      and "if is_wildcard (rs_sni spec) then rs_sni spec \<notin> rs_sni ` set (take i specs) else last_exact specs (rs_sni spec) = Some i" for b1
  proof -
    note a = admit_spec_spec [of env H b1 spec ltls previous held "clock i", OF _ dig, unfolded that(1,2), OF tls hash [folded spec_def] prev' refl]
    show ?thesis using loop_inv_admit [OF inv i spec_def [symmetric] that(4)] a that(3) by simp
  qed
  show ?thesis
  proof (cases "rs_sni spec" rule: wildcard_cases)
    case (wildcard sfx)
    show ?thesis
    proof (cases "sfx \<in> configured_wildcards b")
      case True
      then have dup: "rs_sni spec \<in> rs_sni ` set (take i specs)" using wild wildcard by simp
      then obtain j where "j < i" "rs_sni (specs ! j) = rs_sni spec"
        using i by (auto simp: in_set_conv_nth)
      then have "decided (rs_sni spec) (bt b)"
        using inv wildcard last_exact_wildcard [of "rs_sni spec" specs] unfolding loop_inv_def by (metis insertCI is_wildcard_append)
      moreover have "?b' = b\<lparr>bt := fail_sni (rs_sni spec) (bt b)\<rparr>"
        using True wildcard by (simp add: add_spec_def spec_def [symmetric] last_exact_wildcard)
      ultimately show ?thesis using dup by (intro loop_inv_skip [OF inv i]) (simp_all add: spec_def)
    next
      case False
      then have "?b' = admit_spec env held (clock i) ltls previous spec (b\<lparr>configured_wildcards := insert sfx (configured_wildcards b)\<rparr>)"
        using wildcard by (simp add: add_spec_def spec_def [symmetric] last_exact_wildcard)
      moreover have "rs_sni spec \<notin> rs_sni ` set (take i specs)" using False wild wildcard by simp
      ultimately show ?thesis using admit wild wildcard by (simp add: take)
    qed
  next
    case plain
    then obtain j where j: "last_exact specs (rs_sni spec) = Some j" "j < length specs"
      using last_exact_configured [of "rs_sni spec" specs] i unfolding spec_def by (metis image_eqI nth_mem)
    show ?thesis
    proof (cases "j = i")
      case True
      then have "?b' = admit_spec env held (clock i) ltls previous spec b"
        using plain j by (simp add: add_spec_def spec_def [symmetric] not_wildcard_strip)
      then show ?thesis using admit [of b] plain j(1) True wild unfolding take by (metis insert_iff is_wildcard_append)
    next
      case False
      then have "?b' = b" using j by (simp add: add_spec_def spec_def [symmetric])
      then show ?thesis using False j plain by (intro loop_inv_skip [OF inv i]) (simp_all add: spec_def same_lookups_def)
    qed
  qed
qed

lemma fold_enumerate_inv:
  assumes "I n b" "\<And>i b. i < length xs \<Longrightarrow> I (n + i) b \<Longrightarrow> I (Suc (n + i)) (f (n + i, xs ! i) b)"
  shows "I (n + length xs) (fold f (enumerate n xs) b)"
  using assms
proof (induction xs arbitrary: n b)
  case (Cons x xs)
  have "I (Suc n + length xs) (fold f (enumerate (Suc n) xs) (f (n, x) b))"
  proof (rule Cons.IH)
    show "I (Suc n) (f (n, x) b)" using Cons.prems(1) Cons.prems(2) [of 0 b] by simp
    show "I (Suc n + i) b' \<Longrightarrow> i < length xs \<Longrightarrow> I (Suc (Suc n + i)) (f (Suc n + i, xs ! i) b')" for i b'
      using Cons.prems(2) [of "Suc i" b'] by simp
  qed
  then show ?case by simp
qed simp

lemma loop_inv_start:
  assumes "tls_inv (be_lib env) (be_sha256 env) H ts"
  shows "loop_inv env H ltls specs (configs ts) 0
    \<lparr>bt = route_table_empty, configured_wildcards = {}, bts = ts\<lparr>tcache := clear_used held (tcache ts)\<rparr>, bw = w\<rparr>"
proof -
  have "tls_inv (be_lib env) (be_sha256 env) H (ts\<lparr>tcache := clear_used held (tcache ts)\<rparr>)"
    by (rule tls_inv_subset [OF assms]) (use set_evict_unreferenced in \<open>force simp: clear_used_def\<close>)+
  moreover have "get_for_spec_sni name route_table_empty = None" for name
    by (simp add: get_for_spec_sni_def route_table_empty_def split: option.splits)
  ultimately show ?thesis by (simp add: loop_inv_def)
qed

lemma build_route_table_fold:
  assumes "build_route_table env held clock specs ltls previous ts w = (t, ts', w')"
  obtains b where "b = fold (add_spec env held clock ltls previous specs) (enumerate 0 specs)
      \<lparr>bt = route_table_empty, configured_wildcards = {}, bts = ts\<lparr>tcache := clear_used held (tcache ts)\<rparr>, bw = w\<rparr>"
    "same_lookups (bt b) t" "bts b = ts'" "exact t = exact (bt b)"
  using assms by (auto simp: build_route_table_def Let_def same_lookups_def get_for_spec_sni_def dropped_def split: option.splits)

lemma build_route_table_inv:
  assumes b: "build_route_table env held clock specs ltls previous ts w = (t, ts', w')"
    and tls: "tls_inv (be_lib env) (be_sha256 env) H ts" and dig: "good_digest (be_sha256 env) H"
    and hash: "\<And>spec. spec \<in> set specs \<Longrightarrow> policy_hashed H (requested_policy spec ltls)"
    and prev: "\<And>p. previous = Some p \<Longrightarrow> table_ok (be_lib env) (be_sha256 env) H (configs ts) p"
  shows "tls_inv (be_lib env) (be_sha256 env) H ts'" "\<exists>new. configs ts' = configs ts @ new"
    and "table_ok (be_lib env) (be_sha256 env) H (configs ts') t"
    and "get_for_spec_sni name t = Some r \<Longrightarrow>
      \<exists>spec. deciding specs name = Some spec \<and> as_specified env ltls (configs ts') spec r"
proof -
  obtain bb where bb: "bb = fold (add_spec env held clock ltls previous specs) (enumerate 0 specs)
      \<lparr>bt = route_table_empty, configured_wildcards = {}, bts = ts\<lparr>tcache := clear_used held (tcache ts)\<rparr>, bw = w\<rparr>"
    "same_lookups (bt bb) t" "bts bb = ts'"
    using build_route_table_fold [OF b] by blast
  have inv: "loop_inv env H ltls specs (configs ts) (length specs) bb"
    unfolding bb(1) using fold_enumerate_inv [where I = "loop_inv env H ltls specs (configs ts)" and n = 0 and xs = specs,
      OF loop_inv_start [OF tls]] add_spec_inv [OF _ _ dig hash prev] by simp
  then show "tls_inv (be_lib env) (be_sha256 env) H ts'" "\<exists>new. configs ts' = configs ts @ new"
    unfolding loop_inv_def bb(3) by blast+
  have installed: "\<exists>spec. deciding specs n = Some spec \<and> as_specified env ltls (configs ts') spec r \<and>
      client_auths t n = Some (auth_value (be_sha256 env) (requested_policy spec ltls))"
    if "get_for_spec_sni n t = Some r" for n r
    using inv that bb(2,3) unfolding loop_inv_def same_lookups_def by metis
  then show "get_for_spec_sni name t = Some r \<Longrightarrow>
      \<exists>spec. deciding specs name = Some spec \<and> as_specified env ltls (configs ts') spec r" by blast
  have "spec \<in> set specs" if "deciding specs n = Some spec" for n spec
    using that by (auto simp: deciding_def find_Some_iff split: if_splits)
      (metis length_rev nth_mem set_rev)
  then show "table_ok (be_lib env) (be_sha256 env) H (configs ts') t"
    unfolding table_ok_def using installed hash by (metis as_specified_def)
qed

subsection \<open>Every configured name is decided\<close>

lemma admit_spec_lookups:
  "\<exists>t1. same_lookups (bt b) t1 \<and>
     (bt (admit_spec env held now ltls previous spec b) = tombstone (rs_sni spec) t1 \<or>
      (\<exists>st a r. bt (admit_spec env held now ltls previous spec b) = install_route st (rs_sni spec) a r t1)) \<and>
     configured_wildcards (admit_spec env held now ltls previous spec b) = configured_wildcards b"
proof -
  have "\<exists>t1. same_lookups (bt b) t1 \<and>
     (bt (decide_route env held now ltls previous spec sources b) = tombstone (rs_sni spec) t1 \<or>
      (\<exists>st a r. bt (decide_route env held now ltls previous spec sources b) = install_route st (rs_sni spec) a r t1)) \<and>
     configured_wildcards (decide_route env held now ltls previous spec sources b) = configured_wildcards b" for sources
  proof -
    obtain policy bad_f bad_s where pol: "failover_policy_of spec = (policy, bad_f, bad_s)" by (metis prod_cases3)
    have sl: "same_lookups (bt b) (note_invalid (rs_sni spec) bad_f bad_s (bt b))"
      "same_lookups (bt b) (fail_sni (rs_sni spec) (note_invalid (rs_sni spec) bad_f bad_s (bt b)))" by simp_all
    show ?thesis
      unfolding decide_route_def Let_def pol prod.case
      by (auto split: prod.split sum.split option.split bool.split intro: sl)
  qed
  then show ?thesis
    by (auto simp: admit_spec_def split: option.split sum.split intro: same_lookups_bookkeeping(2))
qed

lemma get_install_keeps:
  assumes "get_for_spec_sni n t \<noteq> None"
  shows "get_for_spec_sni n (install_route st name a r t) \<noteq> None"
proof (cases name rule: wildcard_cases)
  case (wildcard sfx)
  then show ?thesis using assms
    by (cases n rule: wildcard_cases)
      (auto simp: get_for_spec_sni_def install_route_def Let_def find_append not_wildcard_strip split: option.splits)
next
  case plain
  then show ?thesis using assms get_install [of name t n st a r] by auto
qed

lemma get_install_self: "get_for_spec_sni name (install_route st name a r t) \<noteq> None"
proof (cases name rule: wildcard_cases)
  case (wildcard sfx)
  then show ?thesis
    by (auto simp: get_for_spec_sni_def install_route_def Let_def find_append split: option.splits)
next
  case plain
  then show ?thesis using get_install [of name t name st a r] by auto
qed

lemma admit_spec_decides:
  "decided (rs_sni spec) (bt (admit_spec env held now ltls previous spec b))"
  "decided n (bt b) \<Longrightarrow> decided n (bt (admit_spec env held now ltls previous spec b))"
  "configured_wildcards (admit_spec env held now ltls previous spec b) = configured_wildcards b"
  using admit_spec_lookups [of b env held now ltls previous spec] get_install_keeps get_install_self
  unfolding decided_def same_lookups_def by (metis dropped_tombstone, metis bookkeeping(7) dropped_install dropped_tombstone, blast)

definition decided_inv :: "route_spec list \<Rightarrow> nat \<Rightarrow> building \<Rightarrow> bool" where
  "decided_inv specs i b \<longleftrightarrow>
     (\<forall>sfx \<in> configured_wildcards b. decided (wildcard_prefix @ sfx) (bt b)) \<and>
     (\<forall>j < i. last_exact specs (rs_sni (specs ! j)) \<in> {None, Some j} \<longrightarrow> decided (rs_sni (specs ! j)) (bt b))"

lemma add_spec_decides:
  assumes "decided_inv specs i b" "i < length specs"
  shows "decided_inv specs (Suc i) (add_spec env held clock ltls previous specs (i, specs ! i) b)"
    (is "decided_inv specs _ ?b'")
proof -
  let ?n = "rs_sni (specs ! i)"
  have fail: "decided n (fail_sni m t) = decided n t" for n m t by (simp add: decided_def)
  have keep: "decided n (bt ?b')" if "decided n (bt b)" for n
    using that by (auto simp: add_spec_def fail intro: admit_spec_decides(2) split: option.splits)
  have self: "decided ?n (bt ?b')" if "last_exact specs ?n \<in> {None, Some i}"
  proof (cases ?n rule: wildcard_cases)
    case (wildcard sfx)
    show ?thesis
    proof (cases "sfx \<in> configured_wildcards b")
      case True
      then have "decided ?n (bt b)" using assms(1) wildcard by (simp add: decided_inv_def)
      then show ?thesis by (rule keep)
    next
      case False
      then have "?b' = admit_spec env held (clock i) ltls previous (specs ! i)
          (b\<lparr>configured_wildcards := insert sfx (configured_wildcards b)\<rparr>)"
        using wildcard by (simp add: add_spec_def last_exact_wildcard)
      then show ?thesis by (simp add: admit_spec_decides(1))
    qed
  next
    case plain
    then have "?b' = admit_spec env held (clock i) ltls previous (specs ! i) b"
      using that by (auto simp: add_spec_def not_wildcard_strip)
    then show ?thesis by (simp add: admit_spec_decides(1))
  qed
  have "sfx \<in> configured_wildcards ?b' \<Longrightarrow> sfx \<in> configured_wildcards b \<or> wildcard_prefix @ sfx = ?n \<and> last_exact specs ?n = None" for sfx
    by (auto simp: add_spec_def admit_spec_decides(3) strip_prefix_Some_iff last_exact_wildcard split: option.splits if_splits)
  then show ?thesis
    using assms(1) keep self unfolding decided_inv_def by (metis insertCI less_Suc_eq)
qed

lemma configured_decided:
  assumes "build_route_table env held clock specs ltls previous ts w = (t, ts', w')" "name \<in> rs_sni ` set specs"
  shows "decided name t"
proof -
  obtain b where b: "b = fold (add_spec env held clock ltls previous specs) (enumerate 0 specs)
      \<lparr>bt = route_table_empty, configured_wildcards = {}, bts = ts\<lparr>tcache := clear_used held (tcache ts)\<rparr>, bw = w\<rparr>"
    "same_lookups (bt b) t" using build_route_table_fold [OF assms(1)] by blast
  have "decided_inv specs 0 \<lparr>bt = route_table_empty, configured_wildcards = {}, bts = ts\<lparr>tcache := clear_used held (tcache ts)\<rparr>, bw = w\<rparr>"
    by (simp add: decided_inv_def)
  from fold_enumerate_inv [where I = "decided_inv specs" and n = 0 and xs = specs, OF this]
  have inv: "decided_inv specs (length specs) b" unfolding b(1) using add_spec_decides by simp
  have "\<exists>j < length specs. rs_sni (specs ! j) = name \<and> last_exact specs name \<in> {None, Some j}"
  proof (cases "is_wildcard name")
    case True
    then show ?thesis using assms(2) last_exact_wildcard [OF True] by (auto simp: in_set_conv_nth)
  next
    case False
    then show ?thesis using last_exact_configured [OF assms(2) False] by blast
  qed
  then have "decided name (bt b)" using inv unfolding decided_inv_def by blast
  then show ?thesis using b(2) by (simp add: decided_def same_lookups_def)
qed

section \<open>Reloads\<close>

text \<open>The table being served and the TLS state, after any sequence of committed reloads, abandoned
  builds and configurations built for single connections. The cache starts empty.\<close>

inductive served :: "build_env \<Rightarrow> bytes set \<Rightarrow> route_table option \<Rightarrow> tls_state \<Rightarrow> bool" for env H where
  started: "served env H None \<lparr>configs = [], tcache = tls_cache_new\<rparr>"
| committed: "served env H previous ts \<Longrightarrow> (\<forall>spec \<in> set specs. policy_hashed H (requested_policy spec ltls)) \<Longrightarrow>
    build_route_table env held clock specs ltls previous ts w = (t, ts', w') \<Longrightarrow>
    served env H (Some t) (ts'\<lparr>tcache := retain_used held' (tcache ts')\<rparr>)"
| abandoned: "served env H previous ts \<Longrightarrow> (\<forall>spec \<in> set specs. policy_hashed H (requested_policy spec ltls)) \<Longrightarrow>
    build_route_table env held clock specs ltls previous ts w = (t, ts', w') \<Longrightarrow> served env H previous ts'"
| resolved: "served env H previous ts \<Longrightarrow> hashed H mtls \<Longrightarrow>
    get_or_build_unmarked (be_lib env) (be_sha256 env) held cert mtls http2 ts = (q, ts') \<Longrightarrow> served env H previous ts'"

lemma served_ok:
  assumes "served env H previous ts" "good_digest (be_sha256 env) H"
  shows "tls_inv (be_lib env) (be_sha256 env) H ts \<and>
    (\<forall>p. previous = Some p \<longrightarrow> table_ok (be_lib env) (be_sha256 env) H (configs ts) p)"
  using assms(1)
proof (induction rule: served.induct)
  case started
  show ?case by (simp add: tls_inv_def tls_cache_new_def)
next
  case (committed previous ts specs ltls held clock w t ts' w' held')
  have "tls_inv (be_lib env) (be_sha256 env) H ts'" "table_ok (be_lib env) (be_sha256 env) H (configs ts') t"
    using build_route_table_inv(1,3) [OF committed(3) _ assms(2)] committed(2,4) by blast+
  then show ?case by (auto simp: retain_used_def intro: tls_inv_subset)
next
  case (abandoned previous ts specs ltls held clock w t ts' w')
  have "tls_inv (be_lib env) (be_sha256 env) H ts'" "\<exists>new. configs ts' = configs ts @ new"
    using build_route_table_inv(1,2) [OF abandoned(3) _ assms(2)] abandoned(2,4) by blast+
  then show ?case using abandoned(4) table_ok_append by metis
next
  case (resolved previous ts mtls held cert http2 q ts')
  obtain q' where "lookup_or_build (be_lib env) (be_sha256 env) held cert mtls http2 ts = (q', ts')"
    using resolved(3) by (auto simp: get_or_build_unmarked_def split: prod.splits sum.splits)
  from lookup_or_build_inv [OF this _ resolved(2)] show ?case using resolved(4) table_ok_append by metis
qed

section \<open>Properties\<close>

text \<open>A concrete configuration: a name whose key is missing, a name with a client CA, and a default route.\<close>

definition sample_env :: build_env where
  "sample_env = \<lparr>be_lib = \<lparr>pem_certs = (\<lambda>p. [Some p]), pem_key = (\<lambda>k. Some (Some k)), root_add = (\<lambda>_. True),
       verifier_build = (\<lambda>_. True), single_cert = (\<lambda>_ _. True), ticketer = (\<lambda>_. True)\<rparr>,
     be_sha256 = id, be_linux = True, be_parse_net = (\<lambda>_. Inl []), be_new_v4 = (\<lambda>_ _. Inl [])\<rparr>"

definition sample_spec :: "bytes \<Rightarrow> bytes option \<Rightarrow> bytes option \<Rightarrow> route_spec" where
  "sample_spec name key ca = \<lparr>rs_sni = name, rs_metrics_group = [], rs_upstreams = [TcpUpstream (str ''10.0.0.1'') 80],
     rs_terminate_tls = (name \<noteq> []), rs_cert_pem = Some [1], rs_key_pem = key, rs_mtls_ca_pem = ca,
     rs_require_client_cert = True, rs_suspended = False, rs_suspend_timeout_ms = 1000, rs_max_cps = None, rs_burst = None,
     rs_source_address_mode = NoSourceAddress, rs_forward_fingerprint = forward_none, rs_http2 = False, rs_protocol = Opaque,
     rs_allowed_sources = [], rs_failover = None\<rparr>"

definition sample_specs :: "route_spec list" where
  "sample_specs = [sample_spec (str ''a.b'') None None, sample_spec (str ''c.d'') (Some [2]) (Some [7]), sample_spec [] None None]"

definition sample_world :: world where
  "sample_world = \<lparr>base = store_empty, buckets = [], identities = [], peers = [], statuses = [], spills = [], failovers = []\<rparr>"

definition sample_build :: "route_table \<times> tls_state \<times> world" where
  "sample_build = build_route_table sample_env (\<lambda>_. False) (\<lambda>_. 0) sample_specs listener_tls_empty None
     \<lparr>configs = [], tcache = tls_cache_new\<rparr> sample_world"

text \<open>C20. A configured name is never answered by a broader route: an exact name resolves to the route
  installed for it or, if its specification was rejected, to nothing; a name under a configured wildcard
  never reaches the default route.\<close>

theorem rejected_name_fails_closed:
  assumes "build_route_table env held clock specs ltls previous ts w = (t, ts', w')" "name \<in> rs_sni ` set specs"
  shows "(\<not> is_wildcard name \<and> name \<noteq> [] \<longrightarrow> resolve_with (Some name) allow_default t = map_of (exact t) name) \<and>
    (\<forall>sfx host. name = wildcard_prefix @ sfx \<and> wildcard_suffix_matches host sfx \<longrightarrow>
       resolve_with (Some host) True t = resolve_with (Some host) False t)"
  using configured_decided [OF assms] resolve_decided_exact resolve_decided_wildcard
  by (auto simp: get_for_spec_sni_def not_wildcard_strip)

theorem rejected_name_fails_closed_witness:
  "resolve_with (Some (str ''a.b'')) True (fst sample_build) = None \<and> default_route (fst sample_build) \<noteq> None"
proof -
  have "default_route (fst sample_build) \<noteq> None" "map_of (exact (fst sample_build)) (str ''a.b'') = None"
    "\<not> is_wildcard (str ''a.b'') \<and> str ''a.b'' \<noteq> []" "str ''a.b'' \<in> rs_sni ` set sample_specs"
    by code_simp+
  then show ?thesis
    using rejected_name_fails_closed [of sample_env "\<lambda>_. False" "\<lambda>_. 0" sample_specs listener_tls_empty None
      "\<lparr>configs = [], tcache = tls_cache_new\<rparr>" sample_world "fst sample_build" "fst (snd sample_build)" "snd (snd sample_build)"
      "str ''a.b''" True]
    by (simp add: sample_build_def)
qed

text \<open>C19. After any sequence of reloads, whatever route a table installs for a name is as the specification
  that decides the name asks: it demands the client certificates of exactly that policy (or terminates no
  TLS), and it admits exactly the sources of that specification, also when the route is carried forward.\<close>

theorem installed_route_enforces_spec:
  assumes "served env H previous ts" "good_digest (be_sha256 env) H"
    and "\<forall>spec \<in> set specs. policy_hashed H (requested_policy spec ltls)"
    and "build_route_table env held clock specs ltls previous ts w = (t, ts', w')"
    and "get_for_spec_sni name t = Some r"
  shows "\<exists>spec. deciding specs name = Some spec \<and> as_specified env ltls (configs ts') spec r"
  using build_route_table_inv(4) [OF assms(4) _ assms(2) _ _ assms(5)] served_ok [OF assms(1,2)] assms(3) by blast

theorem installed_route_enforces_spec_witness:
  "\<exists>r spec. get_for_spec_sni (str ''c.d'') (fst sample_build) = Some r \<and> deciding sample_specs (str ''c.d'') = Some spec \<and>
     as_specified sample_env listener_tls_empty (configs (fst (snd sample_build))) spec r"
proof -
  have "get_for_spec_sni (str ''c.d'') (fst sample_build) \<noteq> None" by code_simp
  then obtain r where r: "get_for_spec_sni (str ''c.d'') (fst sample_build) = Some r" by blast
  let ?H = "{[7], [7, 1]}"
  have d: "good_digest (be_sha256 sample_env) ?H"
    by (simp add: sample_env_def good_digest_def numeral_eq_Suc)
  have h: "\<forall>spec \<in> set sample_specs. policy_hashed ?H (requested_policy spec listener_tls_empty)"
    by (simp add: sample_specs_def sample_spec_def requested_policy_def policy_hashed_def effective_mtls_def mtls_input_def
      listener_tls_empty_def)
  show ?thesis
    using installed_route_enforces_spec [OF served.started d h, of "\<lambda>_. False" "\<lambda>_. 0" sample_world "fst sample_build"
      "fst (snd sample_build)" "snd (snd sample_build)", OF _ r] r
    by (simp add: sample_build_def)
qed

text \<open>C21. TLS sessions survive reloads: as long as something refers to the configuration built for a
  certificate, asking for the same certificate, client CA and protocol gives that very configuration,
  whatever other lookups, builds, sweeps and evictions the cache has seen.\<close>

theorem session_state_survives:
  assumes "get_or_build lib sha256 held cert mtls http2 ts = (Inr cfg, ts1)" "distinct (map fst (tc_entries (tcache ts)))"
    and "(cache_step lib sha256 cfg)\<^sup>*\<^sup>* ts1 ts2"
  shows "fst (get_or_build lib sha256 held' cert mtls http2 ts2) = Inr cfg"
  using get_or_build_hit [OF cache_reach_entry [OF assms(3) get_or_build_entry [OF assms(1,2)]]] .

theorem session_state_survives_witness:
  "fst (get_or_build (be_lib sample_env) id (\<lambda>_. False) \<lparr>cert_chain_pem = [1], private_key_pem = [2]\<rparr> None False
     ((snd (get_or_build (be_lib sample_env) id (\<lambda>_. False) \<lparr>cert_chain_pem = [1], private_key_pem = [2]\<rparr> None False
        \<lparr>configs = [], tcache = tls_cache_new\<rparr>))
      \<lparr>tcache := clear_used (\<lambda>i. i = 0) (tcache (snd (get_or_build (be_lib sample_env) id (\<lambda>_. False)
         \<lparr>cert_chain_pem = [1], private_key_pem = [2]\<rparr> None False \<lparr>configs = [], tcache = tls_cache_new\<rparr>)))\<rparr>)) = Inr 0"
proof -
  let ?c = "\<lparr>cert_chain_pem = [1], private_key_pem = [2]\<rparr>"
  let ?g = "get_or_build (be_lib sample_env) id (\<lambda>_. False) ?c None False \<lparr>configs = [], tcache = tls_cache_new\<rparr>"
  have g: "?g = (Inr 0, snd ?g)"
    by (simp add: get_or_build_def lookup_or_build_def tls_cache_new_def build_server_config_def sample_env_def Let_def MIN_EVICT_AT_def)
  have "cache_step (be_lib sample_env) id 0 (snd ?g) ((snd ?g)\<lparr>tcache := clear_used (\<lambda>i. i = 0) (tcache (snd ?g))\<rparr>)"
    by (rule begin_build) (simp add: refers_def)
  then show ?thesis
    by (intro session_state_survives [OF g]) (simp_all add: tls_cache_new_def)
qed

end
