(* ===== verification/Http.thy ===== *)
theory Http
  imports IpParse
begin

text \<open>
  HTTP/1 framing and rewriting (\<open>http_proxy.rs\<close>). A reader is the bytes the peer will send, how the
  network cuts them into reads, and whether it ends with an error; a pump adds what is buffered and what
  was written. The two pumps of a connection talk over a channel: the request pump announces its requests
  and awaits the verdicts on tunnel requests, the response pump awaits requests and reports verdicts. Each
  runs until it returns or can only wait for the other.
\<close>

section \<open>Definitions\<close>

subsection \<open>Streams\<close>

datatype bad =
    HeadersTooLarge | MalformedRequestLine | UnterminatedLine | ObsFold | NoColon | MalformedName
  | MalformedLength | ConflictingLength | BothFramings | UnsupportedEncoding | ChunkLineTooLong
  | MalformedChunkSize | MissingChunkEnd | MalformedStatus | NoRequest | Unsolicited101

datatype pump_error = Bad bad | UnexpectedEof | ReadFailed | WriteFailed

record reader =
  rd_pending :: bytes
  rd_cuts :: "nat list"
  rd_fails :: bool

text \<open>\<open>AsyncRead::read\<close> into a buffer of \<open>k > 0\<close> bytes; no bytes means the end of the stream.\<close>

definition read_some :: "nat \<Rightarrow> reader \<Rightarrow> (pump_error + bytes) \<times> reader" where
  "read_some k r =
     (if rd_pending r = [] then (if rd_fails r then Inl ReadFailed else Inr [], r)
      else let n = min k (case rd_cuts r of c # _ \<Rightarrow> Suc c | [] \<Rightarrow> length (rd_pending r))
           in (Inr (take n (rd_pending r)), r\<lparr>rd_pending := drop n (rd_pending r), rd_cuts := tl (rd_cuts r)\<rparr>))"

text \<open>\<open>pm_room\<close> is how much the peer still takes before a write fails, if it ever does.\<close>

record pump =
  pm_reader :: reader
  pm_carry :: bytes
  pm_out :: bytes
  pm_room :: "nat option"

definition write_all :: "bytes \<Rightarrow> pump \<Rightarrow> (pump_error + unit) \<times> pump" where
  "write_all bs s =
     (case pm_room s of
        None \<Rightarrow> (Inr (), s\<lparr>pm_out := pm_out s @ bs\<rparr>)
      | Some k \<Rightarrow>
          if length bs \<le> k then (Inr (), s\<lparr>pm_out := pm_out s @ bs, pm_room := Some (k - length bs)\<rparr>)
          else (Inl WriteFailed, s\<lparr>pm_out := pm_out s @ take k bs, pm_room := Some 0\<rparr>))"

subsection \<open>Header framing\<close>

definition MAX_HEADER_SIZE :: nat where "MAX_HEADER_SIZE = 64 * 1024"

definition MAX_CHUNK_LINE :: nat where "MAX_CHUNK_LINE = 1024"

definition crlf2 :: bytes where "crlf2 = [0x0D, 0x0A, 0x0D, 0x0A]"

lemma read_some_shorter:
  "read_some k r = (Inr bs, r') \<Longrightarrow> bs \<noteq> [] \<Longrightarrow> length (rd_pending r') < length (rd_pending r)"
  by (auto simp: read_some_def Let_def split: if_splits)

function read_header_loop :: "nat \<Rightarrow> reader \<Rightarrow> bytes \<Rightarrow> (pump_error + nat option) \<times> reader \<times> bytes" where
  "read_header_loop scanned r carry =
     (case find_sub crlf2 (drop scanned carry) of
        Some rel \<Rightarrow> (Inr (Some (scanned + rel + 4)), r, carry)
      | None \<Rightarrow>
          if MAX_HEADER_SIZE < length carry then (Inl (Bad HeadersTooLarge), r, carry)
          else case read_some 4096 r of
            (Inl e, r1) \<Rightarrow> (Inl e, r1, carry)
          | (Inr bs, r1) \<Rightarrow>
              if bs = [] then (if carry = [] then Inr None else Inl UnexpectedEof, r1, carry)
              else read_header_loop (length carry - 3) r1 (carry @ bs))"
  by pat_completeness auto
termination
  by (relation "measure (\<lambda>(_, r, _). length (rd_pending r))") (auto simp: read_some_shorter [OF sym])

declare read_header_loop.simps [simp del]

definition read_header_block :: "reader \<Rightarrow> bytes \<Rightarrow> (pump_error + nat option) \<times> reader \<times> bytes" where
  "read_header_block r carry = read_header_loop 0 r carry"

definition read_http_headers :: "reader \<Rightarrow> (pump_error + bytes \<times> bytes) \<times> reader" where
  "read_http_headers r =
     (case read_header_block r [] of
        (Inr (Some end), r1, carry) \<Rightarrow> (Inr (take end carry, drop end carry), r1)
      | (Inr None, r1, _) \<Rightarrow> (Inr ([], []), r1)
      | (Inl UnexpectedEof, r1, _) \<Rightarrow> (Inr ([], []), r1)
      | (Inl e, r1, _) \<Rightarrow> (Inl e, r1))"

subsection \<open>Header fields\<close>

definition trim_ascii :: "bytes \<Rightarrow> bytes" where
  "trim_ascii bs =
     (let first = (case position (\<lambda>b. \<not> is_ascii_whitespace b) bs of Some p \<Rightarrow> p | None \<Rightarrow> length bs);
          final = (case position (\<lambda>b. \<not> is_ascii_whitespace b) (rev bs) of
            Some p \<Rightarrow> length bs - p | None \<Rightarrow> first)
      in slice bs first final)"

text \<open>The lines of the header section after the first one, up to the blank line.\<close>

lemma find_sub_Some: "find_sub p xs = Some i \<Longrightarrow> i < length xs \<and> take (length p) (drop i xs) = p"
  by (induction xs arbitrary: i) (auto split: if_splits)

lemma find_sub_Some_le:
  assumes "find_sub p xs = Some i"
  shows "i + length p \<le> length xs"
proof -
  have "length (take (length p) (drop i xs)) = length p" "i < length xs"
    using find_sub_Some [OF assms] by simp_all
  then show ?thesis by simp
qed

function field_lines :: "bytes \<Rightarrow> bytes list" where
  "field_lines rest =
     (case find_sub crlf rest of
        None \<Rightarrow> []
      | Some line_end \<Rightarrow>
          if line_end = 0 then [] else take line_end rest # field_lines (drop (line_end + 2) rest))"
  by pat_completeness auto
termination
  by (relation "measure length") (auto dest!: find_sub_Some)

declare field_lines.simps [simp del]

definition header_field_of :: "bytes \<Rightarrow> (bytes \<times> bytes) option" where
  "header_field_of line =
     map_option (\<lambda>colon. (trim_ascii (take colon line), trim_ascii (drop (colon + 1) line)))
       (position (\<lambda>b. b = 0x3A) line)"

definition header_fields :: "bytes \<Rightarrow> (bytes \<times> bytes) list" where
  "header_fields block =
     (case find_sub crlf block of
        Some p \<Rightarrow> List.map_filter header_field_of (field_lines (drop (p + 2) block))
      | None \<Rightarrow> [])"

definition header_field :: "bytes \<Rightarrow> bytes \<Rightarrow> bytes option" where
  "header_field block name = map_option snd (find (\<lambda>(n, _). eq_ignore_ascii_case n name) (header_fields block))"

definition has_token :: "bytes \<Rightarrow> bytes \<Rightarrow> bool" where
  "has_token token v = list_ex (\<lambda>t. eq_ignore_ascii_case (trim_ascii t) token) (split_on (\<lambda>b. b = 0x2C) v)"

definition connection_has_token :: "bytes \<Rightarrow> bytes \<Rightarrow> bool" where
  "connection_has_token block token =
     list_ex (\<lambda>(n, v). eq_ignore_ascii_case n (str ''connection'') \<and> has_token token v) (header_fields block)"

definition content_length :: "bytes \<Rightarrow> u64 option" where
  "content_length headers =
     Option.bind (header_field headers (str ''content-length'')) (\<lambda>v. if utf8_valid v then parse_u64 v else None)"

definition is_transfer_encoding_chunked :: "bytes \<Rightarrow> bool" where
  "is_transfer_encoding_chunked headers =
     (case header_field headers (str ''transfer-encoding'') of
        Some v \<Rightarrow> has_token (str ''chunked'') v
      | None \<Rightarrow> False)"

definition is_upgrade :: "bytes \<Rightarrow> bool" where
  "is_upgrade headers \<longleftrightarrow>
     list_ex (\<lambda>(n, _). eq_ignore_ascii_case n (str ''upgrade'')) (header_fields headers) \<and>
     connection_has_token headers (str ''upgrade'')"

definition parse_status :: "bytes \<Rightarrow> u16 option" where
  "parse_status headers =
     Option.bind (find_sub crlf headers) (\<lambda>line_end.
       let fields = filter (\<lambda>f. f \<noteq> []) (split_on (\<lambda>b. b = 0x20) (take line_end headers))
       in if length fields < 2 then None
          else if utf8_valid (fields ! 1) then map_option of_nat (parse_uint (2 ^ 16) (fields ! 1)) else None)"

definition request_method :: "bytes \<Rightarrow> bytes" where
  "request_method headers = take (case position (\<lambda>b. b = 0x20) headers of Some e \<Rightarrow> e | None \<Rightarrow> 0) headers"

definition request_target :: "bytes \<Rightarrow> bytes" where
  "request_target headers =
     (case position (\<lambda>b. b = 0x20) headers of
        None \<Rightarrow> []
      | Some first_sp \<Rightarrow>
          let rest = drop (first_sp + 1) headers
          in take (case position (\<lambda>b. b = 0x20 \<or> b = 0x0D \<or> b = 0x0A) rest of Some e \<Rightarrow> e | None \<Rightarrow> length rest) rest)"

definition host_header :: "bytes \<Rightarrow> bytes option" where
  "host_header headers =
     (case header_field headers (str ''host'') of
        None \<Rightarrow> None
      | Some value \<Rightarrow>
          if \<not> utf8_valid value \<or> list_ex (\<lambda>b. b = 0x0D \<or> b = 0x0A \<or> b = 0) value then None
          else case (if starts_with (str ''['') value
                     then map_option (\<lambda>close. take (close + 1) value) (position (\<lambda>b. b = 0x5D) value)
                     else case position (\<lambda>b. b = 0x3A) value of
                       Some colon \<Rightarrow> Some (take colon value)
                     | None \<Rightarrow> Some value) of
            None \<Rightarrow> None
          | Some host_only \<Rightarrow> if host_only = [] then None else Some host_only)"

definition response_has_body :: "u16 \<Rightarrow> bytes \<Rightarrow> bool" where
  "response_has_body status req_method =
     (if status < 200 \<or> status = 204 \<or> status = 304 then False
      else \<not> eq_ignore_ascii_case req_method (str ''HEAD''))"

subsection \<open>Rewriting for one-shot requests\<close>

text \<open>\<open>str::split\<close> at every \<open>\\r\\n\<close>.\<close>

function split_crlf :: "bytes \<Rightarrow> bytes list" where
  "split_crlf xs =
     (case find_sub crlf xs of
        None \<Rightarrow> [xs]
      | Some p \<Rightarrow> take p xs # split_crlf (drop (p + 2) xs))"
  by pat_completeness auto
termination
  by (relation "measure length") (auto dest!: find_sub_Some)

declare split_crlf.simps [simp del]

definition line_name :: "bytes \<Rightarrow> bytes option" where
  "line_name line = map_option (\<lambda>colon. trim (take colon line)) (position (\<lambda>b. b = 0x3A) line)"

definition strip_body_framing :: "bytes \<Rightarrow> bytes" where
  "strip_body_framing headers =
     (if \<not> utf8_valid headers then headers
      else concat (map (\<lambda>(i, line).
          if line = [] then []
          else if i = 0 then line @ crlf
          else if (case line_name line of
                     Some name \<Rightarrow> map to_ascii_lowercase name \<in> {str ''content-length'', str ''transfer-encoding''}
                   | None \<Rightarrow> False) then []
          else line @ crlf)
        (enumerate 0 (split_crlf headers))) @ crlf)"

definition is_connection_line :: "nat \<times> bytes \<Rightarrow> bool" where
  "is_connection_line p \<longleftrightarrow>
     (case p of (i, line) \<Rightarrow> line \<noteq> [] \<and> i \<noteq> 0 \<and>
        (case line_name line of Some name \<Rightarrow> eq_ignore_ascii_case name (str ''connection'') | None \<Rightarrow> False))"

definition rewrite_connection_header :: "bytes \<Rightarrow> bytes \<Rightarrow> bytes" where
  "rewrite_connection_header headers replacement =
     (if \<not> utf8_valid headers then headers
      else let ls = enumerate 0 (split_crlf headers)
           in concat (map (\<lambda>(i, line).
                if line = [] then [] else if is_connection_line (i, line) then replacement else line @ crlf) ls) @
              (if list_ex is_connection_line ls then [] else replacement) @ crlf)"

definition with_connection_close :: "bytes \<Rightarrow> bytes" where
  "with_connection_close headers = rewrite_connection_header headers (str ''Connection: close'' @ crlf)"

subsection \<open>Body copying\<close>

function copy_exact :: "nat \<Rightarrow> pump \<Rightarrow> (pump_error + unit) \<times> pump" where
  "copy_exact remaining s =
     (if remaining = 0 then (Inr (), s)
      else case read_some (min remaining 8192) (pm_reader s) of
        (Inl e, r) \<Rightarrow> (Inl e, s\<lparr>pm_reader := r\<rparr>)
      | (Inr bs, r) \<Rightarrow>
          if bs = [] then (Inl UnexpectedEof, s\<lparr>pm_reader := r\<rparr>)
          else case write_all bs (s\<lparr>pm_reader := r\<rparr>) of
            (Inl e, s1) \<Rightarrow> (Inl e, s1)
          | (Inr _, s1) \<Rightarrow> copy_exact (remaining - length bs) s1)"
  by pat_completeness auto
termination
  by (relation "measure fst") auto

declare copy_exact.simps [simp del]

text \<open>\<open>tokio::io::copy\<close>: everything up to the end of the stream.\<close>

lemma write_all_reader: "write_all bs s = (q, s') \<Longrightarrow> pm_reader s' = pm_reader s \<and> pm_carry s' = pm_carry s"
  by (auto simp: write_all_def split: option.splits if_splits)

function copy_to_end :: "pump \<Rightarrow> (pump_error + unit) \<times> pump" where
  "copy_to_end s =
     (case read_some 8192 (pm_reader s) of
        (Inl e, r) \<Rightarrow> (Inl e, s\<lparr>pm_reader := r\<rparr>)
      | (Inr bs, r) \<Rightarrow>
          if bs = [] then (Inr (), s\<lparr>pm_reader := r\<rparr>)
          else case write_all bs (s\<lparr>pm_reader := r\<rparr>) of
            (Inl e, s1) \<Rightarrow> (Inl e, s1)
          | (Inr _, s1) \<Rightarrow> copy_to_end s1)"
  by pat_completeness auto
termination
  by (relation "measure (\<lambda>s. length (rd_pending (pm_reader s)))")
    (auto simp: read_some_shorter [OF sym] dest!: write_all_reader [OF sym])

declare copy_to_end.simps [simp del]

subsection \<open>Requests\<close>

record header_rewrite =
  hr_name :: bytes
  hr_value :: "bytes option"

datatype request_body = NoBody | Length u64 | Chunked

definition owned :: "header_rewrite list \<Rightarrow> bytes \<Rightarrow> bool" where
  "owned rewrites name = list_ex (\<lambda>r. eq_ignore_ascii_case (hr_name r) name) rewrites"

function rewrite_lines :: "header_rewrite list \<Rightarrow> bytes \<Rightarrow> pump_error + bytes" where
  "rewrite_lines rewrites rest =
     (if rest = [] then Inr []
      else case find_sub crlf rest of
        None \<Rightarrow> Inl (Bad UnterminatedLine)
      | Some rel \<Rightarrow>
          if rel = 0 then Inr crlf
          else if hd rest = 0x20 \<or> hd rest = 0x09 then Inl (Bad ObsFold)
          else case position (\<lambda>b. b = 0x3A) (take rel rest) of
            None \<Rightarrow> Inl (Bad NoColon)
          | Some colon \<Rightarrow>
              let name = take colon (take rel rest)
              in if name = [] \<or> list_ex is_ascii_whitespace name then Inl (Bad MalformedName)
                 else case rewrite_lines rewrites (drop (rel + 2) rest) of
                   Inl e \<Rightarrow> Inl e
                 | Inr out \<Rightarrow> Inr ((if owned rewrites name then [] else take (rel + 2) rest) @ out))"
  by pat_completeness auto
termination
  by (relation "measure (\<lambda>(_, rest). length rest)") auto

declare rewrite_lines.simps [simp del]

definition stated :: "header_rewrite \<Rightarrow> bytes" where
  "stated r = (case hr_value r of Some v \<Rightarrow> hr_name r @ str '': '' @ v @ crlf | None \<Rightarrow> [])"

definition rewrite_request_head :: "bytes \<Rightarrow> header_rewrite list \<Rightarrow> pump_error + bytes" where
  "rewrite_request_head block rewrites =
     (case find_sub crlf block of
        None \<Rightarrow> Inl (Bad MalformedRequestLine)
      | Some p \<Rightarrow>
          (case rewrite_lines rewrites (drop (p + 2) block) of
             Inl e \<Rightarrow> Inl e
           | Inr out \<Rightarrow> Inr (take (p + 2) block @ concat (map stated rewrites) @ out)))"

text \<open>The scan of the framing fields: whether a transfer coding was seen, whether the last one ends in
  \<open>chunked\<close>, and the length.\<close>

fun framing_fields ::
    "(bytes \<times> bytes) list \<Rightarrow> bool \<times> bool \<times> u64 option \<Rightarrow> pump_error + bool \<times> bool \<times> u64 option" where
  "framing_fields [] acc = Inr acc"
| "framing_fields ((name, value) # fs) (te, chunked, len) =
     (if eq_ignore_ascii_case name (str ''transfer-encoding'') then
        framing_fields fs
          (True, eq_ignore_ascii_case (trim_ascii (last (split_on (\<lambda>b. b = 0x2C) value))) (str ''chunked''), len)
      else if eq_ignore_ascii_case name (str ''content-length'') then
        (case (if utf8_valid value then parse_u64 value else None) of
           None \<Rightarrow> Inl (Bad MalformedLength)
         | Some n \<Rightarrow>
             if (case len of Some prev \<Rightarrow> prev \<noteq> n | None \<Rightarrow> False) then Inl (Bad ConflictingLength)
             else framing_fields fs (te, chunked, Some n))
      else framing_fields fs (te, chunked, len))"

definition request_framing :: "bytes \<Rightarrow> pump_error + request_body" where
  "request_framing block =
     (case framing_fields (header_fields block) (False, False, None) of
        Inl e \<Rightarrow> Inl e
      | Inr (te, chunked, len) \<Rightarrow>
          if te then
            (if len \<noteq> None then Inl (Bad BothFramings)
             else if \<not> chunked then Inl (Bad UnsupportedEncoding)
             else Inr Chunked)
          else Inr (case len of None \<Rightarrow> NoBody | Some n \<Rightarrow> if n = 0 then NoBody else Length n))"

definition copy_body :: "nat \<Rightarrow> pump \<Rightarrow> (pump_error + unit) \<times> pump" where
  "copy_body n s =
     (let buffered = min (length (pm_carry s)) n
      in case write_all (take buffered (pm_carry s)) s of
           (Inl e, s1) \<Rightarrow> (Inl e, s1)
         | (Inr _, s1) \<Rightarrow>
             let s2 = s1\<lparr>pm_carry := drop buffered (pm_carry s1)\<rparr>
             in if n - buffered > 0 then copy_exact (n - buffered) s2 else (Inr (), s2))"

function control_line_loop :: "nat \<Rightarrow> reader \<Rightarrow> bytes \<Rightarrow> (pump_error + bytes) \<times> reader \<times> bytes" where
  "control_line_loop scanned r carry =
     (case find_sub crlf (drop scanned carry) of
        Some rel \<Rightarrow> (let e = scanned + rel + 2 in (Inr (take e carry), r, drop e carry))
      | None \<Rightarrow>
          if MAX_CHUNK_LINE < length carry then (Inl (Bad ChunkLineTooLong), r, carry)
          else case read_some 256 r of
            (Inl e, r1) \<Rightarrow> (Inl e, r1, carry)
          | (Inr bs, r1) \<Rightarrow>
              if bs = [] then (Inl UnexpectedEof, r1, carry)
              else control_line_loop (length carry - 1) r1 (carry @ bs))"
  by pat_completeness auto
termination
  by (relation "measure (\<lambda>(_, r, _). length (rd_pending r))") (auto simp: read_some_shorter [OF sym])

declare control_line_loop.simps [simp del]

definition read_control_line :: "pump \<Rightarrow> (pump_error + bytes) \<times> pump" where
  "read_control_line s =
     (case control_line_loop 0 (pm_reader s) (pm_carry s) of
        (q, r, carry) \<Rightarrow> (q, s\<lparr>pm_reader := r, pm_carry := carry\<rparr>))"

text \<open>What is still to come: buffered and unread bytes.\<close>

definition unread :: "pump \<Rightarrow> bytes" where
  "unread s = pm_carry s @ rd_pending (pm_reader s)"

lemma read_some_pending: "read_some k r = (Inr bs, r') \<Longrightarrow> rd_pending r = bs @ rd_pending r'"
  by (auto simp: read_some_def Let_def split: if_splits)

lemma read_some_Inl: "read_some k r = (Inl e, r') \<Longrightarrow> r' = r \<and> e = ReadFailed \<and> rd_pending r = [] \<and> rd_fails r"
  by (auto simp: read_some_def Let_def split: if_splits)

lemma find_sub_None_iff: "find_sub p xs = None \<longleftrightarrow> (\<forall>j < length xs. take (length p) (drop j xs) \<noteq> p)"
proof (induction xs)
  case (Cons x xs)
  show ?case
    unfolding find_sub.simps using Cons by (auto simp: less_Suc_eq_0_disj)
qed simp

lemma find_sub_Some_iff:
  "find_sub p xs = Some i \<longleftrightarrow>
     i < length xs \<and> take (length p) (drop i xs) = p \<and> (\<forall>j < i. take (length p) (drop j xs) \<noteq> p)"
proof (induction xs arbitrary: i)
  case (Cons x xs)
  show ?case
  proof (cases i)
    case (Suc k)
    then show ?thesis using Cons [of k] by (auto simp: less_Suc_eq_0_disj)
  qed auto
qed simp

text \<open>A match found from \<open>k\<close> on is the first one when none starts before \<open>k\<close>.\<close>

lemma find_sub_drop:
  assumes "\<forall>j < k. take (length p) (drop j xs) \<noteq> p"
  shows "find_sub p xs = map_option ((+) k) (find_sub p (drop k xs))"
proof (cases "find_sub p (drop k xs)")
  case None
  have "take (length p) (drop j xs) \<noteq> p" if "j < length xs" for j
  proof (cases "j < k")
    case False
    then have "j - k < length (drop k xs)" "drop (j - k) (drop k xs) = drop j xs" using that by simp_all
    then show ?thesis using None unfolding find_sub_None_iff by metis
  qed (use assms in simp)
  then have "find_sub p xs = None" by (simp add: find_sub_None_iff)
  then show ?thesis using None by simp
next
  case (Some i)
  then have i: "i < length (drop k xs)" "take (length p) (drop (k + i) xs) = p"
    "\<forall>j < i. take (length p) (drop (k + j) xs) \<noteq> p"
    by (simp_all add: find_sub_Some_iff add.commute)
  have "take (length p) (drop j xs) \<noteq> p" if "j < k + i" for j
  proof (cases "j < k")
    case False
    then show ?thesis using i(3) that by (metis add_less_cancel_left le_add_diff_inverse not_less)
  qed (use assms in simp)
  then have "find_sub p xs = Some (k + i)" using i by (simp add: find_sub_Some_iff)
  then show ?thesis using Some by simp
qed

text \<open>Appending does not change the first match, and creates none that would start early.\<close>

lemma find_sub_append: "find_sub p xs = Some i \<Longrightarrow> find_sub p (xs @ ys) = Some i"
proof -
  assume f: "find_sub p xs = Some i"
  have "i + length p \<le> length xs" using find_sub_Some_le [OF f] .
  then have eq: "take (length p) (drop j (xs @ ys)) = take (length p) (drop j xs)" if "j \<le> i" for j
    using that by simp
  show ?thesis
    unfolding find_sub_Some_iff using f [unfolded find_sub_Some_iff] eq
    by (simp del: drop_append take_append)
qed

lemma no_match_append:
  assumes "find_sub p xs = None" "p \<noteq> []" "j < length xs - (length p - 1)"
  shows "take (length p) (drop j (xs @ ys)) \<noteq> p"
proof -
  have "j + length p \<le> length xs" using assms(2,3) by (cases p) auto
  then have "take (length p) (drop j (xs @ ys)) = take (length p) (drop j xs)" "j < length xs" using assms(2) by (cases p; simp)+
  then show ?thesis using assms(1) by (simp add: find_sub_None_iff del: drop_append take_append)
qed

lemma find_sub_take:
  assumes "find_sub p xs = Some i" "i + length p \<le> n" "p \<noteq> []"
  shows "find_sub p (take n xs) = Some i"
proof -
  have eq: "take (length p) (drop j (take n xs)) = take (length p) (drop j xs)" if "j \<le> i" for j
    using that assms(2) by (simp add: drop_take min_def)
  have "i < length (take n xs)"
    using assms find_sub_Some [OF assms(1)] by (cases p) auto
  then show ?thesis
    unfolding find_sub_Some_iff using assms(1) [unfolded find_sub_Some_iff] eq by simp
qed

text \<open>A line: it ends with its first \<open>\r\n\<close>.\<close>

definition is_line :: "bytes \<Rightarrow> bool" where
  "is_line l \<longleftrightarrow> find_sub crlf l = Some (length l - 2)"

lemma crlf_length [simp]: "length crlf = 2" "length crlf2 = 4" "crlf \<noteq> []" "crlf2 \<noteq> []"
  by (simp_all add: crlf_def crlf2_def)

lemma is_line_length: "is_line l \<Longrightarrow> 2 \<le> length l"
  unfolding is_line_def by (drule find_sub_Some_le) simp

lemma is_line_find: "find_sub crlf xs = Some p \<Longrightarrow> is_line (take (p + 2) xs)"
  using find_sub_take [of crlf xs p "p + 2"] find_sub_Some_le [of crlf xs p] by (simp add: is_line_def)

lemma find_sub_line: "is_line l \<Longrightarrow> find_sub crlf (l @ xs) = Some (length l - 2)"
  unfolding is_line_def by (rule find_sub_append)

lemma control_line_loop_spec:
  assumes "control_line_loop scanned r carry = (q, r', carry')" "\<forall>j < scanned. take 2 (drop j carry) \<noteq> crlf"
  shows "(case q of Inl e \<Rightarrow> carry' @ rd_pending r' = carry @ rd_pending r
     | Inr line \<Rightarrow> is_line line \<and> carry @ rd_pending r = line @ carry' @ rd_pending r')"
  using assms
proof (induction scanned r carry rule: control_line_loop.induct)
  case (1 scanned r carry)
  have fd: "find_sub crlf carry = map_option ((+) scanned) (find_sub crlf (drop scanned carry))"
    using "1.prems"(2) by (intro find_sub_drop) simp
  show ?case
  proof (cases "find_sub crlf (drop scanned carry)")
    case (Some rel)
    then have f: "find_sub crlf carry = Some (scanned + rel)" using fd by simp
    have "is_line (take (scanned + rel + 2) carry)" by (rule is_line_find [OF f])
    then show ?thesis using "1.prems"(1) Some by (subst (asm) control_line_loop.simps) (auto simp: Let_def)
  next
    case None
    then have nf: "find_sub crlf carry = None" using fd by simp
    show ?thesis
    proof (cases "MAX_CHUNK_LINE < length carry")
      case True
      then show ?thesis using "1.prems"(1) None by (subst (asm) control_line_loop.simps) auto
    next
      case False
      obtain p r1 where rs: "read_some 256 r = (p, r1)" by fastforce
      show ?thesis
      proof (cases p)
        case (Inl e)
        then show ?thesis using "1.prems"(1) None False rs read_some_Inl [of 256 r e r1]
          by (subst (asm) control_line_loop.simps) auto
      next
        case (Inr bs)
        have pend: "rd_pending r = bs @ rd_pending r1" using read_some_pending rs Inr by blast
        show ?thesis
        proof (cases "bs = []")
          case True
          then show ?thesis using "1.prems"(1) None False rs Inr pend by (subst (asm) control_line_loop.simps) auto
        next
          case nonempty: False
          have rec: "control_line_loop (length carry - 1) r1 (carry @ bs) = (q, r', carry')"
            using "1.prems"(1) None False rs Inr nonempty by (subst (asm) control_line_loop.simps) auto
          have "\<forall>j < length carry - 1. take 2 (drop j (carry @ bs)) \<noteq> crlf"
            using no_match_append [OF nf, of _ bs] by simp
          from "1.IH" [OF None False rs [symmetric] Inr nonempty rec this] show ?thesis
            using pend by (simp split: sum.splits)
        qed
      qed
    qed
  qed
qed

lemma read_control_line_spec:
  assumes "read_control_line s = (q, s')"
  shows "pm_out s' = pm_out s \<and> pm_room s' = pm_room s \<and>
    (case q of Inl e \<Rightarrow> unread s' = unread s | Inr line \<Rightarrow> is_line line \<and> unread s = line @ unread s')"
proof -
  obtain p r c where l: "control_line_loop 0 (pm_reader s) (pm_carry s) = (p, r, c)" by (metis prod_cases3)
  then show ?thesis using assms control_line_loop_spec [OF l]
    by (auto simp: read_control_line_def unread_def split: sum.splits)
qed

lemma read_control_line_shorter: "read_control_line s = (Inr line, s') \<Longrightarrow> length (unread s') < length (unread s)"
  by (drule read_control_line_spec) (auto dest: is_line_length)

text \<open>What a write does: all of it, or a proper prefix.\<close>

lemma write_all_spec:
  assumes "write_all bs s = (q, s')"
  shows "unread s' = unread s" "pm_reader s' = pm_reader s" "pm_carry s' = pm_carry s"
    and "q = Inr u \<Longrightarrow> pm_out s' = pm_out s @ bs"
    and "q = Inl e \<Longrightarrow> \<exists>k < length bs. pm_out s' = pm_out s @ take k bs"
  using assms by (auto simp: write_all_def unread_def not_le split: option.splits if_splits)

lemma copy_exact_spec:
  assumes "copy_exact n s = (q, s')"
  shows "pm_carry s' = pm_carry s \<and>
    (\<exists>m. rd_pending (pm_reader s) = m @ rd_pending (pm_reader s') \<and>
      (case q of Inr _ \<Rightarrow> length m = n \<and> pm_out s' = pm_out s @ m
       | Inl _ \<Rightarrow> \<exists>w. length w < n \<and> pm_out s' = pm_out s @ w))"
  using assms
proof (induction n s rule: copy_exact.induct)
  case (1 n s)
  show ?case
  proof (cases "n = 0")
    case True
    then show ?thesis using "1.prems" by (subst (asm) copy_exact.simps) auto
  next
    case n: False
    obtain p r where rs: "read_some (min n 8192) (pm_reader s) = (p, r)" by fastforce
    show ?thesis
    proof (cases p)
      case (Inl e)
      then show ?thesis using "1.prems" n rs read_some_Inl [OF rs [unfolded Inl]]
        by (subst (asm) copy_exact.simps) auto
    next
      case (Inr bs)
      have pend: "rd_pending (pm_reader s) = bs @ rd_pending r" using read_some_pending rs Inr by blast
      have lb: "length bs \<le> n" using rs Inr by (auto simp: read_some_def Let_def split: if_splits)
      show ?thesis
      proof (cases "bs = []")
        case True
        then show ?thesis using "1.prems" n rs Inr pend by (subst (asm) copy_exact.simps) auto
      next
        case ne: False
        obtain p2 s1 where w: "write_all bs (s\<lparr>pm_reader := r\<rparr>) = (p2, s1)" by fastforce
        note ws = write_all_spec [OF w]
        show ?thesis
        proof (cases p2)
          case e: (Inl e)
          obtain k where k: "k < length bs" "pm_out s1 = pm_out s @ take k bs" using ws(5) [OF e] by auto
          have "q = Inl e" "s' = s1" using "1.prems" n rs Inr ne w e by (subst (asm) copy_exact.simps; simp)+
          then show ?thesis using ws(2,3) pend k lb by (auto intro!: exI [of _ "take k bs"])
        next
          case u: (Inr u)
          have rec: "copy_exact (n - length bs) s1 = (q, s')"
            using "1.prems" n rs Inr ne w u by (subst (asm) copy_exact.simps) simp
          obtain m where m: "pm_carry s' = pm_carry s1" "rd_pending (pm_reader s1) = m @ rd_pending (pm_reader s')"
            "case q of Inr _ \<Rightarrow> length m = n - length bs \<and> pm_out s' = pm_out s1 @ m
              | Inl _ \<Rightarrow> \<exists>w. length w < n - length bs \<and> pm_out s' = pm_out s1 @ w"
            using "1.IH" [OF n rs [symmetric] Inr ne w [symmetric] u rec] by blast
          have out: "pm_out s1 = pm_out s @ bs" using ws(4) [OF u] by simp
          show ?thesis
          proof (cases q)
            case (Inl e)
            then obtain w where "length w < n - length bs" "pm_out s' = pm_out s1 @ w" using m(3) by auto
            then have "length (bs @ w) < n \<and> pm_out s' = pm_out s @ bs @ w" using out by simp
            then show ?thesis using m(1,2) ws(2,3) pend Inl by (auto intro!: exI [of _ "bs @ m"])
          next
            case (Inr v)
            then show ?thesis using m ws(2,3) pend out lb by (auto intro!: exI [of _ "bs @ m"])
          qed
        qed
      qed
    qed
  qed
qed

lemma copy_body_spec:
  assumes "copy_body n s = (q, s')"
  shows "\<exists>m. unread s = m @ unread s' \<and>
    (case q of Inr _ \<Rightarrow> length m = n \<and> pm_out s' = pm_out s @ m
     | Inl _ \<Rightarrow> \<exists>w. length w < n \<and> pm_out s' = pm_out s @ w)"
proof -
  define b where "b = min (length (pm_carry s)) n"
  obtain p s1 where w: "write_all (take b (pm_carry s)) s = (p, s1)" by fastforce
  note ws = write_all_spec [OF w]
  show ?thesis
  proof (cases p)
    case (Inl e)
    obtain k where "k < b" "pm_out s1 = pm_out s @ take k (take b (pm_carry s))" using ws(5) [OF Inl] by auto
    then have "length (take k (pm_carry s)) < n" "pm_out s1 = pm_out s @ take k (pm_carry s)" by (auto simp: b_def min_def split: if_splits)
    moreover have "q = Inl e" "s' = s1" using assms w Inl by (simp_all add: copy_body_def Let_def flip: b_def)
    ultimately show ?thesis using ws(1) by auto
  next
    case (Inr u)
    have out: "pm_out s1 = pm_out s @ take b (pm_carry s)" using ws(4) [OF Inr] .
    define s2 where "s2 = s1\<lparr>pm_carry := drop b (pm_carry s1)\<rparr>"
    have s2: "pm_carry s2 = drop b (pm_carry s)" "pm_reader s2 = pm_reader s" "pm_out s2 = pm_out s1"
      using ws(2,3) by (simp_all add: s2_def)
    have eq: "(q, s') = (if n - b > 0 then copy_exact (n - b) s2 else (Inr (), s2))"
      using assms w Inr by (auto simp: copy_body_def Let_def s2_def simp flip: b_def)
    show ?thesis
    proof (cases "n - b > 0")
      case True
      then have b: "b = length (pm_carry s)" by (auto simp: b_def min_def split: if_splits)
      obtain m where m: "pm_carry s' = pm_carry s2" "rd_pending (pm_reader s2) = m @ rd_pending (pm_reader s')"
        "case q of Inr _ \<Rightarrow> length m = n - b \<and> pm_out s' = pm_out s2 @ m
          | Inl _ \<Rightarrow> \<exists>w. length w < n - b \<and> pm_out s' = pm_out s2 @ w"
        using copy_exact_spec [of "n - b" s2 q s'] eq True by auto
      have u: "unread s = (pm_carry s @ m) @ unread s'" using m(1,2) s2 b by (simp add: unread_def)
      show ?thesis
      proof (cases q)
        case (Inl e)
        then obtain w where "length w < n - b" "pm_out s' = pm_out s2 @ w" using m(3) by auto
        then have "length (pm_carry s @ w) < n \<and> pm_out s' = pm_out s @ pm_carry s @ w" using out s2 b by simp
        then have "\<exists>w. length w < n \<and> pm_out s' = pm_out s @ w" by blast
        then show ?thesis using u Inl by auto
      next
        case (Inr v)
        then have "length (pm_carry s @ m) = n \<and> pm_out s' = pm_out s @ pm_carry s @ m" using m(3) out s2 b True by simp
        then show ?thesis using u Inr by auto
      qed
    next
      case False
      then have "q = Inr ()" "s' = s2" "b = n" using eq by (auto simp: b_def min_def split: if_splits)
      then show ?thesis using s2 out by (intro exI [of _ "take n (pm_carry s)"]) (simp add: unread_def b_def)
    qed
  qed
qed

lemma copy_body_unread: "copy_body n s = (q, s') \<Longrightarrow> length (unread s') \<le> length (unread s)"
  by (drule copy_body_spec) auto

function copy_trailers :: "pump \<Rightarrow> (pump_error + unit) \<times> pump" where
  "copy_trailers s =
     (case read_control_line s of
        (Inl e, s1) \<Rightarrow> (Inl e, s1)
      | (Inr trailer, s1) \<Rightarrow>
          (case write_all trailer s1 of
             (Inl e, s2) \<Rightarrow> (Inl e, s2)
           | (Inr _, s2) \<Rightarrow> if trailer = crlf then (Inr (), s2) else copy_trailers s2))"
  by pat_completeness auto
termination
  by (relation "measure (\<lambda>s. length (unread s))")
    (auto dest!: read_control_line_shorter [OF sym] write_all_spec(1) [OF sym])

declare copy_trailers.simps [simp del]

text \<open>\<open>u64::from_str_radix(text, 16)\<close>.\<close>

definition parse_hex_u64 :: "bytes \<Rightarrow> u64 option" where
  "parse_hex_u64 bs =
     (let ds = strip_plus bs
      in if ds \<noteq> [] \<and> list_all (is_digit_of 16) ds \<and> number_val 16 ds < 2 ^ 64
         then Some (of_nat (number_val 16 ds)) else None)"

definition chunk_size :: "bytes \<Rightarrow> u64 option" where
  "chunk_size line =
     (let size_field = hd (split_on (\<lambda>b. b = 0x3B) (take (length line - 2) line))
      in if utf8_valid size_field then parse_hex_u64 (trim size_field) else None)"

function copy_chunked_body :: "pump \<Rightarrow> (pump_error + unit) \<times> pump" where
  "copy_chunked_body s =
     (case read_control_line s of
        (Inl e, s1) \<Rightarrow> (Inl e, s1)
      | (Inr line, s1) \<Rightarrow>
          (case chunk_size line of
             None \<Rightarrow> (Inl (Bad MalformedChunkSize), s1)
           | Some sz \<Rightarrow>
               (case write_all line s1 of
                  (Inl e, s2) \<Rightarrow> (Inl e, s2)
                | (Inr _, s2) \<Rightarrow>
                    if sz = 0 then copy_trailers s2
                    else case copy_body (unat sz) s2 of
                      (Inl e, s3) \<Rightarrow> (Inl e, s3)
                    | (Inr _, s3) \<Rightarrow>
                        (case read_control_line s3 of
                           (Inl e, s4) \<Rightarrow> (Inl e, s4)
                         | (Inr l, s4) \<Rightarrow>
                             if l \<noteq> crlf then (Inl (Bad MissingChunkEnd), s4)
                             else case write_all l s4 of
                               (Inl e, s5) \<Rightarrow> (Inl e, s5)
                             | (Inr _, s5) \<Rightarrow> copy_chunked_body s5))))"
  by pat_completeness auto
termination
  by (relation "measure (\<lambda>s. length (unread s))")
    (auto dest!: read_control_line_shorter [OF sym] write_all_spec(1) [OF sym] copy_body_unread [OF sym])

declare copy_chunked_body.simps [simp del]

subsection \<open>The request pump\<close>

record request_meta =
  head_only :: bool
  mt_connect :: bool
  mt_upgrade :: bool
  mt_verdict :: bool

datatype verdict = Accepted | Declined | Gone

text \<open>The channel between the pumps: the requests announced and not yet received, whether the sender and the
  receiver still exist, the verdicts reported on tunnel requests, in order, and how many of them the request pump
  has received. The sender of a verdict lives in its request: it is dropped unused only with the receiver.\<close>

record channel =
  ch_sent :: "request_meta list"
  ch_sender :: bool
  ch_receiver :: bool
  ch_verdicts :: "verdict list"
  ch_taken :: nat

definition channel_new :: channel where
  "channel_new = \<lparr>ch_sent = [], ch_sender = True, ch_receiver = True, ch_verdicts = [], ch_taken = 0\<rparr>"

definition send_meta :: "request_meta \<Rightarrow> channel \<Rightarrow> channel option" where
  "send_meta m ch = (if ch_receiver ch then Some (ch\<lparr>ch_sent := ch_sent ch @ [m]\<rparr>) else None)"

text \<open>\<open>None\<close> is the future that is not ready.\<close>

definition await_verdict :: "channel \<Rightarrow> verdict option \<times> channel" where
  "await_verdict ch =
     (if ch_taken ch < length (ch_verdicts ch)
      then (Some (ch_verdicts ch ! ch_taken ch), ch\<lparr>ch_taken := Suc (ch_taken ch)\<rparr>)
      else (if ch_receiver ch then None else Some Gone, ch))"

text \<open>How a pump stops: with a result, or waiting for the other one.\<close>

datatype pump_outcome = Returned "pump_error + unit" | AwaitsVerdict | AwaitsRequest

definition is_connect :: "bytes \<Rightarrow> bool" where
  "is_connect block = eq_ignore_ascii_case (request_method block) (str ''CONNECT'')"

definition request_body_of :: "bytes \<Rightarrow> pump_error + request_body" where
  "request_body_of block = (if is_connect block then Inr NoBody else request_framing block)"

definition meta_of :: "bytes \<Rightarrow> request_meta" where
  "meta_of block =
     (let candidate = (is_connect block \<or> is_upgrade block)
      in \<lparr>head_only = eq_ignore_ascii_case (request_method block) (str ''HEAD''), mt_connect = is_connect block,
          mt_upgrade = (candidate \<and> \<not> is_connect block), mt_verdict = candidate\<rparr>)"

definition copy_framed :: "request_body \<Rightarrow> pump \<Rightarrow> (pump_error + unit) \<times> pump" where
  "copy_framed body s =
     (case body of
        NoBody \<Rightarrow> (Inr (), s)
      | Length n \<Rightarrow> copy_body (unat n) s
      | Chunked \<Rightarrow> copy_chunked_body s)"

text \<open>A tunnel, or a body that runs to the end of the stream.\<close>

definition copy_rest :: "pump \<Rightarrow> (pump_error + unit) \<times> pump" where
  "copy_rest s =
     (case write_all (pm_carry s) s of
        (Inl e, s1) \<Rightarrow> (Inl e, s1)
      | (Inr _, s1) \<Rightarrow> copy_to_end (s1\<lparr>pm_carry := []\<rparr>))"

text \<open>A request whose tunnel is to be decided: \<open>Some\<close> outcome stops the pump, \<open>None\<close> goes on with the next
  request.\<close>

definition after_verdict :: "pump \<Rightarrow> channel \<Rightarrow> pump_outcome option \<times> pump \<times> channel" where
  "after_verdict s ch =
     (case await_verdict ch of
        (None, ch1) \<Rightarrow> (Some AwaitsVerdict, s, ch1)
      | (Some Accepted, ch1) \<Rightarrow> (case copy_rest s of (q, s1) \<Rightarrow> (Some (Returned q), s1, ch1))
      | (Some Declined, ch1) \<Rightarrow> (None, s, ch1)
      | (Some Gone, ch1) \<Rightarrow> (Some (Returned (Inr ())), s, ch1))"

definition forward_request ::
    "header_rewrite list \<Rightarrow> bytes \<Rightarrow> pump \<Rightarrow> channel \<Rightarrow> pump_outcome option \<times> pump \<times> channel" where
  "forward_request rewrites block s ch =
     (case rewrite_request_head block rewrites of
        Inl e \<Rightarrow> (Some (Returned (Inl e)), s, ch)
      | Inr head \<Rightarrow>
          (case request_body_of block of
             Inl e \<Rightarrow> (Some (Returned (Inl e)), s, ch)
           | Inr body \<Rightarrow>
               (case send_meta (meta_of block) ch of
                  None \<Rightarrow> (Some (Returned (Inr ())), s, ch)
                | Some ch1 \<Rightarrow>
                    (case write_all head s of
                       (Inl e, s1) \<Rightarrow> (Some (Returned (Inl e)), s1, ch1)
                     | (Inr _, s1) \<Rightarrow>
                         (case copy_framed body (s1\<lparr>pm_carry := drop (length block) (pm_carry s1)\<rparr>) of
                            (Inl e, s2) \<Rightarrow> (Some (Returned (Inl e)), s2, ch1)
                          | (Inr _, s2) \<Rightarrow>
                              if mt_verdict (meta_of block) then after_verdict s2 ch1 else (None, s2, ch1))))))"

partial_function (option) rewrite_request_stream ::
    "header_rewrite list \<Rightarrow> pump \<Rightarrow> channel \<Rightarrow> (pump_outcome \<times> pump \<times> channel) option" where
  "rewrite_request_stream rewrites s ch =
     (case read_header_block (pm_reader s) (pm_carry s) of
        (Inl e, r, carry) \<Rightarrow> Some (Returned (Inl e), s\<lparr>pm_reader := r, pm_carry := carry\<rparr>, ch)
      | (Inr None, r, carry) \<Rightarrow> Some (Returned (Inr ()), s\<lparr>pm_reader := r, pm_carry := carry\<rparr>, ch)
      | (Inr (Some n), r, carry) \<Rightarrow>
          (case forward_request rewrites (take n carry) (s\<lparr>pm_reader := r, pm_carry := carry\<rparr>) ch of
             (Some q, s1, ch1) \<Rightarrow> Some (q, s1, ch1)
           | (None, s1, ch1) \<Rightarrow> rewrite_request_stream rewrites s1 ch1))"

declare rewrite_request_stream.simps [code]

text \<open>The same pump, woken where it awaited a verdict.\<close>

definition resume_request_stream ::
    "header_rewrite list \<Rightarrow> pump \<Rightarrow> channel \<Rightarrow> (pump_outcome \<times> pump \<times> channel) option" where
  "resume_request_stream rewrites s ch =
     (case after_verdict s ch of
        (Some q, s1, ch1) \<Rightarrow> Some (q, s1, ch1)
      | (None, s1, ch1) \<Rightarrow> rewrite_request_stream rewrites s1 ch1)"

subsection \<open>The response pump\<close>

datatype response_body = NoResponseBody | ResponseLength u64 | ResponseChunked | ReadToEnd

definition response_framing :: "bytes \<Rightarrow> u16 \<Rightarrow> bool \<Rightarrow> response_body" where
  "response_framing head status ho =
     (if ho \<or> \<not> response_has_body status (if ho then str ''HEAD'' else str ''GET'') then NoResponseBody
      else if is_transfer_encoding_chunked head then ResponseChunked
      else case content_length head of
        Some n \<Rightarrow> if n = 0 then NoResponseBody else ResponseLength n
      | None \<Rightarrow> ReadToEnd)"

text \<open>\<open>meta_rx.recv()\<close>: \<open>None\<close> is the future that is not ready, \<open>Some None\<close> the end of the requests.\<close>

definition recv_meta :: "channel \<Rightarrow> request_meta option option \<times> channel" where
  "recv_meta ch =
     (case ch_sent ch of
        m # ms \<Rightarrow> (Some (Some m), ch\<lparr>ch_sent := ms\<rparr>)
      | [] \<Rightarrow> (if ch_sender ch then None else Some None, ch))"

definition tunnel_established :: "request_meta \<Rightarrow> u16 \<Rightarrow> bool" where
  "tunnel_established m status \<longleftrightarrow> mt_upgrade m \<and> status = 101 \<or> mt_connect m \<and> 200 \<le> status \<and> status < 300"

definition drained :: "nat \<Rightarrow> pump \<Rightarrow> pump" where
  "drained n s = s\<lparr>pm_carry := drop n (pm_carry s)\<rparr>"

definition send_verdict :: "request_meta \<Rightarrow> bool \<Rightarrow> channel \<Rightarrow> channel" where
  "send_verdict m established ch =
     (if mt_verdict m then ch\<lparr>ch_verdicts := ch_verdicts ch @ [if established then Accepted else Declined]\<rparr> else ch)"

text \<open>One response: \<open>Some\<close> result ends the pump, \<open>None\<close> goes on with the next response.\<close>

definition answer_request :: "bytes \<Rightarrow> u16 \<Rightarrow> request_meta \<Rightarrow> pump \<Rightarrow> (pump_error + unit) option \<times> pump" where
  "answer_request head status m s =
     (if \<not> mt_verdict m \<and> status = 101 then (Some (Inl (Bad Unsolicited101)), s)
      else case write_all head s of
        (Inl e, s1) \<Rightarrow> (Some (Inl e), s1)
      | (Inr _, s1) \<Rightarrow>
          let s2 = drained (length head) s1
          in if tunnel_established m status then (case copy_rest s2 of (q, s3) \<Rightarrow> (Some q, s3))
             else (case response_framing head status (head_only m) of
                NoResponseBody \<Rightarrow> (None, s2)
              | ResponseLength n \<Rightarrow>
                  (case copy_body (unat n) s2 of (Inl e, s3) \<Rightarrow> (Some (Inl e), s3) | (Inr _, s3) \<Rightarrow> (None, s3))
              | ResponseChunked \<Rightarrow>
                  (case copy_chunked_body s2 of (Inl e, s3) \<Rightarrow> (Some (Inl e), s3) | (Inr _, s3) \<Rightarrow> (None, s3))
              | ReadToEnd \<Rightarrow> (case copy_rest s2 of (q, s3) \<Rightarrow> (Some q, s3))))"

text \<open>A pump that awaits a request keeps the response head in its buffer, where it finds it again when it is
  woken.\<close>

partial_function (option) forward_response_stream ::
    "pump \<Rightarrow> channel \<Rightarrow> (pump_outcome \<times> pump \<times> channel) option" where
  "forward_response_stream s ch =
     (case read_header_block (pm_reader s) (pm_carry s) of
        (Inl e, r, carry) \<Rightarrow> Some (Returned (Inl e), s\<lparr>pm_reader := r, pm_carry := carry\<rparr>, ch)
      | (Inr None, r, carry) \<Rightarrow> Some (Returned (Inr ()), s\<lparr>pm_reader := r, pm_carry := carry\<rparr>, ch)
      | (Inr (Some n), r, carry) \<Rightarrow>
          let head = take n carry; s0 = s\<lparr>pm_reader := r, pm_carry := carry\<rparr>
          in (case parse_status head of
                None \<Rightarrow> Some (Returned (Inl (Bad MalformedStatus)), s0, ch)
              | Some status \<Rightarrow>
                  if 100 \<le> status \<and> status < 200 \<and> status \<noteq> 101 then
                    (case write_all head s0 of
                       (Inl e, s1) \<Rightarrow> Some (Returned (Inl e), s1, ch)
                     | (Inr _, s1) \<Rightarrow> forward_response_stream (drained n s1) ch)
                  else (case recv_meta ch of
                      (None, ch1) \<Rightarrow> Some (AwaitsRequest, s0, ch1)
                    | (Some None, ch1) \<Rightarrow> Some (Returned (Inl (Bad NoRequest)), s0, ch1)
                    | (Some (Some m), ch1) \<Rightarrow>
                        let ch2 = send_verdict m (tunnel_established m status) ch1
                        in (case answer_request head status m s0 of
                              (Some q, s1) \<Rightarrow> Some (Returned q, s1, ch2)
                            | (None, s1) \<Rightarrow> forward_response_stream s1 ch2))))"

declare forward_response_stream.simps [code]

subsection \<open>Both pumps\<close>

text \<open>\<open>join!\<close> of the two pumps. They share nothing but the channel, so it does not matter which of them runs
  first: the response pump is woken when the request pump has stopped, and the request pump when its verdict is
  there. If it never is, the join does not complete, and the outcome is \<open>AwaitsVerdict\<close>. A request pump that
  returns drops its sender; the receiver lives until both have returned.\<close>

definition wake_response :: "pump_outcome \<Rightarrow> pump \<Rightarrow> channel \<Rightarrow> (pump_outcome \<times> pump \<times> channel) option" where
  "wake_response b upstream ch =
     (case b of Returned _ \<Rightarrow> Some (b, upstream, ch) | _ \<Rightarrow> forward_response_stream upstream ch)"

definition both_results :: "pump_error + unit \<Rightarrow> pump_outcome \<Rightarrow> pump_outcome" where
  "both_results a b = (case b of Returned q \<Rightarrow> Returned (case a of Inl e \<Rightarrow> Inl e | Inr _ \<Rightarrow> q) | _ \<Rightarrow> b)"

partial_function (option) join_pumps ::
    "header_rewrite list \<Rightarrow> pump_outcome \<Rightarrow> pump \<Rightarrow> pump_outcome \<Rightarrow> pump \<Rightarrow> channel \<Rightarrow>
     (pump_outcome \<times> pump \<times> pump \<times> channel) option" where
  "join_pumps rewrites a client b upstream ch =
     (case a of
        Returned q \<Rightarrow>
          (case wake_response b upstream (ch\<lparr>ch_sender := False\<rparr>) of
             None \<Rightarrow> None
           | Some (b1, upstream1, ch1) \<Rightarrow> Some (both_results q b1, client, upstream1, ch1))
      | _ \<Rightarrow>
          (case wake_response b upstream ch of
             None \<Rightarrow> None
           | Some (b1, upstream1, ch1) \<Rightarrow>
               if ch_taken ch1 < length (ch_verdicts ch1) then
                 (case resume_request_stream rewrites client ch1 of
                    None \<Rightarrow> None
                  | Some (a1, client1, ch2) \<Rightarrow> join_pumps rewrites a1 client1 b1 upstream1 ch2)
               else Some (a, client, upstream1, ch1)))"

declare join_pumps.simps [code]

definition proxy_http1_rewriting ::
    "header_rewrite list \<Rightarrow> pump \<Rightarrow> pump \<Rightarrow> (pump_outcome \<times> pump \<times> pump \<times> channel) option" where
  "proxy_http1_rewriting rewrites client upstream =
     (case rewrite_request_stream rewrites client channel_new of
        None \<Rightarrow> None
      | Some (a, client1, ch) \<Rightarrow> join_pumps rewrites a client1 AwaitsRequest upstream ch)"

end
