(* ===== verification/Http_Properties.thy ===== *)
theory Http_Properties
  imports Http
begin

text \<open>
  Properties of the HTTP/1 rewriter: what an upstream that frames the forwarded bytes sees, whatever the
  client sends and however it is cut, and that the pumps come to an end.
\<close>

section \<open>Framing\<close>

lemma read_header_loop_spec:
  assumes "read_header_loop scanned r carry = (q, r', carry')" "\<forall>j < scanned. take 4 (drop j carry) \<noteq> crlf2"
  shows "carry' @ rd_pending r' = carry @ rd_pending r \<and>
    (\<forall>n. q = Inr (Some n) \<longrightarrow> 4 \<le> n \<and> find_sub crlf2 carry' = Some (n - 4))"
  using assms
proof (induction scanned r carry rule: read_header_loop.induct)
  case (1 scanned r carry)
  have fd: "find_sub crlf2 carry = map_option ((+) scanned) (find_sub crlf2 (drop scanned carry))"
    using "1.prems"(2) by (intro find_sub_drop) simp
  show ?case
  proof (cases "find_sub crlf2 (drop scanned carry)")
    case (Some rel)
    then show ?thesis using "1.prems"(1) fd by (subst (asm) read_header_loop.simps) auto
  next
    case None
    then have nf: "find_sub crlf2 carry = None" using fd by simp
    show ?thesis
    proof (cases "MAX_HEADER_SIZE < length carry")
      case True
      then show ?thesis using "1.prems"(1) None by (subst (asm) read_header_loop.simps) auto
    next
      case False
      obtain p r1 where rs: "read_some 4096 r = (p, r1)" by fastforce
      show ?thesis
      proof (cases p)
        case (Inl e)
        then show ?thesis using "1.prems"(1) None False rs read_some_Inl [of 4096 r e r1]
          by (subst (asm) read_header_loop.simps) auto
      next
        case (Inr bs)
        have pend: "rd_pending r = bs @ rd_pending r1" using read_some_pending rs Inr by blast
        show ?thesis
        proof (cases "bs = []")
          case True
          then show ?thesis using "1.prems"(1) None False rs Inr pend
            by (subst (asm) read_header_loop.simps) (auto split: if_splits)
        next
          case nonempty: False
          have rec: "read_header_loop (length carry - 3) r1 (carry @ bs) = (q, r', carry')"
            using "1.prems"(1) None False rs Inr nonempty by (subst (asm) read_header_loop.simps) auto
          have "\<forall>j < length carry - 3. take 4 (drop j (carry @ bs)) \<noteq> crlf2"
            using no_match_append [OF nf, of _ bs] by simp
          from "1.IH" [OF None False rs [symmetric] Inr nonempty rec this] show ?thesis
            using pend by simp
        qed
      qed
    qed
  qed
qed

text \<open>A header block: it ends with its first blank line.\<close>

definition is_block :: "bytes \<Rightarrow> bool" where
  "is_block h \<longleftrightarrow> 4 \<le> length h \<and> find_sub crlf2 h = Some (length h - 4)"

lemma read_header_block_spec:
  assumes "read_header_block r carry = (q, r', carry')"
  shows "carry' @ rd_pending r' = carry @ rd_pending r"
    and "q = Inr (Some n) \<Longrightarrow> is_block (take n carry') \<and> 4 \<le> n \<and> n \<le> length carry'"
proof -
  note spec = read_header_loop_spec [OF assms [unfolded read_header_block_def]]
  show "carry' @ rd_pending r' = carry @ rd_pending r" using spec by simp
  assume q: "q = Inr (Some n)"
  have f: "find_sub crlf2 carry' = Some (n - 4)" "4 \<le> n" using spec q by auto
  have "n \<le> length carry'" using find_sub_Some_le [OF f(1)] f(2) by simp
  moreover have "find_sub crlf2 (take n carry') = Some (n - 4)"
    using find_sub_take [OF f(1)] f(2) by simp
  ultimately show "is_block (take n carry') \<and> 4 \<le> n \<and> n \<le> length carry'" using f(2) by (simp add: is_block_def)
qed

lemma find_block: "is_block h \<Longrightarrow> find_sub crlf2 (h @ xs) = Some (length h - 4)"
  unfolding is_block_def using find_sub_append by blast

text \<open>A proper prefix of a block or of a line is not one.\<close>

lemma find_sub_prefix:
  assumes "find_sub p xs = Some (length xs - length p)" "k < length xs" "p \<noteq> []"
  shows "find_sub p (take k xs) = None"
  unfolding find_sub_None_iff
proof (intro allI impI notI)
  fix j assume j: "j < length (take k xs)" and m: "take (length p) (drop j (take k xs)) = p"
  have "length (take (length p) (drop j (take k xs))) = length p" using m by simp
  then have le: "j + length p \<le> k" using j assms(2) by simp
  then have "take (length p) (drop j xs) = p" using m by (simp add: drop_take min_def split: if_splits)
  moreover have "j < length xs - length p" using le assms(2) by simp
  ultimately show False using assms(1) by (simp add: find_sub_Some_iff)
qed

lemma crlf_pos: "take 2 xs = crlf \<longleftrightarrow> (\<exists>ys. xs = 0x0D # 0x0A # ys)"
  by (cases xs; cases "tl xs") (auto simp: crlf_def)

lemma crlf2_pos: "take 4 xs = crlf2 \<longleftrightarrow> take 2 xs = crlf \<and> take 2 (drop 2 xs) = crlf"
proof -
  have "take 4 xs = take 2 xs @ take 2 (drop 2 xs)" by (simp flip: take_add)
  then show ?thesis by (cases xs; cases "tl xs") (auto simp: crlf_def crlf2_def)
qed

text \<open>The first blank line after a line.\<close>

lemma find_crlf2_line:
  assumes "is_line l"
  shows "find_sub crlf2 (l @ xs) =
    (if take 2 xs = crlf then Some (length l - 2) else map_option ((+) (length l)) (find_sub crlf2 xs))"
proof -
  have l: "find_sub crlf l = Some (length l - 2)" "2 \<le> length l" using assms is_line_length by (auto simp: is_line_def)
  have le: "drop (length l - 2) l = crlf"
    using find_sub_Some [OF l(1)] l(2) by simp
  then have ll: "l = take (length l - 2) l @ crlf" by (metis append_take_drop_id)
  have early: "take 4 (drop j (l @ xs)) \<noteq> crlf2" if j: "j < length l - 2" for j
  proof
    assume "take 4 (drop j (l @ xs)) = crlf2"
    then have "take 2 (drop j (l @ xs)) = crlf" by (simp only: crlf2_pos)
    then have "take 2 (drop j l) = crlf" using j by simp
    then show False using l(1) j by (simp add: find_sub_Some_iff)
  qed
  have at2: "drop (length l - 2) (l @ xs) = crlf @ xs" using le l(2) by simp
  have mid: "take 4 (drop (length l - 1) (l @ xs)) \<noteq> crlf2"
  proof -
    have "length l - 1 = 1 + (length l - 2)" using l(2) by simp
    then have "drop (length l - 1) (l @ xs) = drop 1 (drop (length l - 2) (l @ xs))" by (simp only: drop_drop)
    then show ?thesis unfolding at2 by (simp add: crlf_def crlf2_def)
  qed
  show ?thesis
  proof (cases "take 2 xs = crlf")
    case True
    then have "take 4 (drop (length l - 2) (l @ xs)) = crlf2" unfolding at2 crlf2_pos by (simp add: crlf_def)
    then have "find_sub crlf2 (l @ xs) = Some (length l - 2)"
      using early l(2) by (simp add: find_sub_Some_iff del: drop_append)
    then show ?thesis using True by simp
  next
    case False
    have "take 4 (drop j (l @ xs)) \<noteq> crlf2" if "j < length l" for j
    proof -
      have "take 4 (drop (length l - 2) (l @ xs)) \<noteq> crlf2"
        unfolding at2 crlf2_pos using False by (simp add: crlf_def)
      moreover have "j < length l - 2 \<or> j = length l - 2 \<or> j = length l - 1" using that by arith
      ultimately show ?thesis using early mid by blast
    qed
    then have "find_sub crlf2 (l @ xs) = map_option ((+) (length l)) (find_sub crlf2 (drop (length l) (l @ xs)))"
      by (intro find_sub_drop) simp
    then show ?thesis using False by simp
  qed
qed

section \<open>Header lines\<close>

text \<open>A non-empty line with its \<open>\r\n\<close>.\<close>

definition good_line :: "bytes \<Rightarrow> bool" where
  "good_line l \<longleftrightarrow> is_line l \<and> 2 < length l"

lemma good_line_start: "good_line l \<Longrightarrow> take 2 (l @ xs) \<noteq> crlf"
proof
  assume g: "good_line l" and t: "take 2 (l @ xs) = crlf"
  then have "take 2 l = crlf" by (simp add: good_line_def)
  moreover have "find_sub crlf l = Some (length l - 2)" "0 < length l - 2" using g by (auto simp: good_line_def is_line_def)
  ultimately show False unfolding find_sub_Some_iff by (metis crlf_length(1) drop0)
qed

lemma find_crlf2_lines:
  assumes "is_line l0" "list_all good_line ls"
  shows "find_sub crlf2 (l0 @ concat ls @ crlf @ xs) = Some (length (l0 @ concat ls) - 2)"
  using assms
proof (induction ls arbitrary: l0)
  case Nil
  then show ?case using is_line_length by (simp add: find_crlf2_line)
next
  case (Cons l ls)
  have l: "is_line l" "2 \<le> length l" using Cons.prems by (auto simp: good_line_def)
  have "take 2 (concat (l # ls) @ crlf @ xs) \<noteq> crlf" using good_line_start [of l "concat ls @ crlf @ xs"] Cons.prems by simp
  then have "find_sub crlf2 (l0 @ concat (l # ls) @ crlf @ xs) =
      map_option ((+) (length l0)) (find_sub crlf2 (l @ concat ls @ crlf @ xs))"
    using find_crlf2_line [OF Cons.prems(1), of "concat (l # ls) @ crlf @ xs"] by simp
  also have "\<dots> = Some (length l0 + (length (l @ concat ls) - 2))" using Cons.IH [OF l(1)] Cons.prems by simp
  finally show ?case using l(2) by simp
qed

lemma find_crlf2_no_blank:
  assumes "is_line l0" "list_all good_line ls"
  shows "find_sub crlf2 (l0 @ concat ls) = None"
  using assms
proof (induction ls arbitrary: l0)
  case Nil
  then show ?case using find_crlf2_line [of l0 "[]"] by (simp add: crlf_def)
next
  case (Cons l ls)
  have l: "is_line l" using Cons.prems by (auto simp: good_line_def)
  have "take 2 (concat (l # ls)) \<noteq> crlf" using good_line_start [of l "concat ls"] Cons.prems by simp
  then show ?case
    using find_crlf2_line [OF Cons.prems(1), of "concat (l # ls)"] Cons.IH [OF l] Cons.prems by simp
qed

definition body_of_line :: "bytes \<Rightarrow> bytes" where
  "body_of_line l = take (length l - 2) l"

lemma field_lines_section:
  "list_all good_line ls \<Longrightarrow> field_lines (concat ls @ crlf @ xs) = map body_of_line ls"
proof (induction ls)
  case Nil
  have "find_sub crlf (crlf @ xs) = Some 0" by (simp add: crlf_def)
  then show ?case by (subst field_lines.simps) simp
next
  case (Cons l ls)
  have l: "is_line l" "2 < length l" using Cons.prems by (auto simp: good_line_def)
  have "find_sub crlf (l @ concat ls @ crlf @ xs) = Some (length l - 2)" by (rule find_sub_line [OF l(1)])
  then show ?case using Cons l(2) by (subst field_lines.simps) (simp add: body_of_line_def)
qed

subsection \<open>Names\<close>

definition raw_name :: "bytes \<Rightarrow> bytes" where
  "raw_name l = (case position (\<lambda>b. b = 0x3A) (body_of_line l) of Some c \<Rightarrow> take c (body_of_line l) | None \<Rightarrow> [])"

text \<open>A line with a colon and a proper name before it.\<close>

definition named_line :: "bytes \<Rightarrow> bool" where
  "named_line l \<longleftrightarrow> good_line l \<and> position (\<lambda>b. b = 0x3A) (body_of_line l) \<noteq> None \<and> raw_name l \<noteq> [] \<and>
     \<not> list_ex is_ascii_whitespace (raw_name l)"

lemma rewrite_lines_spec:
  assumes "rewrite_lines rewrites rest = Inr out"
  shows "\<exists>ls. list_all named_line ls \<and>
    ((\<exists>tail. rest = concat ls @ crlf @ tail \<and> out = concat (filter (\<lambda>l. \<not> owned rewrites (raw_name l)) ls) @ crlf) \<or>
     rest = concat ls \<and> out = concat (filter (\<lambda>l. \<not> owned rewrites (raw_name l)) ls))"
  using assms
proof (induction "rewrites" rest arbitrary: out rule: rewrite_lines.induct)
  case (1 hrs rest)
  show ?case
  proof (cases "rest = []")
    case True
    then show ?thesis using "1.prems" by (subst (asm) rewrite_lines.simps) (auto intro!: exI [of _ "[]"])
  next
    case ne: False
    obtain rel where rel: "find_sub crlf rest = Some rel"
      using "1.prems" ne by (subst (asm) rewrite_lines.simps) (auto split: option.splits)
    show ?thesis
    proof (cases "rel = 0")
      case True
      have "take 2 rest = crlf" using find_sub_Some [OF rel] True by simp
      then have "rest = crlf @ drop 2 rest" by (metis append_take_drop_id)
      moreover have "out = crlf" using "1.prems" ne rel True by (subst (asm) rewrite_lines.simps) simp
      ultimately show ?thesis by (intro exI [of _ "[]"]) auto
    next
      case False
      define l where "l = take (rel + 2) rest"
      have le: "rel + 2 \<le> length rest" using find_sub_Some_le [OF rel] by simp
      have g: "good_line l" using is_line_find [OF rel] False le by (simp add: good_line_def l_def)
      have body: "body_of_line l = take rel rest" using le by (simp add: body_of_line_def l_def)
      obtain colon where c: "position (\<lambda>b. b = 0x3A) (take rel rest) = Some colon" "take colon (take rel rest) \<noteq> []"
          "\<not> list_ex is_ascii_whitespace (take colon (take rel rest))"
        and nows: "\<not> (hd rest = 0x20 \<or> hd rest = 0x09)"
        using "1.prems" ne rel False by (subst (asm) rewrite_lines.simps) (auto simp: Let_def split: option.splits if_splits)
      have step: "rewrite_lines hrs rest = (case rewrite_lines hrs (drop (rel + 2) rest) of
          Inl e \<Rightarrow> Inl e | Inr o1 \<Rightarrow> Inr ((if owned hrs (take colon (take rel rest)) then [] else l) @ o1))"
        by (subst rewrite_lines.simps) (simp only: ne rel False nows c Let_def l_def option.case if_False simp_thms)
      obtain out1 where o: "rewrite_lines hrs (drop (rel + 2) rest) = Inr out1"
        "out = (if owned hrs (take colon (take rel rest)) then [] else l) @ out1"
        using "1.prems" unfolding step by (auto split: sum.splits)
      have nm: "raw_name l = take colon (take rel rest)" using c(1) by (simp add: raw_name_def body)
      have named: "named_line l" using g c nm by (simp add: named_line_def body)
      have rest: "rest = l @ drop (rel + 2) rest" by (simp add: l_def)
      obtain ls where ls: "list_all named_line ls"
        "(\<exists>tail. drop (rel + 2) rest = concat ls @ crlf @ tail \<and> out1 = concat (filter (\<lambda>l. \<not> owned hrs (raw_name l)) ls) @ crlf) \<or>
         drop (rel + 2) rest = concat ls \<and> out1 = concat (filter (\<lambda>l. \<not> owned hrs (raw_name l)) ls)"
        using "1.IH" [OF ne rel False nows c(1) refl _ o(1)] c(2,3) by blast
      have "list_all named_line (l # ls)" using named ls(1) by simp
      moreover have "out = (if owned hrs (raw_name l) then [] else l) @ out1" using o(2) nm by simp
      moreover obtain rest' where rest': "rest = l @ rest'" "drop (rel + 2) rest = rest'" using rest by blast
      ultimately show ?thesis using ls(2) unfolding rest'(2) unfolding rest'(1)
        by (intro exI [of _ "l # ls"]) (elim disjE exE conjE; simp)
    qed
  qed
qed

lemma trim_ascii_id: "\<not> list_ex is_ascii_whitespace xs \<Longrightarrow> trim_ascii xs = xs"
proof -
  assume n: "\<not> list_ex is_ascii_whitespace xs"
  have "position (\<lambda>b. \<not> is_ascii_whitespace b) ys = (if ys = [] then None else Some 0)"
    if "set ys = set xs" for ys using n that by (cases ys) (auto simp: list_ex_iff)
  then show ?thesis by (simp add: trim_ascii_def Let_def slice_def)
qed

lemma position_append_other: "\<not> P x \<Longrightarrow> position P (xs @ [x]) = position P xs"
  by (induction xs) auto

lemma trim_ascii_space: "is_ascii_whitespace x \<Longrightarrow> trim_ascii (x # xs) = trim_ascii xs"
proof -
  assume w: "is_ascii_whitespace x"
  show ?thesis
  proof (cases "position (\<lambda>b. \<not> is_ascii_whitespace b) (rev xs)")
    case None
    then show ?thesis using w by (auto simp: trim_ascii_def Let_def position_append_other slice_def split: option.splits)
  next
    case (Some p)
    then have "p < length xs" using position_Some by fastforce
    then show ?thesis using w Some
      by (auto simp: trim_ascii_def Let_def position_append_other slice_def Suc_diff_le split: option.splits)
  qed
qed

lemma header_field_named: "named_line l \<Longrightarrow> \<exists>v. header_field_of (body_of_line l) = Some (raw_name l, v)"
  by (auto simp: named_line_def header_field_of_def raw_name_def trim_ascii_id split: option.splits)

text \<open>What the configuration may state: a proper header name that frames nothing, and a value on one line.\<close>

definition framing_name :: "bytes \<Rightarrow> bool" where
  "framing_name n \<longleftrightarrow> eq_ignore_ascii_case n (str ''transfer-encoding'') \<or> eq_ignore_ascii_case n (str ''content-length'')"

definition good_rewrite :: "header_rewrite \<Rightarrow> bool" where
  "good_rewrite r \<longleftrightarrow> hr_name r \<noteq> [] \<and> list_all (\<lambda>b. b \<noteq> 0x3A \<and> \<not> is_ascii_whitespace b) (hr_name r) \<and>
     \<not> framing_name (hr_name r) \<and> (case hr_value r of Some v \<Rightarrow> 0x0D \<notin> set v | None \<Rightarrow> True)"

lemma is_line_no_cr: "0x0D \<notin> set xs \<Longrightarrow> is_line (xs @ crlf)"
proof -
  assume n: "0x0D \<notin> set xs"
  have "take 2 (drop j (xs @ crlf)) \<noteq> crlf" if j: "j < length xs" for j
  proof
    assume "take 2 (drop j (xs @ crlf)) = crlf"
    then obtain ys where "drop j (xs @ crlf) = 0x0D # 0x0A # ys" unfolding crlf_pos by blast
    then have "(xs @ crlf) ! j = 0x0D" by (rule nth_via_drop)
    then have "xs ! j = 0x0D" using j by (simp add: nth_append)
    then show False using n nth_mem [OF j] by simp
  qed
  then show ?thesis by (simp add: is_line_def find_sub_Some_iff)
qed

lemma stated_line:
  assumes "good_rewrite r" "hr_value r = Some v"
  shows "good_line (stated r)" "header_field_of (body_of_line (stated r)) = Some (hr_name r, trim_ascii v)"
proof -
  have n: "list_all (\<lambda>b. b \<noteq> 0x3A \<and> \<not> is_ascii_whitespace b) (hr_name r)" "0x0D \<notin> set v"
    using assms by (auto simp: good_rewrite_def)
  then have "0x0D \<notin> set (hr_name r @ str '': '' @ v)"
    by (auto simp: list_all_iff is_ascii_whitespace_def str_def)
  then have "is_line ((hr_name r @ str '': '' @ v) @ crlf)" by (rule is_line_no_cr)
  then show "good_line (stated r)" using assms(2) by (simp add: good_line_def stated_def str_def)
  have "position (\<lambda>b. b = 0x3A) (xs @ 0x3A # ys) = Some (length xs)" if "0x3A \<notin> set xs" for xs ys :: bytes
    using that by (induction xs) auto
  moreover have "0x3A \<notin> set (hr_name r)" "\<not> list_ex is_ascii_whitespace (hr_name r)"
    using n(1) by (auto simp: list_all_iff list_ex_iff)
  ultimately show "header_field_of (body_of_line (stated r)) = Some (hr_name r, trim_ascii v)"
    using assms(2)
    by (simp add: header_field_of_def body_of_line_def stated_def str_def trim_ascii_id trim_ascii_space is_ascii_whitespace_def)
qed

section \<open>Rewritten heads\<close>

lemma concat_stated: "concat (map stated rs) = concat (map stated (filter (\<lambda>r. hr_value r \<noteq> None) rs))"
  by (induction rs) (auto simp: stated_def)

lemma rewrite_request_head_spec:
  assumes "rewrite_request_head block rs = Inr head" "is_block block"
  obtains l0 ls where "is_line l0" "list_all named_line ls" "block = l0 @ concat ls @ crlf"
    "head = l0 @ concat (map stated (filter (\<lambda>r. hr_value r \<noteq> None) rs) @ filter (\<lambda>l. \<not> owned rs (raw_name l)) ls) @ crlf"
proof -
  obtain p out where p: "find_sub crlf block = Some p" "rewrite_lines rs (drop (p + 2) block) = Inr out"
    "head = take (p + 2) block @ concat (map stated rs) @ out"
    using assms(1) by (auto simp: rewrite_request_head_def split: option.splits sum.splits)
  define l0 where "l0 = take (p + 2) block"
  have l0: "is_line l0" using is_line_find [OF p(1)] by (simp add: l0_def)
  have block: "block = l0 @ drop (p + 2) block" by (simp add: l0_def)
  obtain ls where ls: "list_all named_line ls"
    "(\<exists>tail. drop (p + 2) block = concat ls @ crlf @ tail \<and> out = concat (filter (\<lambda>l. \<not> owned rs (raw_name l)) ls) @ crlf) \<or>
     drop (p + 2) block = concat ls \<and> out = concat (filter (\<lambda>l. \<not> owned rs (raw_name l)) ls)"
    using rewrite_lines_spec [OF p(2)] by blast
  have good: "list_all good_line ls" using ls(1) by (auto simp: list_all_iff named_line_def)
  have b: "find_sub crlf2 block = Some (length block - 4)" "4 \<le> length block" using assms(2) by (auto simp: is_block_def)
  have "\<not> drop (p + 2) block = concat ls"
    using find_crlf2_no_blank [OF l0 good] b(1) block by (metis option.distinct(1))
  then obtain tail where t: "drop (p + 2) block = concat ls @ crlf @ tail" "out = concat (filter (\<lambda>l. \<not> owned rs (raw_name l)) ls) @ crlf"
    using ls(2) by blast
  have "find_sub crlf2 block = Some (length (l0 @ concat ls) - 2)"
    using find_crlf2_lines [OF l0 good, of tail] block t(1) by metis
  moreover have "length block = length (l0 @ concat ls) + 2 + length tail" using block t(1) by (metis append_assoc crlf_length(1) length_append)
  ultimately have "length l0 + length (concat ls) + length tail - 2 = length l0 + length (concat ls) - 2" using b by simp
  then have "length tail = 0" using is_line_length [OF l0] by linarith
  then have "tail = []" by simp
  then have "drop (p + 2) block = concat ls @ crlf" using t(1) by simp
  then have "block = l0 @ concat ls @ crlf" using block by metis
  moreover have "head = l0 @ concat (map stated (filter (\<lambda>r. hr_value r \<noteq> None) rs) @ filter (\<lambda>l. \<not> owned rs (raw_name l)) ls) @ crlf"
    unfolding p(3) t(2) concat_stated [of rs] l0_def by simp
  ultimately show thesis by (rule that [OF l0 ls(1)])
qed

text \<open>The fields of a head made of lines.\<close>

lemma header_fields_lines:
  assumes "is_line l0" "list_all good_line ls"
  shows "header_fields (l0 @ concat ls @ crlf) = List.map_filter header_field_of (map body_of_line ls)"
proof -
  have "find_sub crlf (l0 @ concat ls @ crlf) = Some (length l0 - 2)" by (rule find_sub_line [OF assms(1)])
  then show ?thesis
    using is_line_length [OF assms(1)] field_lines_section [OF assms(2), of "[]"] by (simp add: header_fields_def)
qed

lemma is_block_lines: "is_line l0 \<Longrightarrow> list_all good_line ls \<Longrightarrow> is_block (l0 @ concat ls @ crlf)"
  using find_crlf2_lines [of l0 ls "[]"] is_line_length [of l0] by (simp add: is_block_def)

text \<open>What the configured headers should say.\<close>

definition authoritative :: "header_rewrite list \<Rightarrow> (bytes \<times> bytes) list" where
  "authoritative rs = List.map_filter (\<lambda>r. map_option (\<lambda>v. (hr_name r, trim_ascii v)) (hr_value r)) rs"

definition clean_head :: "header_rewrite list \<Rightarrow> bytes \<Rightarrow> bool" where
  "clean_head rs h \<longleftrightarrow> filter (\<lambda>(n, _). owned rs n) (header_fields h) = authoritative rs"

lemma map_filter_append: "List.map_filter f (xs @ ys) = List.map_filter f xs @ List.map_filter f ys"
  by (simp add: List.map_filter_def)

lemma stated_fields:
  "list_all good_rewrite rs \<Longrightarrow>
   List.map_filter header_field_of (map body_of_line (map stated (filter (\<lambda>r. hr_value r \<noteq> None) rs))) = authoritative rs"
  by (induction rs) (auto simp: authoritative_def List.map_filter_simps stated_line)

lemma authoritative_owned: "set (authoritative rs) \<subseteq> {(n, v). owned rs n}"
  by (auto simp: authoritative_def List.map_filter_def owned_def list_ex_iff eq_ignore_ascii_case_def)

lemma kept_fields:
  "list_all named_line ls \<Longrightarrow>
   List.map_filter header_field_of (map body_of_line (filter (\<lambda>l. \<not> owned rs (raw_name l)) ls)) =
   filter (\<lambda>(n, _). \<not> owned rs n) (List.map_filter header_field_of (map body_of_line ls))"
proof (induction ls)
  case (Cons l ls)
  obtain v where "header_field_of (body_of_line l) = Some (raw_name l, v)" using header_field_named [of l] Cons.prems by auto
  then show ?case using Cons by (simp add: List.map_filter_simps)
qed (simp add: List.map_filter_simps)

lemma framing_fields_filter:
  "(\<forall>(n, v) \<in> set fs. \<not> P n \<longrightarrow> \<not> framing_name n) \<Longrightarrow>
   framing_fields (filter (\<lambda>(n, _). P n) fs) acc = framing_fields fs acc"
proof (induction fs arbitrary: acc)
  case (Cons f fs)
  obtain n v te chunked len where "f = (n, v)" "acc = (te, chunked, len)" by (metis prod_cases3 surj_pair)
  then show ?case using Cons by (auto simp: framing_name_def split: option.split)
qed simp

lemma framing_fields_skip:
  "(\<forall>(n, v) \<in> set xs. \<not> framing_name n) \<Longrightarrow> framing_fields (xs @ ys) acc = framing_fields ys acc"
  by (induction xs arbitrary: acc) (auto simp: framing_name_def)

lemma position_append:
  "position P (xs @ ys) = (case position P xs of Some i \<Rightarrow> Some i | None \<Rightarrow> map_option (\<lambda>i. length xs + i) (position P ys))"
  by (induction xs; cases "position P ys") (auto split: option.splits)

lemma is_line_cr: "is_line l \<Longrightarrow> 0x0D \<in> set l"
proof -
  assume l: "is_line l"
  then have "drop (length l - 2) l = crlf"
    using find_sub_Some [of crlf l "length l - 2"] is_line_length [OF l] by (simp add: is_line_def)
  then have "set crlf \<subseteq> set l" by (metis set_drop_subset)
  then show ?thesis by (simp add: crlf_def)
qed

lemma is_connect_line: "is_line l \<Longrightarrow> is_connect (l @ xs) = is_connect l"
proof (cases "position (\<lambda>b. b = 0x20) l")
  case None
  assume l: "is_line l"
  have no: "\<not> eq_ignore_ascii_case (take n (l @ xs)) (str ''CONNECT'')" if "n = 0 \<or> length l \<le> n" for n
  proof
    assume e: "eq_ignore_ascii_case (take n (l @ xs)) (str ''CONNECT'')"
    have "str ''CONNECT'' \<noteq> []" by (simp add: str_def)
    then have "length l \<le> n" using e that by (auto simp: eq_ignore_ascii_case_def)
    then have "0x0D \<in> set (take n (l @ xs))" using is_line_cr [OF l] by simp
    then have "to_ascii_lowercase 0x0D \<in> set (map to_ascii_lowercase (str ''CONNECT''))"
      using e unfolding eq_ignore_ascii_case_def by (metis image_eqI set_map)
    then show False by (simp add: str_def to_ascii_lowercase_def is_ascii_upper_def)
  qed
  show ?thesis
    using None no [of 0] no by (auto simp: is_connect_def request_method_def position_append split: option.splits)
next
  case (Some i)
  then have "i \<le> length l" using position_Some by fastforce
  then show ?thesis using Some by (simp add: is_connect_def request_method_def position_append)
qed

lemma owned_not_framing: "list_all good_rewrite rs \<Longrightarrow> owned rs n \<Longrightarrow> \<not> framing_name n"
  by (auto simp: owned_def list_ex_iff list_all_iff good_rewrite_def framing_name_def eq_ignore_ascii_case_def)

lemma rewritten_head:
  assumes "rewrite_request_head block rs = Inr head" "is_block block" "list_all good_rewrite rs"
  shows "is_block head" "clean_head rs head" "request_body_of head = request_body_of block"
proof -
  obtain l0 ls where l: "is_line l0" "list_all named_line ls" "block = l0 @ concat ls @ crlf"
    "head = l0 @ concat (map stated (filter (\<lambda>r. hr_value r \<noteq> None) rs) @ filter (\<lambda>l. \<not> owned rs (raw_name l)) ls) @ crlf"
    using rewrite_request_head_spec [OF assms(1,2)] by blast
  define hs where "hs = map stated (filter (\<lambda>r. hr_value r \<noteq> None) rs) @ filter (\<lambda>l. \<not> owned rs (raw_name l)) ls"
  have gl: "list_all good_line ls" using l(2) by (auto simp: list_all_iff named_line_def)
  have gh: "list_all good_line hs" using gl assms(3) stated_line(1) by (fastforce simp: list_all_iff hs_def)
  have head: "head = l0 @ concat hs @ crlf" using l(4) by (simp add: hs_def)
  show "is_block head" unfolding head by (rule is_block_lines [OF l(1) gh])
  define fs where "fs = header_fields block"
  have fs: "fs = List.map_filter header_field_of (map body_of_line ls)"
    unfolding fs_def l(3) by (rule header_fields_lines [OF l(1) gl])
  have hf: "header_fields head = authoritative rs @ filter (\<lambda>(n, _). \<not> owned rs n) fs"
  proof -
    have "header_fields head = List.map_filter header_field_of (map body_of_line hs)"
      unfolding head by (rule header_fields_lines [OF l(1) gh])
    then show ?thesis
      unfolding hs_def map_append map_filter_append stated_fields [OF assms(3)] kept_fields [OF l(2)] fs .
  qed
  have "filter (\<lambda>(n, _). owned rs n) (authoritative rs) = authoritative rs"
    using authoritative_owned [of rs] by (auto simp: filter_id_conv)
  then show "clean_head rs head" by (simp add: clean_head_def hf case_prod_unfold)
  have "framing_fields (header_fields head) acc = framing_fields fs acc" for acc
  proof -
    have "\<forall>(n, v) \<in> set (authoritative rs). \<not> framing_name n"
      using authoritative_owned [of rs] owned_not_framing [OF assms(3)] by auto
    then have "framing_fields (header_fields head) acc = framing_fields (filter (\<lambda>(n, _). \<not> owned rs n) fs) acc"
      unfolding hf by (rule framing_fields_skip)
    also have "\<dots> = framing_fields fs acc"
      using owned_not_framing [OF assms(3)] by (intro framing_fields_filter) auto
    finally show ?thesis .
  qed
  then have "request_framing head = request_framing block" by (simp add: request_framing_def fs_def)
  moreover have "is_connect head = is_connect block" using is_connect_line [OF l(1)] by (simp add: head l(3))
  ultimately show "request_body_of head = request_body_of block" by (simp add: request_body_of_def)
qed

section \<open>What the upstream sees\<close>

text \<open>The upstream's own reading of the bytes it receives: it splits them at the blank lines and the
  framing of each head.\<close>

definition skip_line :: "bytes \<Rightarrow> (bytes \<times> bytes) option" where
  "skip_line xs = map_option (\<lambda>p. (take (p + 2) xs, drop (p + 2) xs)) (find_sub crlf xs)"

lemma skip_line_shorter: "skip_line xs = Some (l, rest) \<Longrightarrow> length rest < length xs"
  by (auto simp: skip_line_def dest!: find_sub_Some)

function skip_trailers :: "bytes \<Rightarrow> bytes option" where
  "skip_trailers xs =
     (case skip_line xs of
        None \<Rightarrow> None
      | Some (l, rest) \<Rightarrow> if l = crlf then Some rest else skip_trailers rest)"
  by pat_completeness auto
termination by (relation "measure length") (auto dest: skip_line_shorter)

function skip_chunked :: "bytes \<Rightarrow> bytes option" where
  "skip_chunked xs =
     (case skip_line xs of
        None \<Rightarrow> None
      | Some (line, rest) \<Rightarrow>
          (case chunk_size line of
             None \<Rightarrow> None
           | Some n \<Rightarrow>
               if n = 0 then skip_trailers rest
               else if length rest < unat n then None
               else case skip_line (drop (unat n) rest) of
                 None \<Rightarrow> None
               | Some (l, rest') \<Rightarrow> if l = crlf then skip_chunked rest' else None))"
  by pat_completeness auto
termination by (relation "measure length") (auto dest!: skip_line_shorter)

declare skip_trailers.simps [simp del] skip_chunked.simps [simp del]

definition skip_body :: "request_body \<Rightarrow> bytes \<Rightarrow> bytes option" where
  "skip_body body xs =
     (case body of
        NoBody \<Rightarrow> Some xs
      | Length n \<Rightarrow> if unat n \<le> length xs then Some (drop (unat n) xs) else None
      | Chunked \<Rightarrow> skip_chunked xs)"

lemma skip_trailers_shorter: "skip_trailers xs = Some rest \<Longrightarrow> length rest \<le> length xs"
proof (induction xs arbitrary: rest rule: measure_induct_rule [of length])
  case (less xs)
  obtain l r where l: "skip_line xs = Some (l, r)" "l = crlf \<and> rest = r \<or> skip_trailers r = Some rest"
    using less.prems by (subst (asm) skip_trailers.simps) (auto split: option.splits if_splits)
  have "length r < length xs" using skip_line_shorter [OF l(1)] .
  then show ?case using l(2) less.IH [of r rest] by auto
qed

lemma skip_chunked_shorter: "skip_chunked xs = Some rest \<Longrightarrow> length rest \<le> length xs"
proof (induction xs arbitrary: rest rule: measure_induct_rule [of length])
  case (less xs)
  obtain l r where l: "skip_line xs = Some (l, r)" using less.prems by (subst (asm) skip_chunked.simps) (auto split: option.splits)
  then have r: "length r < length xs" by (rule skip_line_shorter)
  obtain n where n: "chunk_size l = Some n" using less.prems l by (subst (asm) skip_chunked.simps) (auto split: option.splits)
  show ?case
  proof (cases "n = 0")
    case True
    then have "skip_trailers r = Some rest" using less.prems l n by (subst (asm) skip_chunked.simps) simp
    then show ?thesis using skip_trailers_shorter [of r rest] r by simp
  next
    case False
    then obtain l' r' where l': "skip_line (drop (unat n) r) = Some (l', r')" "skip_chunked r' = Some rest"
      using less.prems l n by (subst (asm) skip_chunked.simps) (auto split: option.splits if_splits)
    have "length r' < length xs" using skip_line_shorter [OF l'(1)] r by simp
    then show ?thesis using less.IH [of r' rest] l'(2) by simp
  qed
qed

lemma skip_body_shorter: "skip_body body xs = Some rest \<Longrightarrow> length rest \<le> length xs"
  by (auto simp: skip_body_def skip_chunked_shorter split: request_body.splits if_splits)

function upstream_heads :: "bytes \<Rightarrow> bytes list" where
  "upstream_heads xs =
     (case find_sub crlf2 xs of
        None \<Rightarrow> []
      | Some i \<Rightarrow>
          take (i + 4) xs #
            (case request_body_of (take (i + 4) xs) of
               Inl _ \<Rightarrow> []
             | Inr body \<Rightarrow>
                 (case skip_body body (drop (i + 4) xs) of None \<Rightarrow> [] | Some rest \<Rightarrow> upstream_heads rest)))"
  by pat_completeness auto
termination
  by (relation "measure length") (auto dest!: skip_body_shorter find_sub_Some)

declare upstream_heads.simps [simp del]

text \<open>A copy of a body: it hands over exactly one body, or stops before its end.\<close>

definition copied :: "(bytes \<Rightarrow> bytes option) \<Rightarrow> pump \<Rightarrow> pump_error + unit \<Rightarrow> pump \<Rightarrow> bool" where
  "copied skip s q s' \<longleftrightarrow>
     (\<exists>m. unread s = m @ unread s' \<and>
        (case q of
           Inr _ \<Rightarrow> pm_out s' = pm_out s @ m \<and> (\<forall>x. skip (m @ x) = Some x)
         | Inl _ \<Rightarrow> \<exists>w. pm_out s' = pm_out s @ w \<and> skip w = None))"

lemma copied_fail: "unread s = m @ unread s' \<Longrightarrow> pm_out s' = pm_out s @ w \<Longrightarrow> skip w = None \<Longrightarrow> copied skip s (Inl e) s'"
  unfolding copied_def by auto

lemma copied_done: "unread s = m @ unread s' \<Longrightarrow> pm_out s' = pm_out s @ m \<Longrightarrow> (\<And>x. skip (m @ x) = Some x) \<Longrightarrow> copied skip s (Inr u) s'"
  unfolding copied_def by auto

text \<open>What was copied before another copy comes first.\<close>

lemma copied_after:
  assumes "copied skip' s1 q s'" "unread s = m @ unread s1" "pm_out s1 = pm_out s @ m" "\<And>x. skip (m @ x) = skip' x"
  shows "copied skip s q s'"
proof -
  obtain m' where m': "unread s1 = m' @ unread s'"
    "case q of Inr _ \<Rightarrow> pm_out s' = pm_out s1 @ m' \<and> (\<forall>x. skip' (m' @ x) = Some x)
      | Inl _ \<Rightarrow> \<exists>w. pm_out s' = pm_out s1 @ w \<and> skip' w = None"
    using assms(1) unfolding copied_def by blast
  show ?thesis
  proof (cases q)
    case (Inl e)
    then obtain w where "pm_out s' = pm_out s1 @ w" "skip' w = None" using m'(2) by auto
    then show ?thesis using m'(1) assms(2-4) unfolding Inl by (intro copied_fail [of s "m @ m'" s' "m @ w"]) simp_all
  next
    case (Inr u)
    then have "pm_out s' = pm_out s1 @ m'" "\<And>x. skip' (m' @ x) = Some x" using m'(2) by simp_all
    then show ?thesis using m'(1) assms(2-4) unfolding Inr by (intro copied_done [of s "m @ m'" s']) simp_all
  qed
qed

lemma skip_line_line: "is_line l \<Longrightarrow> skip_line (l @ xs) = Some (l, xs)"
  using find_sub_line [of l xs] is_line_length [of l] by (simp add: skip_line_def)

lemma skip_line_Nil [simp]: "skip_line [] = None"
  by (simp add: skip_line_def)

lemma skip_line_prefix: "is_line l \<Longrightarrow> k < length l \<Longrightarrow> skip_line (take k l) = None"
  using find_sub_prefix [of crlf l k] by (simp add: skip_line_def is_line_def)

lemma copy_trailers_copied: "copy_trailers s = (q, s') \<Longrightarrow> copied skip_trailers s q s'"
proof (induction s rule: copy_trailers.induct)
  case (1 s)
  obtain p s1 where r: "read_control_line s = (p, s1)" by fastforce
  note rs = read_control_line_spec [OF r]
  have none: "skip_trailers w = None" if "skip_line w = None" for w by (subst skip_trailers.simps) (simp add: that)
  show ?case
  proof (cases p)
    case (Inl e)
    then have "q = Inl e" "s' = s1" using "1.prems" r by (subst (asm) copy_trailers.simps; simp)+
    then show ?thesis using rs Inl none [of "[]"] by (auto intro!: copied_fail [of s "[]" s1 "[]"])
  next
    case (Inr l)
    have l: "is_line l" "unread s = l @ unread s1" "pm_out s1 = pm_out s" using rs Inr by auto
    obtain p2 s2 where w: "write_all l s1 = (p2, s2)" by fastforce
    note ws = write_all_spec [OF w]
    show ?thesis
    proof (cases p2)
      case e: (Inl e)
      obtain k where k: "k < length l" "pm_out s2 = pm_out s1 @ take k l" using ws(5) [OF e] by blast
      have "q = Inl e" "s' = s2" using "1.prems" r Inr w e by (subst (asm) copy_trailers.simps; simp)+
      then show ?thesis
        using ws(1) l k none [OF skip_line_prefix [OF l(1) k(1)]] by (metis copied_fail)
    next
      case u: (Inr u)
      have out: "pm_out s2 = pm_out s @ l" using ws(4) [OF u] l(3) by simp
      have sk: "skip_trailers (l @ x) = (if l = crlf then Some x else skip_trailers x)" for x
        by (subst skip_trailers.simps) (simp add: skip_line_line [OF l(1)])
      show ?thesis
      proof (cases "l = crlf")
        case True
        then have "q = Inr ()" "s' = s2" using "1.prems" r Inr w u by (subst (asm) copy_trailers.simps; simp)+
        then show ?thesis using ws(1) l out sk True by (metis copied_done)
      next
        case False
        then have "copy_trailers s2 = (q, s')" using "1.prems" r Inr w u by (subst (asm) copy_trailers.simps) simp
        then have "copied skip_trailers s2 q s'" using "1.IH" [OF r [symmetric] Inr w [symmetric] u False] by blast
        then show ?thesis using ws(1) l out sk False by (intro copied_after [of skip_trailers s2 q s' s l skip_trailers]) simp_all
      qed
    qed
  qed
qed

text \<open>Reading a line and passing it on.\<close>

lemma read_line_fail:
  "read_control_line s = (Inl e, s') \<Longrightarrow> skip [] = None \<Longrightarrow> copied skip s (Inl e') s'"
  using read_control_line_spec [of s "Inl e" s'] by (intro copied_fail [of s "[]" s' "[]"]) simp_all

lemma read_line_drop:
  "read_control_line s = (Inr l, s') \<Longrightarrow> skip [] = None \<Longrightarrow> copied skip s (Inl e') s'"
  using read_control_line_spec [of s "Inr l" s'] by (intro copied_fail [of s l s' "[]"]) simp_all

lemma write_line_fail:
  assumes "read_control_line s = (Inr l, s1)" "write_all l s1 = (Inl e, s')" "\<And>w. skip_line w = None \<Longrightarrow> skip w = None"
  shows "copied skip s (Inl e') s'"
proof -
  note rs = read_control_line_spec [OF assms(1)]
  obtain k where "k < length l" "pm_out s' = pm_out s1 @ take k l" using write_all_spec(5) [OF assms(2) refl] by blast
  then show ?thesis
    using rs write_all_spec(1) [OF assms(2)] assms(3) [OF skip_line_prefix]
    by (intro copied_fail [of s l s' "take k l"]) simp_all
qed

lemma write_line_done:
  assumes "read_control_line s = (Inr l, s1)" "write_all l s1 = (Inr u, s')"
  shows "is_line l \<and> unread s = l @ unread s' \<and> pm_out s' = pm_out s @ l"
  using read_control_line_spec [OF assms(1)] write_all_spec(1,4) [OF assms(2)] by simp

definition after_chunk :: "bytes \<Rightarrow> bytes option" where
  "after_chunk xs = (case skip_line xs of None \<Rightarrow> None | Some (l, rest) \<Rightarrow> if l = crlf then skip_chunked rest else None)"

lemma skip_chunked_line:
  "is_line l \<Longrightarrow> chunk_size l = Some n \<Longrightarrow> skip_chunked (l @ xs) =
     (if n = 0 then skip_trailers xs else if length xs < unat n then None else after_chunk (drop (unat n) xs))"
  by (subst skip_chunked.simps) (simp add: skip_line_line after_chunk_def split: option.split)

lemma skip_chunked_none: "skip_line xs = None \<Longrightarrow> skip_chunked xs = None"
  by (subst skip_chunked.simps) simp

lemma copy_chunked_body_copied: "copy_chunked_body s = (q, s') \<Longrightarrow> copied skip_chunked s q s'"
proof (induction s rule: copy_chunked_body.induct)
  case (1 s)
  obtain p s1 where r: "read_control_line s = (p, s1)" by fastforce
  show ?case
  proof (cases p)
    case (Inl e)
    then show ?thesis using "1.prems" r read_line_fail [of s e s1 skip_chunked] skip_chunked_none [of "[]"]
      by (subst (asm) copy_chunked_body.simps) auto
  next
    case l: (Inr l)
    show ?thesis
    proof (cases "chunk_size l")
      case None
      then show ?thesis using "1.prems" r l read_line_drop [of s l s1 skip_chunked] skip_chunked_none [of "[]"]
        by (subst (asm) copy_chunked_body.simps) auto
    next
      case n: (Some n)
      obtain p2 s2 where w: "write_all l s1 = (p2, s2)" by fastforce
      show ?thesis
      proof (cases p2)
        case (Inl e)
        then show ?thesis using "1.prems" r l n w write_line_fail [of s l s1 e s2 skip_chunked] skip_chunked_none
          by (subst (asm) copy_chunked_body.simps) auto
      next
        case u: (Inr u)
        have s2: "is_line l" "unread s = l @ unread s2" "pm_out s2 = pm_out s @ l"
          using write_line_done r w l u by blast+
        show ?thesis
        proof (cases "n = 0")
          case True
          then have "copy_trailers s2 = (q, s')" using "1.prems" r l n w u by (subst (asm) copy_chunked_body.simps) simp
          then show ?thesis
            using copied_after [OF copy_trailers_copied s2(2,3)] skip_chunked_line [OF s2(1) n] True by simp
        next
          case nz: False
          obtain p3 s3 where b: "copy_body (unat n) s2 = (p3, s3)" by fastforce
          obtain m where m: "unread s2 = m @ unread s3"
            "case p3 of Inr _ \<Rightarrow> length m = unat n \<and> pm_out s3 = pm_out s2 @ m
             | Inl _ \<Rightarrow> \<exists>w. length w < unat n \<and> pm_out s3 = pm_out s2 @ w"
            using copy_body_spec [OF b] by blast
          show ?thesis
          proof (cases p3)
            case (Inl e)
            then obtain x where x: "length x < unat n" "pm_out s3 = pm_out s2 @ x" using m(2) by auto
            have "q = Inl e" "s' = s3" using "1.prems" r l n w u nz b Inl by (subst (asm) copy_chunked_body.simps; simp)+
            then show ?thesis using x m(1) s2 skip_chunked_line [OF s2(1) n, of x] nz
              by (auto intro!: copied_fail [of s "l @ m" s3 "l @ x"])
          next
            case v: (Inr v)
            have m3: "length m = unat n" "pm_out s3 = pm_out s2 @ m" using m(2) v by auto
            have sk: "skip_chunked ((l @ m) @ x) = after_chunk x" for x
              using skip_chunked_line [OF s2(1) n, of "m @ x"] nz m3(1) by simp
            have "copied after_chunk s3 q s'"
            proof -
              have none: "skip_line xs = None \<Longrightarrow> after_chunk xs = None" for xs by (simp add: after_chunk_def)
              obtain p4 s4 where r4: "read_control_line s3 = (p4, s4)" by fastforce
              show ?thesis
              proof (cases p4)
                case (Inl e)
                then show ?thesis using "1.prems" r l n w u nz b v r4 read_line_fail [of s3 e s4 after_chunk] none [of "[]"]
                  by (subst (asm) copy_chunked_body.simps) auto
              next
                case l4: (Inr l4)
                show ?thesis
                proof (cases "l4 = crlf")
                  case False
                  then show ?thesis using "1.prems" r l n w u nz b v r4 l4 read_line_drop [of s3 l4 s4 after_chunk] none [of "[]"]
                    by (subst (asm) copy_chunked_body.simps) auto
                next
                  case True
                  obtain p5 s5 where w5: "write_all l4 s4 = (p5, s5)" by fastforce
                  show ?thesis
                  proof (cases p5)
                    case (Inl e)
                    then show ?thesis using "1.prems" r l n w u nz b v r4 l4 True w5 write_line_fail [of s3 l4 s4 e s5 after_chunk] none
                      by (subst (asm) copy_chunked_body.simps) auto
                  next
                    case v5: (Inr v5)
                    have s5: "is_line l4" "unread s3 = l4 @ unread s5" "pm_out s5 = pm_out s3 @ l4"
                      using write_line_done r4 w5 l4 v5 by blast+
                    have rec: "copy_chunked_body s5 = (q, s')"
                      using "1.prems" r l n w u nz b v r4 l4 True w5 v5 by (subst (asm) copy_chunked_body.simps) simp
                    have "copied skip_chunked s5 q s'"
                      using "1.IH" [OF r [symmetric] l n w [symmetric] u nz b [symmetric] v r4 [symmetric] l4 _ w5 [symmetric] v5 rec] True by simp
                    then show ?thesis
                      using copied_after [OF _ s5(2,3), of skip_chunked] skip_line_line [OF s5(1)] True by (simp add: after_chunk_def)
                  qed
                qed
              qed
            qed
            then show ?thesis using copied_after [of after_chunk s3 q s' s "l @ m" skip_chunked] sk s2(2,3) m(1) m3(2) by simp
          qed
        qed
      qed
    qed
  qed
qed

lemma copy_framed_copied: "copy_framed body s = (q, s') \<Longrightarrow> copied (skip_body body) s q s'"
proof (cases body)
  case NoBody
  assume "copy_framed body s = (q, s')"
  then show ?thesis using NoBody copied_done [of s "[]" s "skip_body NoBody"] by (auto simp: copy_framed_def skip_body_def)
next
  case (Length n)
  assume c: "copy_framed body s = (q, s')"
  obtain m where m: "unread s = m @ unread s'"
    "case q of Inr _ \<Rightarrow> length m = unat n \<and> pm_out s' = pm_out s @ m
     | Inl _ \<Rightarrow> \<exists>w. length w < unat n \<and> pm_out s' = pm_out s @ w"
    using copy_body_spec [of "unat n" s q s'] c Length by (auto simp: copy_framed_def)
  show ?thesis
  proof (cases q)
    case (Inl e)
    then show ?thesis using m Length by (auto simp: skip_body_def intro!: copied_fail [of s m s'])
  next
    case (Inr u)
    then show ?thesis using m Length by (auto simp: skip_body_def intro!: copied_done [of s m s'])
  qed
next
  case Chunked
  assume "copy_framed body s = (q, s')"
  moreover have "skip_body body = skip_chunked" using Chunked by (auto simp: skip_body_def fun_eq_iff)
  ultimately show ?thesis using Chunked copy_chunked_body_copied by (simp add: copy_framed_def)
qed

subsection \<open>Whole messages\<close>

lemma upstream_heads_none: "find_sub crlf2 w = None \<Longrightarrow> upstream_heads w = []"
  by (subst upstream_heads.simps) simp

lemma upstream_heads_block:
  assumes "is_block h" "request_body_of h = Inr body"
  shows "upstream_heads (h @ xs) = h # (case skip_body body xs of None \<Rightarrow> [] | Some rest \<Rightarrow> upstream_heads rest)"
  using find_block [OF assms(1), of xs] assms by (subst upstream_heads.simps) (simp add: is_block_def)

text \<open>What has been sent ends at the end of a message, and every head in it is clean.\<close>

definition whole :: "header_rewrite list \<Rightarrow> bytes \<Rightarrow> bool" where
  "whole rs out \<longleftrightarrow>
     (\<exists>hs. (\<forall>h \<in> set hs. clean_head rs h) \<and> (\<forall>x. upstream_heads (out @ x) = hs @ upstream_heads x))"

lemma whole_clean: "whole rs out \<Longrightarrow> (\<forall>h \<in> set (upstream_heads x). clean_head rs h) \<Longrightarrow>
    \<forall>h \<in> set (upstream_heads (out @ x)). clean_head rs h"
  unfolding whole_def by (metis (no_types, lifting) Un_iff set_append)

lemma whole_Nil: "whole rs []"
  unfolding whole_def by (rule exI [of _ "[]"]) simp

lemma whole_message:
  assumes "whole rs out" "is_block h" "clean_head rs h" "request_body_of h = Inr body" "\<And>x. skip_body body (m @ x) = Some x"
  shows "whole rs (out @ h @ m)"
proof -
  obtain hs where hs: "\<forall>h \<in> set hs. clean_head rs h" "\<And>x. upstream_heads (out @ x) = hs @ upstream_heads x"
    using assms(1) unfolding whole_def by blast
  have "upstream_heads ((out @ h @ m) @ x) = (hs @ [h]) @ upstream_heads x" for x
    using hs(2) [of "h @ m @ x"] upstream_heads_block [OF assms(2,4), of "m @ x"] assms(5) by simp
  then show ?thesis using hs(1) assms(3) unfolding whole_def by (intro exI [of _ "hs @ [h]"]) simp
qed

lemma after_verdict_spec:
  assumes "after_verdict s ch = (res, s', ch')" "Accepted \<notin> set (ch_verdicts ch)"
  shows "s' = s \<and> ch_verdicts ch' = ch_verdicts ch"
proof -
  have "ch_taken ch < length (ch_verdicts ch) \<Longrightarrow> ch_verdicts ch ! ch_taken ch \<noteq> Accepted"
    using assms(2) nth_mem by metis
  then show ?thesis
    using assms(1) by (auto simp: after_verdict_def await_verdict_def split: if_splits prod.splits verdict.splits)
qed

text \<open>The heads after a prefix that was written before the requests.\<close>

definition clean_after :: "header_rewrite list \<Rightarrow> bytes \<Rightarrow> bytes \<Rightarrow> bool" where
  "clean_after rs pre out \<longleftrightarrow> (\<exists>x. out = pre @ x \<and> (\<forall>h \<in> set (upstream_heads x). clean_head rs h))"

definition whole_after :: "header_rewrite list \<Rightarrow> bytes \<Rightarrow> bytes \<Rightarrow> bool" where
  "whole_after rs pre out \<longleftrightarrow> (\<exists>x. out = pre @ x \<and> whole rs x)"

lemma whole_after_clean: "whole_after rs pre out \<Longrightarrow> clean_after rs pre out"
  unfolding whole_after_def clean_after_def using whole_clean [of rs _ "[]"] upstream_heads_none [of "[]"] by fastforce

lemma whole_after_append:
  "whole_after rs pre out \<Longrightarrow> \<forall>h \<in> set (upstream_heads x). clean_head rs h \<Longrightarrow> clean_after rs pre (out @ x)"
  unfolding whole_after_def clean_after_def using whole_clean by fastforce

lemma whole_after_message:
  assumes "whole_after rs pre out" "is_block h" "clean_head rs h" "request_body_of h = Inr body"
    "\<And>x. skip_body body (m @ x) = Some x"
  shows "whole_after rs pre (out @ h @ m)"
  using assms(1) whole_message [OF _ assms(2-5)] unfolding whole_after_def by fastforce

lemma forward_request_spec:
  assumes f: "forward_request rs block s ch = (res, s', ch')"
    and blk: "is_block block" "block = take n (pm_carry s)" "n \<le> length (pm_carry s)"
    and rs: "list_all good_rewrite rs" and wh: "whole_after rs pre (pm_out s)" and acc: "Accepted \<notin> set (ch_verdicts ch)"
  shows "ch_verdicts ch' = ch_verdicts ch \<and> clean_after rs pre (pm_out s') \<and>
    (res = None \<or> res = Some AwaitsVerdict \<longrightarrow> whole_after rs pre (pm_out s') \<and> length (unread s') < length (unread s))"
proof -
  show ?thesis
  proof (cases "(\<exists>q. res = Some (Returned q)) \<and> s' = s \<and> ch' = ch")
    case True
    then show ?thesis using whole_after_clean [OF wh] by auto
  next
    case False
    obtain head body ch1 where h: "rewrite_request_head block rs = Inr head" "request_body_of block = Inr body"
        "send_meta (meta_of block) ch = Some ch1"
      using f False by (auto simp: forward_request_def split: sum.splits option.splits)
    note head = rewritten_head [OF h(1) blk(1) rs]
    have v1: "ch_verdicts ch1 = ch_verdicts ch"
      using h(3) by (auto simp: send_meta_def split: if_splits)
    obtain p s1 where w: "write_all head s = (p, s1)" by fastforce
    note ws = write_all_spec [OF w]
    show ?thesis
    proof (cases p)
      case (Inl e)
      obtain k where k: "k < length head" "pm_out s1 = pm_out s @ take k head" using ws(5) [OF Inl] by blast
      have "upstream_heads (take k head) = []"
        using find_sub_prefix [of crlf2 head k] k(1) head(1) by (intro upstream_heads_none) (simp add: is_block_def)
      moreover have "res = Some (Returned (Inl e))" "s' = s1" "ch' = ch1" using f h w Inl by (simp_all add: forward_request_def)
      ultimately show ?thesis using whole_after_append [OF wh, of "take k head"] k(2) v1 by simp
    next
      case u: (Inr u)
      define s2 where "s2 = s1\<lparr>pm_carry := drop (length block) (pm_carry s1)\<rparr>"
      have s2: "pm_out s2 = pm_out s @ head" "unread s2 = drop (length block) (unread s)"
        using ws(2-4) u blk(2,3) by (simp_all add: s2_def unread_def)
      have lb: "4 \<le> length block" "length block \<le> length (unread s)"
        using blk by (auto simp: is_block_def unread_def)
      obtain p3 s3 where c: "copy_framed body s2 = (p3, s3)" by fastforce
      obtain m where m: "unread s2 = m @ unread s3"
        "case p3 of Inr _ \<Rightarrow> pm_out s3 = pm_out s2 @ m \<and> (\<forall>x. skip_body body (m @ x) = Some x)
         | Inl _ \<Rightarrow> \<exists>w. pm_out s3 = pm_out s2 @ w \<and> skip_body body w = None"
        using copy_framed_copied [OF c] unfolding copied_def by blast
      have hb: "request_body_of head = Inr body" using head(3) h(2) by simp
      show ?thesis
      proof (cases p3)
        case (Inl e)
        then obtain x where x: "pm_out s3 = pm_out s2 @ x" "skip_body body x = None" using m(2) by auto
        have "upstream_heads (head @ x) = [head]" using upstream_heads_block [OF head(1) hb, of x] x(2) by simp
        moreover have "res = Some (Returned (Inl e))" "s' = s3" "ch' = ch1"
          using f h w u c Inl by (simp_all add: forward_request_def s2_def)
        ultimately show ?thesis using whole_after_append [OF wh, of "head @ x"] head(2) x(1) s2(1) v1 by simp
      next
        case v: (Inr v)
        have wh3: "whole_after rs pre (pm_out s3)"
          using whole_after_message [OF wh head(1,2) hb, of m] m(2) v s2(1) by simp
        have len: "length (unread s3) < length (unread s)"
        proof -
          have "length (unread s3) \<le> length (unread s2)" using m(1) by simp
          moreover have "length (unread s2) = length (unread s) - length block" unfolding s2(2) by simp
          ultimately show ?thesis using lb by linarith
        qed
        have "(res, s', ch') = (if mt_verdict (meta_of block) then after_verdict s3 ch1 else (None, s3, ch1))"
          using f h w u c v by (simp add: forward_request_def s2_def)
        then have "s' = s3 \<and> ch_verdicts ch' = ch_verdicts ch"
          using after_verdict_spec [of s3 ch1 res s' ch'] acc v1 by (auto split: if_splits)
        then show ?thesis using wh3 len whole_after_clean [OF wh3] by simp
      qed
    qed
  qed
qed

section \<open>Properties\<close>

subsection \<open>Headers\<close>

lemma request_stream_clean:
  assumes "rewrite_request_stream rs s ch = Some (q, s', ch')" "list_all good_rewrite rs" "whole_after rs pre (pm_out s)"
    "Accepted \<notin> set (ch_verdicts ch)"
  shows "ch_verdicts ch' = ch_verdicts ch \<and> clean_after rs pre (pm_out s') \<and>
    (q = AwaitsVerdict \<longrightarrow> whole_after rs pre (pm_out s'))"
  using assms(1,3,4)
proof (induction "length (unread s)" arbitrary: s ch rule: less_induct)
  case less
  obtain p r carry where b: "read_header_block (pm_reader s) (pm_carry s) = (p, r, carry)" by (metis prod_cases3)
  note spec = read_header_block_spec [OF b]
  define s0 where "s0 = s\<lparr>pm_reader := r, pm_carry := carry\<rparr>"
  have s0: "unread s0 = unread s" "pm_out s0 = pm_out s" "pm_carry s0 = carry"
    using spec(1) by (simp_all add: s0_def unread_def)
  show ?case
  proof (cases "\<exists>n. p = Inr (Some n)")
    case False
    then have "s' = s0 \<and> ch' = ch \<and> q \<noteq> AwaitsVerdict" using less.prems(1) b
      by (subst (asm) rewrite_request_stream.simps) (auto simp: s0_def split: sum.splits option.splits)
    then show ?thesis using whole_after_clean [OF less.prems(2)] s0 by simp
  next
    case True
    then obtain n where n: "p = Inr (Some n)" by blast
    obtain res s1 ch1 where f: "forward_request rs (take n carry) s0 ch = (res, s1, ch1)" by (metis prod_cases3)
    have fr: "ch_verdicts ch1 = ch_verdicts ch \<and> clean_after rs pre (pm_out s1) \<and>
        (res = None \<or> res = Some AwaitsVerdict \<longrightarrow> whole_after rs pre (pm_out s1) \<and> length (unread s1) < length (unread s0))"
      by (rule forward_request_spec [OF f _ _ _ assms(2), of n]) (use spec(2) [OF n] s0 less.prems(2,3) in auto)
    show ?thesis
    proof (cases res)
      case (Some q')
      then have "s' = s1 \<and> ch' = ch1 \<and> q = q'" using less.prems(1) b n f
        by (subst (asm) rewrite_request_stream.simps) (simp add: s0_def)
      then show ?thesis using fr Some by simp
    next
      case None
      then have "rewrite_request_stream rs s1 ch1 = Some (q, s', ch')" using less.prems(1) b n f
        by (subst (asm) rewrite_request_stream.simps) (simp add: s0_def)
      then show ?thesis using less.hyps [of s1 ch1] fr None s0(1) less.prems(3) by simp
    qed
  qed
qed

subsection \<open>The channel\<close>

text \<open>Every tunnel request announced is either still unread or has its verdict.\<close>

definition announced :: "channel \<Rightarrow> nat" where
  "announced ch = length (filter mt_verdict (ch_sent ch)) + length (ch_verdicts ch)"

definition ends_in_tunnel :: "channel \<Rightarrow> bool" where
  "ends_in_tunnel ch \<longleftrightarrow> ch_sent ch = [] \<or> mt_verdict (last (ch_sent ch))"

text \<open>What an outcome of the request pump says about the channel.\<close>

definition stopped :: "pump_outcome \<Rightarrow> channel \<Rightarrow> bool" where
  "stopped q ch \<longleftrightarrow>
     (case q of
        Returned _ \<Rightarrow> True
      | AwaitsVerdict \<Rightarrow> announced ch = Suc (ch_taken ch) \<and> ends_in_tunnel ch
      | AwaitsRequest \<Rightarrow> False)"

lemma after_verdict_flow:
  assumes "after_verdict s ch = (res, s', ch')"
  shows "ch_verdicts ch' = ch_verdicts ch" "ch_sent ch' = ch_sent ch"
    "res = None \<Longrightarrow> s' = s \<and> ch_taken ch' = Suc (ch_taken ch)"
    "res = Some AwaitsVerdict \<Longrightarrow> s' = s \<and> ch' = ch \<and> length (ch_verdicts ch) \<le> ch_taken ch" "res \<noteq> Some AwaitsRequest"
  using assms
  by (auto simp: after_verdict_def await_verdict_def split: if_splits prod.splits verdict.splits)

lemma forward_request_flow:
  assumes f: "forward_request rs (take n (pm_carry s)) s ch = (res, s', ch')" and n: "4 \<le> n" "n \<le> length (pm_carry s)"
  shows "ch_verdicts ch' = ch_verdicts ch"
    "announced ch = ch_taken ch \<Longrightarrow> (case res of None \<Rightarrow> announced ch' = ch_taken ch' | Some q \<Rightarrow> stopped q ch')"
    "res = None \<or> res = Some AwaitsVerdict \<Longrightarrow> length (unread s') < length (unread s)"
proof -
  define m where "m = meta_of (take n (pm_carry s))"
  define ch1 where "ch1 = ch\<lparr>ch_sent := ch_sent ch @ [m]\<rparr>"
  have "(\<exists>q. res = Some (Returned q)) \<and> ch_verdicts ch' = ch_verdicts ch \<or>
      (\<exists>head body u s1 v s2. write_all head s = (Inr u, s1) \<and> copy_framed body (s1\<lparr>pm_carry := drop n (pm_carry s1)\<rparr>) = (Inr v, s2) \<and>
        (res, s', ch') = (if mt_verdict m then after_verdict s2 ch1 else (None, s2, ch1)))"
  proof (cases "\<exists>head body u s1. rewrite_request_head (take n (pm_carry s)) rs = Inr head \<and>
      request_body_of (take n (pm_carry s)) = Inr body \<and> ch_receiver ch \<and> write_all head s = (Inr u, s1)")
    case True
    then obtain head body u s1 where h: "rewrite_request_head (take n (pm_carry s)) rs = Inr head"
        "request_body_of (take n (pm_carry s)) = Inr body" "ch_receiver ch" "write_all head s = (Inr u, s1)" by blast
    obtain p s2 where c: "copy_framed body (s1\<lparr>pm_carry := drop n (pm_carry s1)\<rparr>) = (p, s2)" by fastforce
    show ?thesis
    proof (cases p)
      case (Inl e)
      then have "res = Some (Returned (Inl e)) \<and> ch_verdicts ch' = ch_verdicts ch"
        using f n h c by (auto simp: forward_request_def send_meta_def)
      then show ?thesis by blast
    next
      case (Inr v)
      then have "(res, s', ch') = (if mt_verdict m then after_verdict s2 ch1 else (None, s2, ch1))"
        using f n h c by (auto simp: forward_request_def send_meta_def m_def ch1_def)
      then show ?thesis using h(4) c Inr by blast
    qed
  next
    case False
    then have "(\<exists>q. res = Some (Returned q)) \<and> ch_verdicts ch' = ch_verdicts ch" using f
      by (auto simp: forward_request_def send_meta_def split: sum.splits prod.splits if_splits)
    then show ?thesis by blast
  qed
  then consider (ret) q where "res = Some (Returned q)" "ch_verdicts ch' = ch_verdicts ch"
    | (whole) head body u s1 v s2 where "write_all head s = (Inr u, s1)"
        "copy_framed body (s1\<lparr>pm_carry := drop n (pm_carry s1)\<rparr>) = (Inr v, s2)"
        "(res, s', ch') = (if mt_verdict m then after_verdict s2 ch1 else (None, s2, ch1))"
    by blast
  then have "ch_verdicts ch' = ch_verdicts ch \<and>
    (announced ch = ch_taken ch \<longrightarrow> (case res of None \<Rightarrow> announced ch' = ch_taken ch' | Some q \<Rightarrow> stopped q ch')) \<and>
    (res = None \<or> res = Some AwaitsVerdict \<longrightarrow> length (unread s') < length (unread s))"
  proof cases
    case ret
    then show ?thesis by (simp add: stopped_def)
  next
    case whole
    have "length (unread s2) \<le> length (unread (s1\<lparr>pm_carry := drop n (pm_carry s1)\<rparr>))"
      using copy_framed_copied [OF whole(2)] by (auto simp: copied_def)
    then have len: "length (unread s2) < length (unread s)" using write_all_spec(2,3) [OF whole(1)] n by (simp add: unread_def)
    show ?thesis
    proof (cases "mt_verdict m")
      case False
      then show ?thesis using whole(3) len by (simp add: ch1_def announced_def)
    next
      case True
      then have "after_verdict s2 ch1 = (res, s', ch')" using whole(3) by simp
      from after_verdict_flow [OF this] len True show ?thesis
        by (cases res) (auto simp: ch1_def announced_def stopped_def ends_in_tunnel_def split: pump_outcome.splits)
    qed
  qed
  then show "ch_verdicts ch' = ch_verdicts ch"
    "announced ch = ch_taken ch \<Longrightarrow> (case res of None \<Rightarrow> announced ch' = ch_taken ch' | Some q \<Rightarrow> stopped q ch')"
    "res = None \<or> res = Some AwaitsVerdict \<Longrightarrow> length (unread s') < length (unread s)"
    by simp_all
qed

lemma request_stream_flow:
  "\<exists>q s' ch'. rewrite_request_stream rs s ch = Some (q, s', ch') \<and> ch_verdicts ch' = ch_verdicts ch \<and>
     (announced ch = ch_taken ch \<longrightarrow> stopped q ch') \<and> (q = AwaitsVerdict \<longrightarrow> length (unread s') < length (unread s))"
proof (induction "length (unread s)" arbitrary: s ch rule: less_induct)
  case less
  obtain p r carry where b: "read_header_block (pm_reader s) (pm_carry s) = (p, r, carry)" by (metis prod_cases3)
  note spec = read_header_block_spec [OF b]
  define s0 where "s0 = s\<lparr>pm_reader := r, pm_carry := carry\<rparr>"
  have s0: "unread s0 = unread s" "pm_carry s0 = carry" using spec(1) by (simp_all add: s0_def unread_def)
  show ?case
  proof (cases "\<exists>n. p = Inr (Some n)")
    case False
    then show ?thesis using b
      by (subst rewrite_request_stream.simps) (auto simp: stopped_def split: sum.splits option.splits)
  next
    case True
    then obtain n where n: "p = Inr (Some n)" by blast
    obtain res s1 ch1 where f: "forward_request rs (take n carry) s0 ch = (res, s1, ch1)" by (metis prod_cases3)
    have flow: "forward_request rs (take n (pm_carry s0)) s0 ch = (res, s1, ch1)" "4 \<le> n" "n \<le> length (pm_carry s0)"
      using f spec(2) [OF n] s0 by simp_all
    note fl = forward_request_flow [OF flow]
    show ?thesis
    proof (cases res)
      case None
      obtain q s' ch' where "rewrite_request_stream rs s1 ch1 = Some (q, s', ch')" "ch_verdicts ch' = ch_verdicts ch1"
          "announced ch1 = ch_taken ch1 \<Longrightarrow> stopped q ch'" "q = AwaitsVerdict \<Longrightarrow> length (unread s') < length (unread s1)"
        using less.hyps [of s1 ch1] fl(3) None s0(1) by auto
      moreover have "rewrite_request_stream rs s ch = rewrite_request_stream rs s1 ch1"
        using b n f None by (subst rewrite_request_stream.simps) (simp add: s0_def)
      ultimately show ?thesis using fl None s0(1) by auto
    next
      case (Some q)
      then have "rewrite_request_stream rs s ch = Some (q, s1, ch1)"
        using b n f by (subst rewrite_request_stream.simps) (simp add: s0_def)
      then show ?thesis using fl Some s0(1) by auto
    qed
  qed
qed

lemma resume_request_flow:
  assumes "ch_taken ch < length (ch_verdicts ch)"
  shows "\<exists>q s' ch'. resume_request_stream rs s ch = Some (q, s', ch') \<and> ch_verdicts ch' = ch_verdicts ch \<and>
     (announced ch = Suc (ch_taken ch) \<longrightarrow> stopped q ch') \<and> (q = AwaitsVerdict \<longrightarrow> length (unread s') < length (unread s))"
proof -
  obtain res s1 ch1 where a: "after_verdict s ch = (res, s1, ch1)" by (metis prod_cases3)
  note av = after_verdict_flow [OF a]
  show ?thesis
  proof (cases res)
    case None
    then show ?thesis using request_stream_flow [of rs s1 ch1] av a by (auto simp: resume_request_stream_def announced_def)
  next
    case (Some q)
    then have "stopped q ch1 \<and> q \<noteq> AwaitsVerdict" using av(4,5) assms by (cases q) (auto simp: stopped_def)
    then show ?thesis using a Some av(1) by (auto simp: resume_request_stream_def)
  qed
qed

text \<open>The response pump keeps the balance and reads the requests in order.\<close>

definition answered :: "channel \<Rightarrow> channel \<Rightarrow> bool" where
  "answered ch ch' \<longleftrightarrow> announced ch' = announced ch \<and> ch_taken ch' = ch_taken ch \<and> ch_sender ch' = ch_sender ch \<and>
     (ends_in_tunnel ch \<longrightarrow> ends_in_tunnel ch') \<and> set (ch_verdicts ch) \<subseteq> set (ch_verdicts ch')"

lemma answered_refl: "answered ch ch"
  by (simp add: answered_def)

lemma answered_trans: "answered a b \<Longrightarrow> answered b c \<Longrightarrow> answered a c"
  by (auto simp: answered_def)

lemma recv_meta_answered:
  "recv_meta ch = (Some (Some m), ch1) \<Longrightarrow> answered ch (send_verdict m e ch1)"
  by (auto simp: recv_meta_def send_verdict_def answered_def announced_def ends_in_tunnel_def split: list.splits if_splits)

lemma answer_request_shorter:
  assumes "answer_request (take n (pm_carry s)) status m s = (None, s')" "4 \<le> n" "n \<le> length (pm_carry s)"
  shows "length (unread s') < length (unread s)"
proof -
  obtain head u s1 where w: "write_all head s = (Inr u, s1)"
    and alt: "s' = drained n s1 \<or> (\<exists>k v. copy_body k (drained n s1) = (v, s')) \<or> (\<exists>v. copy_chunked_body (drained n s1) = (v, s'))"
    using assms(1,3)
    by (auto simp: answer_request_def Let_def split: if_splits prod.splits sum.splits response_body.splits)
  have "length (unread s') \<le> length (unread (drained n s1))"
    using alt copy_body_unread copy_chunked_body_copied unfolding copied_def by fastforce
  then show ?thesis using write_all_spec(2,3) [OF w] assms(2,3) by (simp add: unread_def drained_def)
qed

definition response_stopped :: "pump_outcome \<Rightarrow> channel \<Rightarrow> bool" where
  "response_stopped q ch \<longleftrightarrow>
     (case q of Returned _ \<Rightarrow> True | AwaitsRequest \<Rightarrow> ch_sender ch \<and> ch_sent ch = [] | AwaitsVerdict \<Rightarrow> False)"

lemma response_stream_flow:
  "\<exists>q s' ch'. forward_response_stream s ch = Some (q, s', ch') \<and> answered ch ch' \<and> response_stopped q ch'"
proof (induction "length (unread s)" arbitrary: s ch rule: less_induct)
  case less
  obtain p r carry where b: "read_header_block (pm_reader s) (pm_carry s) = (p, r, carry)" by (metis prod_cases3)
  note spec = read_header_block_spec [OF b]
  define s0 where "s0 = s\<lparr>pm_reader := r, pm_carry := carry\<rparr>"
  have s0: "unread s0 = unread s" "pm_carry s0 = carry" using spec(1) by (simp_all add: s0_def unread_def)
  show ?case
  proof (cases "\<exists>n status. p = Inr (Some n) \<and> parse_status (take n carry) = Some status")
    case False
    then show ?thesis using b
      by (subst forward_response_stream.simps)
         (auto simp: Let_def answered_refl response_stopped_def split: sum.splits option.splits)
  next
    case True
    then obtain n status where n: "p = Inr (Some n)" "parse_status (take n carry) = Some status" by blast
    have nl: "4 \<le> n" "n \<le> length (pm_carry s0)" using spec(2) [OF n(1)] s0(2) by simp_all
    show ?thesis
    proof (cases "100 \<le> status \<and> status < 200 \<and> status \<noteq> 101")
      case interim: True
      obtain q s1 where w: "write_all (take n carry) s0 = (q, s1)" by fastforce
      show ?thesis
      proof (cases q)
        case (Inr u)
        have "length (unread (drained n s1)) < length (unread s0)"
          using write_all_spec(2,3) [OF w] nl by (simp add: unread_def drained_def)
        then have "length (unread (drained n s1)) < length (unread s)" unfolding s0(1) .
        then show ?thesis using less.hyps [of "drained n s1" ch] b n interim w Inr
          by (subst forward_response_stream.simps) (simp add: s0_def [symmetric] Let_def)
      qed (use b n interim w in \<open>subst forward_response_stream.simps,
             simp add: s0_def [symmetric] Let_def answered_refl response_stopped_def\<close>)
    next
      case final: False
      show ?thesis
      proof (cases "ch_sent ch")
        case Nil
        then show ?thesis using b n final
          by (subst forward_response_stream.simps, cases "ch_sender ch")
             (auto simp: recv_meta_def answered_refl response_stopped_def Let_def)
      next
        case (Cons m ms)
        obtain ch1 where ch1: "recv_meta ch = (Some (Some m), ch1)" using Cons by (simp add: recv_meta_def)
        note an = recv_meta_answered [OF ch1, of "tunnel_established m status"]
        obtain res s1 where a: "answer_request (take n carry) status m s0 = (res, s1)" by fastforce
        have unfold: "forward_response_stream s ch =
            (case res of Some q \<Rightarrow> Some (Returned q, s1, send_verdict m (tunnel_established m status) ch1)
             | None \<Rightarrow> forward_response_stream s1 (send_verdict m (tunnel_established m status) ch1))"
          using b n final a ch1 by (subst forward_response_stream.simps) (auto simp: s0_def [symmetric] Let_def split: option.split)
        show ?thesis
        proof (cases res)
          case None
          then have "length (unread s1) < length (unread s)"
            using answer_request_shorter [of n s0 status m s1] a nl s0 by simp
          from less.hyps [OF this, of "send_verdict m (tunnel_established m status) ch1"] show ?thesis
            using an answered_trans unfolding unfold None by fastforce
        qed (use an in \<open>simp add: unfold response_stopped_def\<close>)
      qed
    qed
  qed
qed

lemma wake_response_flow:
  assumes "b \<noteq> AwaitsVerdict"
  shows "\<exists>q s' ch'. wake_response b s ch = Some (q, s', ch') \<and> answered ch ch' \<and> response_stopped q ch'"
  using assms response_stream_flow [of s ch] by (cases b) (auto simp: wake_response_def answered_refl response_stopped_def)

subsection \<open>Both pumps together\<close>

lemma resume_request_clean:
  assumes "resume_request_stream rs s ch = Some (q, s', ch')" "list_all good_rewrite rs" "whole_after rs pre (pm_out s)"
    "Accepted \<notin> set (ch_verdicts ch)"
  shows "clean_after rs pre (pm_out s') \<and> (q = AwaitsVerdict \<longrightarrow> whole_after rs pre (pm_out s'))"
proof -
  obtain res s1 ch1 where a: "after_verdict s ch = (res, s1, ch1)" by (metis prod_cases3)
  have s1: "s1 = s" "ch_verdicts ch1 = ch_verdicts ch" using after_verdict_spec [OF a assms(4)] by simp_all
  show ?thesis
  proof (cases res)
    case None
    then have "rewrite_request_stream rs s ch1 = Some (q, s', ch')" using assms(1) a s1(1) by (simp add: resume_request_stream_def)
    from request_stream_clean [OF this assms(2,3)] show ?thesis using assms(4) s1(2) by simp
  next
    case (Some q')
    then show ?thesis using assms(1,3) a s1(1) whole_after_clean by (auto simp: resume_request_stream_def)
  qed
qed

text \<open>How the join ends: with a result, or waiting for the verdict on a tunnel request that was not answered.\<close>

definition join_end :: "pump_outcome \<Rightarrow> channel \<Rightarrow> bool" where
  "join_end q ch \<longleftrightarrow> (\<exists>r. q = Returned r) \<or> q = AwaitsVerdict \<and> ch_sent ch \<noteq> [] \<and> mt_verdict (last (ch_sent ch))"

lemma join_returned:
  assumes "b \<noteq> AwaitsVerdict"
  shows "\<exists>q u ch'. join_pumps rs (Returned a) client b upstream ch = Some (Returned q, client, u, ch') \<and>
    set (ch_verdicts ch) \<subseteq> set (ch_verdicts ch')"
proof -
  obtain b1 u ch' where w: "wake_response b upstream (ch\<lparr>ch_sender := False\<rparr>) = Some (b1, u, ch')"
      "answered (ch\<lparr>ch_sender := False\<rparr>) ch'" "response_stopped b1 ch'"
    using wake_response_flow [OF assms] by blast
  then obtain r where "b1 = Returned r" by (cases b1) (auto simp: answered_def response_stopped_def)
  then show ?thesis using w by (subst join_pumps.simps) (simp add: both_results_def answered_def)
qed

lemma join_pumps_spec:
  assumes "stopped a ch" "b \<noteq> AwaitsVerdict"
  shows "\<exists>q client' u ch'. join_pumps rs a client b upstream ch = Some (q, client', u, ch') \<and> join_end q ch' \<and>
    set (ch_verdicts ch) \<subseteq> set (ch_verdicts ch') \<and>
    (list_all good_rewrite rs \<and> clean_after rs pre (pm_out client) \<and> (a = AwaitsVerdict \<longrightarrow> whole_after rs pre (pm_out client)) \<and>
     Accepted \<notin> set (ch_verdicts ch') \<longrightarrow> clean_after rs pre (pm_out client'))"
  using assms
proof (induction "length (unread client)" arbitrary: a client b upstream ch rule: less_induct)
  case less
  show ?case
  proof (cases a)
    case (Returned r)
    then show ?thesis using join_returned [OF less.prems(2), of rs r client upstream ch] by (auto simp: join_end_def)
  next
    case AwaitsRequest
    then show ?thesis using less.prems(1) by (simp add: stopped_def)
  next
    case AwaitsVerdict
    then have bal: "announced ch = Suc (ch_taken ch)" "ends_in_tunnel ch" using less.prems(1) by (simp_all add: stopped_def)
    obtain b1 u ch1 where w: "wake_response b upstream ch = Some (b1, u, ch1)" "answered ch ch1" "response_stopped b1 ch1"
      using wake_response_flow [OF less.prems(2)] by blast
    have b1: "b1 \<noteq> AwaitsVerdict" using w(3) by (auto simp: response_stopped_def)
    have bal1: "announced ch1 = Suc (ch_taken ch1)" "ends_in_tunnel ch1" "set (ch_verdicts ch) \<subseteq> set (ch_verdicts ch1)"
      using w(2) bal by (simp_all add: answered_def)
    show ?thesis
    proof (cases "ch_taken ch1 < length (ch_verdicts ch1)")
      case False
      then have "join_pumps rs a client b upstream ch = Some (AwaitsVerdict, client, u, ch1)"
        using w(1) AwaitsVerdict by (subst join_pumps.simps) simp
      moreover have "ch_sent ch1 \<noteq> []" using False bal1(1) by (auto simp: announced_def)
      ultimately show ?thesis using bal1(2,3) by (auto simp: join_end_def ends_in_tunnel_def)
    next
      case True
      obtain a1 c1 ch2 where r: "resume_request_stream rs client ch1 = Some (a1, c1, ch2)" "ch_verdicts ch2 = ch_verdicts ch1"
          "stopped a1 ch2" "a1 = AwaitsVerdict \<Longrightarrow> length (unread c1) < length (unread client)"
        using resume_request_flow [OF True, of rs client] bal1(1) by blast
      have eq: "join_pumps rs a client b upstream ch = join_pumps rs a1 c1 b1 u ch2"
        using w(1) AwaitsVerdict True r(1) by (subst join_pumps.simps) simp
      have "\<exists>q client' u' ch'. join_pumps rs a1 c1 b1 u ch2 = Some (q, client', u', ch') \<and> join_end q ch' \<and>
          set (ch_verdicts ch2) \<subseteq> set (ch_verdicts ch') \<and>
          (list_all good_rewrite rs \<and> clean_after rs pre (pm_out c1) \<and> (a1 = AwaitsVerdict \<longrightarrow> whole_after rs pre (pm_out c1)) \<and>
           Accepted \<notin> set (ch_verdicts ch') \<longrightarrow> clean_after rs pre (pm_out client'))"
      proof (cases a1)
        case (Returned q)
        then show ?thesis using join_returned [OF b1, of rs q c1 u ch2] by (auto simp: join_end_def)
      next
        case aw: AwaitsVerdict
        then show ?thesis using less.hyps [OF r(4) r(3) b1] by simp
      qed (use r(3) in \<open>simp add: stopped_def\<close>)
      then obtain q client' u' ch' where j: "join_pumps rs a1 c1 b1 u ch2 = Some (q, client', u', ch')" "join_end q ch'"
          "set (ch_verdicts ch2) \<subseteq> set (ch_verdicts ch')"
          "list_all good_rewrite rs \<and> clean_after rs pre (pm_out c1) \<and> (a1 = AwaitsVerdict \<longrightarrow> whole_after rs pre (pm_out c1)) \<and>
           Accepted \<notin> set (ch_verdicts ch') \<Longrightarrow> clean_after rs pre (pm_out client')"
        by blast
      have "clean_after rs pre (pm_out client')"
        if "list_all good_rewrite rs" "whole_after rs pre (pm_out client)" "Accepted \<notin> set (ch_verdicts ch')"
      proof -
        have "Accepted \<notin> set (ch_verdicts ch1)" using that(3) j(3) r(2) by auto
        from resume_request_clean [OF r(1) that(1,2) this] show ?thesis using j(4) that by simp
      qed
      then show ?thesis unfolding eq using j(1-3) bal1(3) r(2) AwaitsVerdict by auto
    qed
  qed
qed

lemma proxy_http1_spec:
  "\<exists>q client' u ch'. proxy_http1_rewriting rs client upstream = Some (q, client', u, ch') \<and> join_end q ch' \<and>
    (list_all good_rewrite rs \<and> Accepted \<notin> set (ch_verdicts ch') \<longrightarrow> clean_after rs (pm_out client) (pm_out client'))"
proof -
  obtain a c1 ch where r: "rewrite_request_stream rs client channel_new = Some (a, c1, ch)" "ch_verdicts ch = []" "stopped a ch"
    using request_stream_flow [of rs client channel_new] by (auto simp: channel_new_def announced_def)
  have "whole_after rs (pm_out client) (pm_out client)" using whole_Nil by (simp add: whole_after_def)
  then have "list_all good_rewrite rs \<Longrightarrow> clean_after rs (pm_out client) (pm_out c1) \<and>
      (a = AwaitsVerdict \<longrightarrow> whole_after rs (pm_out client) (pm_out c1))"
    using request_stream_clean [OF r(1)] by (simp add: channel_new_def)
  then show ?thesis
    using join_pumps_spec [OF r(3), of AwaitsRequest rs c1 upstream "pm_out client"] r(1) by (auto simp: proxy_http1_rewriting_def)
qed


text \<open>C22. No client can smuggle a header that the proxy owns: in every request an upstream reads from the
  forwarded bytes, the owned headers are exactly the ones the proxy states, however the client fragments, pipelines
  or malforms its requests, and whatever the upstream answers as long as it accepted no tunnel.\<close>

theorem no_smuggled_header:
  assumes "list_all good_rewrite rewrites" "pm_out client = []"
    and "proxy_http1_rewriting rewrites client upstream = Some (q, client', upstream', ch)" "Accepted \<notin> set (ch_verdicts ch)"
  shows "\<forall>h \<in> set (upstream_heads (pm_out client')). clean_head rewrites h"
  using proxy_http1_spec [of "rewrites" client upstream] assms by (auto simp: clean_after_def)

definition spoofing_client :: pump where
  "spoofing_client = \<lparr>pm_reader = \<lparr>rd_pending = str ''GET / HTTP/1.1'' @ crlf @ str ''x-ja3: fake'' @ crlf @ crlf,
     rd_cuts = [16, 3], rd_fails = False\<rparr>, pm_carry = [], pm_out = [], pm_room = None\<rparr>"

definition silent_upstream :: pump where
  "silent_upstream = \<lparr>pm_reader = \<lparr>rd_pending = [], rd_cuts = [], rd_fails = False\<rparr>, pm_carry = [], pm_out = [], pm_room = None\<rparr>"

definition state_ja3 :: "header_rewrite list" where
  "state_ja3 = [\<lparr>hr_name = str ''X-JA3'', hr_value = Some (str ''e7d7'')\<rparr>]"

definition spoofed_head :: bytes where
  "spoofed_head = str ''GET / HTTP/1.1'' @ crlf @ str ''X-JA3: e7d7'' @ crlf @ crlf"

lemma spoofing_run:
  "map_option (\<lambda>(q, c, _, ch). (q, pm_out c, ch_verdicts ch)) (proxy_http1_rewriting state_ja3 spoofing_client silent_upstream) =
     Some (Returned (Inr ()), spoofed_head, [])"
  by code_simp

theorem no_smuggled_header_witness:
  "upstream_heads spoofed_head = [spoofed_head] \<and> clean_head state_ja3 spoofed_head"
proof -
  obtain q c u ch where r: "proxy_http1_rewriting state_ja3 spoofing_client silent_upstream = Some (q, c, u, ch)"
      "pm_out c = spoofed_head" "ch_verdicts ch = []"
    using spoofing_run by auto
  have h: "upstream_heads spoofed_head = [spoofed_head]" by code_simp
  have "list_all good_rewrite state_ja3" by code_simp
  from no_smuggled_header [OF this _ r(1)] show ?thesis using h r(2,3) by (simp add: spoofing_client_def)
qed

subsection \<open>Delivery\<close>

lemma read_some_live:
  assumes "rd_pending r \<noteq> []" "0 < k"
  shows "\<exists>bs r'. read_some k r = (Inr bs, r') \<and> bs \<noteq> [] \<and> length bs \<le> k \<and> rd_fails r' = rd_fails r"
  using assms by (auto simp: read_some_def Let_def split: list.splits)

lemma block_found: "is_block block \<Longrightarrow> xs @ ys = block @ zs \<Longrightarrow> find_sub crlf2 xs = Some i \<Longrightarrow> i = length block - 4"
  by (metis find_block find_sub_append option.inject)

lemma block_unfinished:
  assumes "is_block block" "xs @ ys = block @ zs" "find_sub crlf2 xs = None"
  shows "length xs < length block"
proof (rule ccontr)
  assume "\<not> length xs < length block"
  then obtain us where "xs = block @ us" using assms(2) by (auto simp: append_eq_append_conv2)
  then show False using find_block [OF assms(1), of us] assms(3) by simp
qed

lemma read_header_loop_live:
  assumes "is_block block" "length block \<le> MAX_HEADER_SIZE" "carry @ rd_pending r = block @ rest"
    and "\<forall>j < scanned. take 4 (drop j carry) \<noteq> crlf2"
  shows "\<exists>r' carry'. read_header_loop scanned r carry = (Inr (Some (length block)), r', carry') \<and> rd_fails r' = rd_fails r"
  using assms(3,4)
proof (induction scanned r carry rule: read_header_loop.induct)
  case (1 scanned r carry)
  have fd: "find_sub crlf2 carry = map_option ((+) scanned) (find_sub crlf2 (drop scanned carry))"
    using "1.prems"(2) by (intro find_sub_drop) simp
  show ?case
  proof (cases "find_sub crlf2 (drop scanned carry)")
    case (Some rel)
    then have "scanned + rel = length block - 4" using block_found [OF assms(1) "1.prems"(1)] fd by simp
    moreover have "4 \<le> length block" using assms(1) by (simp add: is_block_def)
    ultimately show ?thesis using Some by (subst read_header_loop.simps) simp
  next
    case None
    then have nf: "find_sub crlf2 carry = None" using fd by simp
    have lt: "length carry < length block" using block_unfinished [OF assms(1) "1.prems"(1) nf] .
    then have ncap: "\<not> MAX_HEADER_SIZE < length carry" using assms(2) by simp
    have "rd_pending r \<noteq> []"
    proof
      assume "rd_pending r = []"
      then have "length carry = length block + length rest" using "1.prems"(1) by (metis append_Nil2 length_append)
      then show False using lt by simp
    qed
    then obtain bs r1 where rs: "read_some 4096 r = (Inr bs, r1)" "bs \<noteq> []" "rd_fails r1 = rd_fails r"
      using read_some_live [of r 4096] by auto
    have "(carry @ bs) @ rd_pending r1 = block @ rest" using "1.prems"(1) read_some_pending [OF rs(1)] by simp
    moreover have "\<forall>j < length carry - 3. take 4 (drop j (carry @ bs)) \<noteq> crlf2"
      using no_match_append [OF nf, of _ bs] by simp
    ultimately obtain r' carry' where "read_header_loop (length carry - 3) r1 (carry @ bs) = (Inr (Some (length block)), r', carry')"
        "rd_fails r' = rd_fails r1"
      using "1.IH" [OF None ncap rs(1) [symmetric] refl rs(2)] by blast
    then show ?thesis using None ncap rs by (subst read_header_loop.simps) simp
  qed
qed

lemma write_all_live: "pm_room s = None \<Longrightarrow> write_all bs s = (Inr (), s\<lparr>pm_out := pm_out s @ bs\<rparr>)"
  by (simp add: write_all_def)

lemma copy_exact_live:
  "n \<le> length (rd_pending (pm_reader s)) \<Longrightarrow> pm_room s = None \<Longrightarrow>
   \<exists>s'. copy_exact n s = (Inr (), s') \<and> pm_room s' = None \<and> rd_fails (pm_reader s') = rd_fails (pm_reader s)"
proof (induction n s rule: copy_exact.induct)
  case (1 n s)
  show ?case
  proof (cases "n = 0")
    case True
    then show ?thesis using "1.prems" by (subst copy_exact.simps) simp
  next
    case False
    then obtain bs r where rs: "read_some (min n 8192) (pm_reader s) = (Inr bs, r)" "bs \<noteq> []" "length bs \<le> min n 8192"
        "rd_fails r = rd_fails (pm_reader s)"
      using read_some_live [of "pm_reader s" "min n 8192"] "1.prems"(1) by (cases "rd_pending (pm_reader s)") auto
    define s1 where "s1 = s\<lparr>pm_reader := r, pm_out := pm_out s @ bs\<rparr>"
    have w: "write_all bs (s\<lparr>pm_reader := r\<rparr>) = (Inr (), s1)" using "1.prems"(2) by (simp add: write_all_live s1_def)
    have "n - length bs \<le> length (rd_pending (pm_reader s1))" "pm_room s1 = None"
      using "1.prems" read_some_pending [OF rs(1)] by (simp_all add: s1_def)
    from "1.IH" [OF False rs(1) [symmetric] refl rs(2) w [symmetric] refl this]
    obtain s' where "copy_exact (n - length bs) s1 = (Inr (), s')" "pm_room s' = None" "rd_fails (pm_reader s') = rd_fails (pm_reader s1)"
      by blast
    then show ?thesis using False rs w by (subst copy_exact.simps) (simp add: s1_def)
  qed
qed

lemma copy_body_live:
  assumes "n \<le> length (unread s)" "pm_room s = None"
  shows "\<exists>s'. copy_body n s = (Inr (), s') \<and> pm_room s' = None \<and> rd_fails (pm_reader s') = rd_fails (pm_reader s)"
proof -
  define b where "b = min (length (pm_carry s)) n"
  define s2 where "s2 = s\<lparr>pm_out := pm_out s @ take b (pm_carry s), pm_carry := drop b (pm_carry s)\<rparr>"
  have "copy_body n s = (if n - b > 0 then copy_exact (n - b) s2 else (Inr (), s2))"
    using assms(2) by (simp add: copy_body_def Let_def write_all_live s2_def flip: b_def)
  moreover have "n - b \<le> length (rd_pending (pm_reader s2))" "pm_room s2 = None"
    using assms by (auto simp: s2_def b_def unread_def)
  ultimately show ?thesis using copy_exact_live [of "n - b" s2] by (auto simp: s2_def)
qed

text \<open>A request within the limits that asks for no tunnel, with a body of the length it announces.\<close>

definition plain_request :: "header_rewrite list \<Rightarrow> bytes \<times> bytes \<Rightarrow> bool" where
  "plain_request rs msg \<longleftrightarrow>
     (case msg of (block, body) \<Rightarrow> is_block block \<and> length block \<le> MAX_HEADER_SIZE \<and> \<not> mt_verdict (meta_of block) \<and>
        (case rewrite_request_head block rs of Inr _ \<Rightarrow> True | Inl _ \<Rightarrow> False) \<and>
        (case request_body_of block of Inr NoBody \<Rightarrow> body = [] | Inr (Length n) \<Rightarrow> length body = unat n | _ \<Rightarrow> False))"

definition rewritten :: "header_rewrite list \<Rightarrow> bytes \<times> bytes \<Rightarrow> bytes" where
  "rewritten rs msg = (case msg of (block, body) \<Rightarrow> (case rewrite_request_head block rs of Inr h \<Rightarrow> h | Inl _ \<Rightarrow> []) @ body)"

lemma copy_framed_live:
  assumes "case body of NoBody \<Rightarrow> d = [] | Length n \<Rightarrow> length d = unat n | Chunked \<Rightarrow> False" "unread s = d @ rest" "pm_room s = None"
  shows "\<exists>s'. copy_framed body s = (Inr (), s') \<and> unread s' = rest \<and> pm_out s' = pm_out s @ d \<and> pm_room s' = None \<and>
    rd_fails (pm_reader s') = rd_fails (pm_reader s)"
proof (cases body)
  case (Length n)
  then obtain s' where c: "copy_body (unat n) s = (Inr (), s')" "pm_room s' = None" "rd_fails (pm_reader s') = rd_fails (pm_reader s)"
    using copy_body_live [of "unat n" s] assms by auto
  obtain m where m: "unread s = m @ unread s'" "length m = unat n" "pm_out s' = pm_out s @ m" using copy_body_spec [OF c(1)] by auto
  then have "m = d \<and> unread s' = rest" using assms(1,2) Length by auto
  then show ?thesis using c m Length by (auto simp: copy_framed_def)
qed (use assms in \<open>auto simp: copy_framed_def\<close>)

lemma forward_plain_request:
  assumes "plain_request rs (block, d)" "unread s = block @ d @ rest" "pm_room s = None" "ch_receiver ch"
    and "take (length block) (pm_carry s) = block"
  shows "\<exists>s' ch'. forward_request rs block s ch = (None, s', ch') \<and> unread s' = rest \<and>
    pm_out s' = pm_out s @ rewritten rs (block, d) \<and> pm_room s' = None \<and> rd_fails (pm_reader s') = rd_fails (pm_reader s) \<and>
    ch_receiver ch' \<and> ch_sent ch' = ch_sent ch @ [meta_of block]"
proof -
  obtain head where h: "rewrite_request_head block rs = Inr head" using assms(1) by (auto simp: plain_request_def split: sum.splits)
  obtain body where b: "request_body_of block = Inr body" "case body of NoBody \<Rightarrow> d = [] | Length n \<Rightarrow> length d = unat n | Chunked \<Rightarrow> False"
    using assms(1) by (auto simp: plain_request_def split: sum.splits request_body.splits)
  define s1 where "s1 = s\<lparr>pm_out := pm_out s @ head, pm_carry := drop (length block) (pm_carry s)\<rparr>"
  have "length block \<le> length (pm_carry s)" using arg_cong [OF assms(5), of length] by simp
  then have "unread s1 = drop (length block) (unread s)" by (simp add: s1_def unread_def)
  then have "unread s1 = d @ rest" using assms(2) by simp
  then obtain s' where "copy_framed body s1 = (Inr (), s')" "unread s' = rest" "pm_out s' = pm_out s1 @ d" "pm_room s' = None"
      "rd_fails (pm_reader s') = rd_fails (pm_reader s1)"
    using copy_framed_live [OF b(2), of s1 rest] assms(3) by (auto simp: s1_def)
  then show ?thesis
    using h b(1) assms(1,3,4) by (simp add: forward_request_def send_meta_def write_all_live s1_def rewritten_def plain_request_def)
qed

lemma request_stream_delivers:
  "list_all (plain_request rs) ms \<Longrightarrow> unread s = concat (map (\<lambda>(b, d). b @ d) ms) \<Longrightarrow> pm_room s = None \<Longrightarrow>
   \<not> rd_fails (pm_reader s) \<Longrightarrow> ch_receiver ch \<Longrightarrow>
   \<exists>s' ch'. rewrite_request_stream rs s ch = Some (Returned (Inr ()), s', ch') \<and>
     pm_out s' = pm_out s @ concat (map (rewritten rs) ms) \<and> ch_sent ch' = ch_sent ch @ map (meta_of \<circ> fst) ms"
proof (induction ms arbitrary: s ch)
  case Nil
  have "find_sub crlf2 [] = None" by simp
  then have "read_header_block (pm_reader s) (pm_carry s) = (Inr None, pm_reader s, [])"
    using Nil.prems unfolding read_header_block_def
    by (subst read_header_loop.simps) (simp add: unread_def read_some_def)
  then show ?case by (subst rewrite_request_stream.simps) simp
next
  case (Cons msg ms)
  obtain block d where msg: "msg = (block, d)" by fastforce
  define rest where "rest = concat (map (\<lambda>(b, d). b @ d) ms)"
  have p: "plain_request rs (block, d)" using Cons.prems(1) msg by simp
  have u: "pm_carry s @ rd_pending (pm_reader s) = block @ d @ rest" using Cons.prems(2) msg by (simp add: unread_def rest_def)
  obtain r carry where b: "read_header_block (pm_reader s) (pm_carry s) = (Inr (Some (length block)), r, carry)"
      "rd_fails r = rd_fails (pm_reader s)"
    using read_header_loop_live [of block "pm_carry s" "pm_reader s" "d @ rest" 0] p u
    by (auto simp: plain_request_def read_header_block_def)
  note spec = read_header_block_spec [OF b(1)]
  define s0 where "s0 = s\<lparr>pm_reader := r, pm_carry := carry\<rparr>"
  have u0: "unread s0 = block @ d @ rest" using spec(1) u by (simp add: s0_def unread_def)
  have tk: "take (length block) carry = block"
    using spec u by (metis append_eq_append_conv_if append_eq_conv_conj append_take_drop_id order_refl take_append)
  obtain s1 ch1 where f: "forward_request rs block s0 ch = (None, s1, ch1)" "unread s1 = rest"
      "pm_out s1 = pm_out s0 @ rewritten rs (block, d)" "pm_room s1 = None" "rd_fails (pm_reader s1) = rd_fails (pm_reader s0)"
      "ch_receiver ch1" "ch_sent ch1 = ch_sent ch @ [meta_of block]"
    using forward_plain_request [OF p u0, of ch] Cons.prems(3,5) tk by (auto simp: s0_def)
  obtain s' ch' where "rewrite_request_stream rs s1 ch1 = Some (Returned (Inr ()), s', ch')"
      "pm_out s' = pm_out s1 @ concat (map (rewritten rs) ms)" "ch_sent ch' = ch_sent ch1 @ map (meta_of \<circ> fst) ms"
    using Cons.IH [of s1 ch1] Cons.prems(1,4) f b(2) by (auto simp: rest_def s0_def)
  then show ?case
    using b(1) f tk by (subst rewrite_request_stream.simps) (simp add: s0_def msg)
qed

text \<open>C23. Pipelined requests are delivered whole: whatever way the network cuts them into reads, the upstream
  receives each request's rewritten head followed by exactly its body, in order, and each is announced to the
  response pump.\<close>

theorem requests_delivered:
  assumes "list_all (plain_request rs) ms" "rd_pending r = concat (map (\<lambda>(b, d). b @ d) ms)" "\<not> rd_fails r" "ch_receiver ch"
  shows "\<exists>s' ch'. rewrite_request_stream rs \<lparr>pm_reader = r, pm_carry = [], pm_out = [], pm_room = None\<rparr> ch =
       Some (Returned (Inr ()), s', ch') \<and>
     pm_out s' = concat (map (rewritten rs) ms) \<and> ch_sent ch' = ch_sent ch @ map (meta_of \<circ> fst) ms"
  using request_stream_delivers [OF assms(1), of "\<lparr>pm_reader = r, pm_carry = [], pm_out = [], pm_room = None\<rparr>" ch]
    assms(2-4) by (simp add: unread_def)

definition posted :: "bytes \<times> bytes" where
  "posted = (str ''POST / HTTP/1.1'' @ crlf @ str ''Content-Length: 2'' @ crlf @ crlf, str ''hi'')"

theorem requests_delivered_witness:
  "\<exists>s' ch'. rewrite_request_stream state_ja3
       \<lparr>pm_reader = \<lparr>rd_pending = fst posted @ snd posted, rd_cuts = [2, 30], rd_fails = False\<rparr>, pm_carry = [], pm_out = [], pm_room = None\<rparr>
       channel_new = Some (Returned (Inr ()), s', ch') \<and>
     pm_out s' = rewritten state_ja3 posted \<and> length (ch_sent ch') = 1"
proof -
  have "list_all (plain_request state_ja3) [posted]" by code_simp
  from requests_delivered [OF this, of "\<lparr>rd_pending = fst posted @ snd posted, rd_cuts = [2, 30], rd_fails = False\<rparr>" channel_new]
  show ?thesis by (auto simp: case_prod_unfold channel_new_def)
qed

subsection \<open>Unanswered tunnels\<close>

text \<open>A tunnel request to an upstream that closes without an answer leaves the connection waiting for ever,
  whatever the client sends after it.\<close>

lemma unanswered_tunnel_hangs:
  assumes "is_block block" "length block \<le> MAX_HEADER_SIZE" "mt_verdict (meta_of block)"
    and "rewrite_request_head block rs = Inr head" "request_body_of block = Inr NoBody"
    and "rd_pending r = block @ rest" "rd_pending r' = []"
  shows "\<exists>client' upstream' ch. proxy_http1_rewriting rs \<lparr>pm_reader = r, pm_carry = [], pm_out = [], pm_room = None\<rparr>
      \<lparr>pm_reader = r', pm_carry = [], pm_out = [], pm_room = None\<rparr> = Some (AwaitsVerdict, client', upstream', ch)"
proof -
  obtain r1 carry where b: "read_header_block r [] = (Inr (Some (length block)), r1, carry)"
    using read_header_loop_live [of block "[]" r rest 0] assms(1,2,6) by (auto simp: read_header_block_def)
  note spec = read_header_block_spec [OF b]
  have "take (length block) carry = block"
    using spec(2) [OF refl] spec(1) assms(6) by (metis append_Nil append_eq_conv_conj le_antisym length_take min_def take_append take_take)
  then have c: "\<exists>s. rewrite_request_stream rs \<lparr>pm_reader = r, pm_carry = [], pm_out = [], pm_room = None\<rparr> channel_new =
      Some (AwaitsVerdict, s, channel_new\<lparr>ch_sent := [meta_of block]\<rparr>)"
    using b assms(3-5) by (subst rewrite_request_stream.simps)
      (simp add: forward_request_def send_meta_def channel_new_def write_all_live copy_framed_def after_verdict_def await_verdict_def)
  have "\<exists>q s. forward_response_stream \<lparr>pm_reader = r', pm_carry = [], pm_out = [], pm_room = None\<rparr> ch = Some (Returned q, s, ch)" for ch
    using assms(7) by (subst forward_response_stream.simps)
      (simp add: read_header_block_def read_header_loop.simps [of 0 r'] read_some_def)
  then obtain q s where "forward_response_stream \<lparr>pm_reader = r', pm_carry = [], pm_out = [], pm_room = None\<rparr>
      (channel_new\<lparr>ch_sent := [meta_of block]\<rparr>) = Some (Returned q, s, channel_new\<lparr>ch_sent := [meta_of block]\<rparr>)" by blast
  then show ?thesis using c
    by (auto simp: proxy_http1_rewriting_def join_pumps.simps [of rs AwaitsVerdict] wake_response_def channel_new_def)
qed

subsection \<open>Bare line feeds\<close>

text \<open>Only \<open>\r\n\<close> ends a line here: a line feed alone stays inside the line and is passed on, so a header
  after it is neither refused nor stripped.\<close>

lemma bare_line_feed_passes:
  "rewrite_request_head (str ''GET / HTTP/1.1'' @ crlf @ str ''A: b'' @ [0x0A] @ str ''X-JA3: fake'' @ crlf @ crlf) state_ja3 =
   Inr (str ''GET / HTTP/1.1'' @ crlf @ str ''X-JA3: e7d7'' @ crlf @ str ''A: b'' @ [0x0A] @ str ''X-JA3: fake'' @ crlf @ crlf)"
  by code_simp

end
