(* ===== verification/Suspended.thy ===== *)
theory Suspended
  imports Router
begin

text \<open>
  Suspended connections (\<open>suspended.rs\<close>): the registry in which a connection waits for JavaScript to
  name its route, and the building of that route. A oneshot channel is a cell of the registry, known to
  the waiting connection and, while the entry is pending, to the registry.
\<close>

section \<open>Definitions\<close>

record resolved_route =
  rr_destination :: destination
  rr_tls_config :: "nat option"
  rr_terminate_tls :: bool
  rr_source_address_mode :: source_address_mode
  rr_forward_fingerprint :: forward_fingerprint
  rr_protocol :: route_protocol
  rr_allowed_sources :: "source_allowlist option"

subsection \<open>The registry\<close>

datatype oneshot = Waiting | Sent "resolved_route option" | SenderDropped

record suspended_registry =
  pending :: "(u64 \<times> nat) list"
  counter :: u64
  channels :: "oneshot list"

definition registry_new :: suspended_registry where
  "registry_new = \<lparr>pending = [], counter = 1, channels = []\<rparr>"

text \<open>Dropping a sender that never sent closes its channel.\<close>

definition drop_sender :: "nat \<Rightarrow> suspended_registry \<Rightarrow> suspended_registry" where
  "drop_sender ch r =
     r\<lparr>channels := (channels r)[ch := (if channels r ! ch = Waiting then SenderDropped else channels r ! ch)]\<rparr>"

text \<open>\<open>DashMap::remove\<close>, with the sender it hands back.\<close>

definition take_pending :: "u64 \<Rightarrow> suspended_registry \<Rightarrow> nat option \<times> suspended_registry" where
  "take_pending i r = (map_of (pending r) i, r\<lparr>pending := filter (\<lambda>(k, _). k \<noteq> i) (pending r)\<rparr>)"

definition remove_pending :: "u64 \<Rightarrow> suspended_registry \<Rightarrow> suspended_registry" where
  "remove_pending i r =
     (case take_pending i r of (Some ch, r1) \<Rightarrow> drop_sender ch r1 | (None, r1) \<Rightarrow> r1)"

text \<open>\<open>register\<close>: the insertion drops the sender of an entry it replaces, which takes \<open>2\<^sup>6\<^sup>4\<close> registrations.\<close>

definition register :: "suspended_registry \<Rightarrow> (u64 \<times> nat) \<times> suspended_registry" where
  "register r =
     (let i = counter r; ch = length (channels r);
          r1 = remove_pending i (r\<lparr>counter := counter r + 1\<rparr>)
      in ((i, ch), r1\<lparr>channels := channels r1 @ [Waiting], pending := (i, ch) # pending r1\<rparr>))"

definition resolve_pending :: "u64 \<Rightarrow> resolved_route option \<Rightarrow> suspended_registry \<Rightarrow> suspended_registry" where
  "resolve_pending i resolved r =
     (case take_pending i r of
        (Some ch, r1) \<Rightarrow> r1\<lparr>channels := (channels r1)[ch := Sent resolved]\<rparr>
      | (None, r1) \<Rightarrow> r1)"

definition registry_contains :: "u64 \<Rightarrow> suspended_registry \<Rightarrow> bool" where
  "registry_contains i r \<longleftrightarrow> map_of (pending r) i \<noteq> None"

subsection \<open>Building the route\<close>

datatype resolve_upstream = ResolveTcp socket_addr | ResolveUds "bytes list" bool u64

record resolve_spec =
  rv_upstream :: resolve_upstream
  rv_terminate_tls :: bool
  rv_cert_pem :: "bytes option"
  rv_key_pem :: "bytes option"
  rv_mtls_ca_pem :: "bytes option"
  rv_require_client_cert :: bool
  rv_source_address_mode :: source_address_mode
  rv_forward_fingerprint :: forward_fingerprint
  rv_http2 :: bool
  rv_protocol :: route_protocol
  rv_allowed_sources :: "source_allowlist option"

definition resolved_tls ::
    "build_env \<Rightarrow> (nat \<Rightarrow> bool) \<Rightarrow> resolve_spec \<Rightarrow> tls_state \<Rightarrow> (route_error + nat option) \<times> tls_state" where
  "resolved_tls env held spec ts =
     (if rv_terminate_tls spec then
        (case rv_cert_pem spec of
           None \<Rightarrow> (Inl NoCert, ts)
         | Some cert \<Rightarrow>
             (case rv_key_pem spec of
                None \<Rightarrow> (Inl NoKey, ts)
              | Some key \<Rightarrow>
                  (case get_or_build_unmarked (be_lib env) (be_sha256 env) held
                       \<lparr>cert_chain_pem = cert, private_key_pem = key\<rparr>
                       (map_option (\<lambda>ca. \<lparr>client_ca_pem = ca, require_client_cert = rv_require_client_cert spec\<rparr>)
                         (rv_mtls_ca_pem spec))
                       (rv_http2 spec) ts of
                     (Inl e, ts1) \<Rightarrow> (Inl (TlsFailed e), ts1)
                   | (Inr cfg, ts1) \<Rightarrow> (Inr (Some cfg), ts1))))
      else (Inr None, ts))"

definition resolved_destination :: "bool \<Rightarrow> resolve_upstream \<Rightarrow> store \<Rightarrow> destination \<times> store" where
  "resolved_destination linux up st =
     (case up of
        ResolveTcp addr \<Rightarrow> (Tcp addr, st)
      | ResolveUds paths ip_affinity ttl_ms \<Rightarrow>
          let (b, st1) = uds_balancer_new linux (map (\<lambda>p. \<lparr>spec_path = p, spec_pid = None, spec_tid = None\<rparr>) paths)
                ip_affinity ttl_ms st;
              (i, st2) = add_balancer b st1
          in (UdsSet i, st2))"

definition build_resolved_route ::
    "build_env \<Rightarrow> (nat \<Rightarrow> bool) \<Rightarrow> resolve_spec \<Rightarrow> tls_state \<Rightarrow> store \<Rightarrow>
     (route_error + resolved_route) \<times> tls_state \<times> store" where
  "build_resolved_route env held spec ts st =
     (case resolved_tls env held spec ts of
        (Inl e, ts1) \<Rightarrow> (Inl e, ts1, st)
      | (Inr tls, ts1) \<Rightarrow>
          let (dest, st1) = resolved_destination (be_linux env) (rv_upstream spec) st
          in (Inr \<lparr>rr_destination = dest, rr_tls_config = tls, rr_terminate_tls = rv_terminate_tls spec,
                   rr_source_address_mode = rv_source_address_mode spec,
                   rr_forward_fingerprint = rv_forward_fingerprint spec,
                   rr_protocol = rv_protocol spec, rr_allowed_sources = rv_allowed_sources spec\<rparr>, ts1, st1))"

section \<open>Lemmas\<close>

text \<open>The channels of pending entries exist, are distinct and nothing was sent on them.\<close>

definition wf_registry :: "suspended_registry \<Rightarrow> bool" where
  "wf_registry r \<longleftrightarrow> distinct (map fst (pending r)) \<and> distinct (map snd (pending r)) \<and>
     (\<forall>(_, ch) \<in> set (pending r). ch < length (channels r) \<and> channels r ! ch = Waiting)"

lemma wf_registry_new [simp]: "wf_registry registry_new"
  by (simp add: wf_registry_def registry_new_def)

lemma take_pending_cases:
  assumes "wf_registry r" "take_pending i r = (m, r')"
  shows "wf_registry r' \<and> channels r' = channels r \<and> counter r' = counter r \<and> map_of (pending r') i = None \<and>
    m = map_of (pending r) i \<and> set (pending r') = {e \<in> set (pending r). fst e \<noteq> i} \<and>
    (\<forall>ch. m = Some ch \<longrightarrow> ch < length (channels r) \<and> channels r ! ch = Waiting \<and> ch \<notin> snd ` set (pending r'))"
proof -
  have r': "r' = r\<lparr>pending := filter (\<lambda>(k, _). k \<noteq> i) (pending r)\<rparr>" and m: "m = map_of (pending r) i"
    using assms(2) by (auto simp: take_pending_def)
  have wf: "distinct (map fst (pending r))" "distinct (map snd (pending r))"
      "\<And>k ch. (k, ch) \<in> set (pending r) \<Longrightarrow> ch < length (channels r) \<and> channels r ! ch = Waiting"
    using assms(1) by (auto simp: wf_registry_def)
  have "wf_registry r'" using wf by (auto simp: wf_registry_def r' distinct_map_filter)
  moreover have "map_of (pending r') i = None" by (auto simp: r' map_of_eq_None_iff)
  moreover have "ch < length (channels r) \<and> channels r ! ch = Waiting \<and> ch \<notin> snd ` set (pending r')" if "m = Some ch" for ch
  proof -
    have "(i, ch) \<in> set (pending r)" using that m by (simp add: map_of_SomeD)
    moreover have "ch \<notin> snd ` set (pending r')"
    proof
      assume "ch \<in> snd ` set (pending r')"
      then obtain k where "(k, ch) \<in> set (pending r)" "k \<noteq> i" by (auto simp: r')
      then show False using \<open>(i, ch) \<in> set (pending r)\<close> wf(2) inj_onD [of snd "set (pending r)" "(k, ch)" "(i, ch)"]
        by (simp add: distinct_map)
    qed
    ultimately show ?thesis using wf(3) by blast
  qed
  ultimately show ?thesis by (auto simp: r' m)
qed

lemma update_channel_wf:
  assumes "wf_registry r" "ch \<notin> snd ` set (pending r)" "channels r = cs"
  shows "wf_registry (r\<lparr>channels := cs[ch := v]\<rparr>)"
proof -
  have "c < length cs \<and> cs[ch := v] ! c = Waiting" if "(k, c) \<in> set (pending r)" for k c
  proof -
    have "c \<noteq> ch" using assms(2) that by force
    then show ?thesis using assms(1,3) that by (auto simp: wf_registry_def)
  qed
  then show ?thesis using assms(1,3) by (auto simp: wf_registry_def)
qed

lemma remove_pending_wf:
  assumes "wf_registry r"
  shows "wf_registry (remove_pending i r)" "length (channels (remove_pending i r)) = length (channels r)"
    "counter (remove_pending i r) = counter r" "map_of (pending (remove_pending i r)) i = None"
    "set (pending (remove_pending i r)) = {e \<in> set (pending r). fst e \<noteq> i}"
    "\<And>ch. map_of (pending r) i \<noteq> Some ch \<Longrightarrow> channels (remove_pending i r) ! ch = channels r ! ch"
proof -
  obtain m r1 where t: "take_pending i r = (m, r1)" by fastforce
  note c = take_pending_cases [OF assms t]
  have "remove_pending i r = (case m of Some ch \<Rightarrow> drop_sender ch r1 | None \<Rightarrow> r1)" by (simp add: remove_pending_def t)
  then show "wf_registry (remove_pending i r)" "length (channels (remove_pending i r)) = length (channels r)"
    "counter (remove_pending i r) = counter r" "map_of (pending (remove_pending i r)) i = None"
    "set (pending (remove_pending i r)) = {e \<in> set (pending r). fst e \<noteq> i}"
    "\<And>ch. map_of (pending r) i \<noteq> Some ch \<Longrightarrow> channels (remove_pending i r) ! ch = channels r ! ch"
    using c by (auto simp: drop_sender_def update_channel_wf nth_list_update split: option.splits)
qed

lemma register_wf:
  assumes "wf_registry r" "register r = ((i, ch), r')"
  shows "wf_registry r'" "i = counter r" "ch = length (channels r)" "length (channels r') = Suc (length (channels r))"
    "channels r' ! ch = Waiting" "map_of (pending r') i = Some ch" "counter r' = counter r + 1"
    "\<And>c. c < length (channels r) \<Longrightarrow> map_of (pending r) i \<noteq> Some c \<Longrightarrow> channels r' ! c = channels r ! c"
proof -
  define r1 where "r1 = remove_pending (counter r) (r\<lparr>counter := counter r + 1\<rparr>)"
  have wf0: "wf_registry (r\<lparr>counter := counter r + 1\<rparr>)" using assms(1) by (simp add: wf_registry_def)
  note rm = remove_pending_wf [OF wf0, of "counter r", folded r1_def]
  have r': "i = counter r" "ch = length (channels r)" "r' = r1\<lparr>channels := channels r1 @ [Waiting], pending := (i, ch) # pending r1\<rparr>"
    using assms(2) by (auto simp: register_def Let_def r1_def)
  have fresh: "ch \<notin> snd ` set (pending r1)" "i \<notin> fst ` set (pending r1)"
    using rm(1,2,4) r'(1,2) by (auto simp: wf_registry_def map_of_eq_None_iff)
  show "wf_registry r'" using rm(1,2) fresh r' by (auto simp: wf_registry_def nth_append)
  show "i = counter r" "ch = length (channels r)" "length (channels r') = Suc (length (channels r))"
    "channels r' ! ch = Waiting" "map_of (pending r') i = Some ch" "counter r' = counter r + 1"
    using r' rm by (auto simp: nth_append)
  show "channels r' ! c = channels r ! c" if "c < length (channels r)" "map_of (pending r) i \<noteq> Some c" for c
    using r' rm(2) rm(6) [of c] that by (auto simp: nth_append)
qed

lemma resolve_pending_wf:
  assumes "wf_registry r"
  shows "wf_registry (resolve_pending i v r)" "length (channels (resolve_pending i v r)) = length (channels r)"
    "\<And>ch. map_of (pending r) i = Some ch \<Longrightarrow> channels (resolve_pending i v r) ! ch = Sent v"
    "\<And>ch. map_of (pending r) i \<noteq> Some ch \<Longrightarrow> channels (resolve_pending i v r) ! ch = channels r ! ch"
    "map_of (pending (resolve_pending i v r)) i = None"
proof -
  obtain m r1 where t: "take_pending i r = (m, r1)" by fastforce
  note c = take_pending_cases [OF assms t]
  show "wf_registry (resolve_pending i v r)" "length (channels (resolve_pending i v r)) = length (channels r)"
    "\<And>ch. map_of (pending r) i = Some ch \<Longrightarrow> channels (resolve_pending i v r) ! ch = Sent v"
    "\<And>ch. map_of (pending r) i \<noteq> Some ch \<Longrightarrow> channels (resolve_pending i v r) ! ch = channels r ! ch"
    "map_of (pending (resolve_pending i v r)) i = None"
    using c by (auto simp: resolve_pending_def t update_channel_wf nth_list_update split: option.splits)
qed

end
