(* ===== verification/Liveness.thy ===== *)
theory Liveness
  imports Metrics
begin

text \<open>
  Dead-peer detection (\<open>liveness.rs\<close>): the watch on a half-closed connection, the streams that report to
  it, and the timer that ends the connection. Times are nanoseconds. The keepalive options themselves are
  set on the socket by the operating system.
\<close>

section \<open>Definitions\<close>

record keepalive_config =
  ka_idle :: nat
  ka_interval :: nat
  ka_retries :: u32

subsection \<open>The watch\<close>

record half_close_watch =
  armed :: bool
  last_activity_ns :: nat
  permit :: bool

definition half_close_watch_new :: half_close_watch where
  "half_close_watch_new = \<lparr>armed = False, last_activity_ns = 0, permit = False\<rparr>"

definition arm :: "nat \<Rightarrow> half_close_watch \<times> listener_metrics \<Rightarrow> half_close_watch \<times> listener_metrics" where
  "arm now = (\<lambda>(w, m).
     if armed w then (w\<lparr>last_activity_ns := now\<rparr>, m)
     else (w\<lparr>last_activity_ns := now, armed := True, permit := True\<rparr>, lm_inc_half_closed m))"

definition record_activity :: "nat \<Rightarrow> half_close_watch \<Rightarrow> half_close_watch" where
  "record_activity now w = (if armed w then w\<lparr>last_activity_ns := now\<rparr> else w)"

definition watch_drop :: "half_close_watch \<times> listener_metrics \<Rightarrow> listener_metrics" where
  "watch_drop = (\<lambda>(w, m). if armed w then lm_dec_half_closed m else m)"

subsection \<open>The watched streams\<close>

text \<open>What a poll of either half gives: a read that is pending or failed, or that filled some bytes, and a
  shutdown that completed or not. Writes and flushes pass straight through.\<close>

datatype half = ClientHalf | UpstreamHalf

datatype watched_poll = PollRead half "nat option" | PollWrite half | PollFlush half | PollShutdown half bool

definition arms_on_shutdown :: "half \<Rightarrow> bool" where
  "arms_on_shutdown h \<longleftrightarrow> h = ClientHalf"

fun watched_step ::
    "nat \<Rightarrow> watched_poll \<Rightarrow> half_close_watch \<times> listener_metrics \<Rightarrow> half_close_watch \<times> listener_metrics" where
  "watched_step now (PollRead h filled) (w, m) =
     (case filled of Some n \<Rightarrow> (if 0 < n then record_activity now w else w, m) | None \<Rightarrow> (w, m))"
| "watched_step now (PollWrite h) (w, m) = (w, m)"
| "watched_step now (PollFlush h) (w, m) = (w, m)"
| "watched_step now (PollShutdown h ready) (w, m) =
     (if arms_on_shutdown h \<and> ready then arm now (w, m) else (w, m))"

fun watched_run ::
    "(nat \<times> watched_poll) list \<Rightarrow> half_close_watch \<times> listener_metrics \<Rightarrow> half_close_watch \<times> listener_metrics" where
  "watched_run [] wm = wm"
| "watched_run ((now, p) # ps) wm = watched_run ps (watched_step now p wm)"

subsection \<open>The timer\<close>

text \<open>The loop of \<open>expired\<close>, entered at time \<open>t\<close>: \<open>activity t\<close> is the last activity recorded by then, and a
  sleep begun at \<open>t\<close> may overrun by \<open>late t\<close>. The value is the time at which it returns, if it does.\<close>

partial_function (option) expired_loop :: "(nat \<Rightarrow> nat) \<Rightarrow> (nat \<Rightarrow> nat) \<Rightarrow> nat \<Rightarrow> nat \<Rightarrow> nat option" where
  "expired_loop activity late window t =
     (let quiet_for = t - activity t; remaining = window - quiet_for
      in if quiet_for \<le> window \<and> remaining \<noteq> 0 then expired_loop activity late window (t + remaining + late t)
         else Some t)"

declare expired_loop.simps [code]

definition expired :: "(nat \<Rightarrow> nat) \<Rightarrow> (nat \<Rightarrow> nat) \<Rightarrow> nat option \<Rightarrow> nat \<Rightarrow> nat option" where
  "expired activity late notified window =
     (case notified of None \<Rightarrow> None | Some t \<Rightarrow> expired_loop activity late window t)"

text \<open>The last activity as the watch records it, from the polls of the connection in order of time.\<close>

definition activity_of :: "(nat \<times> watched_poll) list \<Rightarrow> nat \<Rightarrow> nat" where
  "activity_of ps t =
     last_activity_ns (fst (watched_run (filter (\<lambda>(now, _). now \<le> t) ps) (half_close_watch_new, listener_metrics_default)))"

fun notified_at :: "(nat \<times> watched_poll) list \<Rightarrow> nat option" where
  "notified_at [] = None"
| "notified_at ((now, p) # ps) =
     (case p of PollShutdown ClientHalf True \<Rightarrow> Some now | _ \<Rightarrow> notified_at ps)"

section \<open>Lemmas\<close>

text \<open>The gauge of half-closed connections: what a connection added it takes back.\<close>

lemma watched_step_gauge:
  "armed (fst (watched_step now p (w, m))) = (armed w \<or> armed (fst (watched_step now p (w, m)))) \<and>
   snd (watched_step now p (w, m)) =
     (if armed (fst (watched_step now p (w, m))) \<and> \<not> armed w then lm_inc_half_closed m else m)"
  by (cases p; cases "armed w") (simp_all add: arm_def record_activity_def split: option.split)

lemma watched_run_gauge:
  "armed (fst (watched_run ps (w, m))) = (armed w \<or> armed (fst (watched_run ps (w, m)))) \<and>
   snd (watched_run ps (w, m)) =
     (if armed (fst (watched_run ps (w, m))) \<and> \<not> armed w then lm_inc_half_closed m else m)"
proof (induction ps arbitrary: w m)
  case (Cons e ps)
  obtain now p where e: "e = (now, p)" by fastforce
  obtain w1 m1 where s: "watched_step now p (w, m) = (w1, m1)" by fastforce
  have m1: "armed w \<Longrightarrow> armed w1" "m1 = (if armed w1 \<and> \<not> armed w then lm_inc_half_closed m else m)"
    using watched_step_gauge [of now p w m] unfolding s by simp_all
  note IH = Cons.IH [of w1 m1]
  have run: "watched_run (e # ps) (w, m) = watched_run ps (w1, m1)" by (simp add: e s)
  show ?case
  proof (cases "armed w1")
    case True
    then have "armed (fst (watched_run ps (w1, m1)))" using IH by blast
    moreover have "snd (watched_run ps (w1, m1)) = m1" using IH True by argo
    ultimately show ?thesis unfolding run using m1(2) True by simp
  next
    case False
    then have "\<not> armed w" "m1 = m" using m1 by auto
    then show ?thesis unfolding run using IH False by simp
  qed
qed simp

text \<open>Stepping past a quiet moment: with no activity after \<open>a\<close> the loop returns, at the earliest when the
  window has passed since the last activity it saw.\<close>

lemma expired_loop_quiet:
  assumes "expired_loop activity late window t = Some t'"
  shows "window \<le> t' - activity t' \<and> t \<le> t'"
proof (rule expired_loop.raw_induct [OF _ assms, of "\<lambda>activity late window t t'. window \<le> t' - activity t' \<and> t \<le> t'"])
  fix f and activity late :: "nat \<Rightarrow> nat" and window t t' :: nat
  assume IH: "\<And>activity late window t t'. f activity late window t = Some t' \<Longrightarrow> window \<le> t' - activity t' \<and> t \<le> t'"
    and e: "(let quiet_for = t - activity t; remaining = window - quiet_for
      in if quiet_for \<le> window \<and> remaining \<noteq> 0 then f activity late window (t + remaining + late t) else Some t) = Some t'"
  show "window \<le> t' - activity t' \<and> t \<le> t'"
  proof (cases "t - activity t < window")
    case True
    then have "t - activity t \<le> window \<and> window - (t - activity t) \<noteq> 0" by linarith
    then have "f activity late window (t + (window - (t - activity t)) + late t) = Some t'"
      using e by (auto simp: Let_def split: if_splits)
    from IH [OF this] show ?thesis by simp
  next
    case False
    then show ?thesis using e by (auto simp: Let_def split: if_splits)
  qed
qed

lemma expired_loop_returns:
  assumes "\<And>t. activity t \<le> a" "\<And>t. late t \<le> l"
  shows "\<exists>t'. expired_loop activity late window t = Some t' \<and> t' \<le> max t (a + window + l)"
proof (induction "a + window - t" arbitrary: t rule: less_induct)
  case less
  define q where "q = t - activity t"
  show ?case
  proof (cases "q < window")
    case True
    then have step: "expired_loop activity late window t = expired_loop activity late window (t + (window - q) + late t)"
      by (subst expired_loop.simps) (simp add: q_def Let_def)
    have "t < a + window" using True assms(1) [of t] by (simp add: q_def)
    then have "a + window - (t + (window - q) + late t) < a + window - t" using True by simp
    from less [OF this] obtain t' where
      t': "expired_loop activity late window (t + (window - q) + late t) = Some t'"
        "t' \<le> max (t + (window - q) + late t) (a + window + l)" by blast
    have "t + (window - q) + late t \<le> max t (a + window + l)"
    proof -
      have "t + (window - q) \<le> max t (activity t) + window" by (simp add: q_def)
      then show ?thesis
      proof (cases "activity t \<le> t")
        case True
        then have "t + (window - q) = activity t + window" using \<open>q < window\<close> by (simp add: q_def)
        then show ?thesis using assms(1) [of t] assms(2) [of t] by simp
      next
        case False
        then have "t + (window - q) \<le> activity t + window" by (simp add: q_def)
        then show ?thesis using assms(1) [of t] assms(2) [of t] by simp
      qed
    qed
    then have "t' \<le> max t (a + window + l)" using t'(2) by simp
    then show ?thesis using t'(1) unfolding step by blast
  next
    case False
    then have "expired_loop activity late window t = Some t"
      by (subst expired_loop.simps) (auto simp: q_def Let_def)
    then show ?thesis by simp
  qed
qed

subsection \<open>What the watch records\<close>

definition active_poll :: "watched_poll \<Rightarrow> bool" where
  "active_poll p = (case p of PollRead _ (Some n) \<Rightarrow> 0 < n | PollShutdown ClientHalf True \<Rightarrow> True | _ \<Rightarrow> False)"

lemma watched_step_armed:
  "armed w \<Longrightarrow> fst (watched_step now p (w, m)) = (if active_poll p then w\<lparr>last_activity_ns := now\<rparr> else w)"
  by (cases p) (auto simp: active_poll_def arm_def record_activity_def arms_on_shutdown_def split: option.split half.split)

lemma watched_step_unarmed:
  "\<not> armed w \<Longrightarrow> fst (watched_step now p (w, m)) =
     (case p of PollShutdown ClientHalf True \<Rightarrow> w\<lparr>last_activity_ns := now, armed := True, permit := True\<rparr> | _ \<Rightarrow> w)"
  by (cases p) (auto simp: arm_def record_activity_def arms_on_shutdown_def split: option.split half.split bool.split)

lemma armed_run:
  "armed w \<Longrightarrow> sorted (last_activity_ns w # map fst ps) \<Longrightarrow>
   last_activity_ns w \<le> last_activity_ns (fst (watched_run ps (w, m))) \<and>
   (\<forall>(now, p) \<in> set ps. active_poll p \<longrightarrow> now \<le> last_activity_ns (fst (watched_run ps (w, m)))) \<and>
   (last_activity_ns (fst (watched_run ps (w, m))) = last_activity_ns w \<or>
    (\<exists>p. (last_activity_ns (fst (watched_run ps (w, m))), p) \<in> set ps \<and> active_poll p))"
proof (induction ps arbitrary: w m)
  case (Cons e ps)
  obtain now p where e: "e = (now, p)" by fastforce
  obtain w1 m1 where s: "watched_step now p (w, m) = (w1, m1)" by fastforce
  have w1: "w1 = (if active_poll p then w\<lparr>last_activity_ns := now\<rparr> else w)"
    using watched_step_armed [OF Cons.prems(1), of now p m] s by simp
  then have "armed w1" "sorted (last_activity_ns w1 # map fst ps)" "last_activity_ns w \<le> last_activity_ns w1"
    using Cons.prems e by auto
  note IH = Cons.IH [OF this(1,2), of m1]
  have run: "watched_run (e # ps) (w, m) = watched_run ps (w1, m1)" by (simp add: e s)
  show ?case
    unfolding run using IH w1 e Cons.prems(2) by (cases "active_poll p") (auto split: if_splits)
qed simp

lemma activity_within:
  assumes "sorted (map fst ps)" "notified_at ps = Some t0" "\<forall>(now, p) \<in> set ps. active_poll p \<longrightarrow> now \<le> a" "t0 \<le> t" "\<not> armed w"
  shows "(let x = last_activity_ns (fst (watched_run (filter (\<lambda>(now, _). now \<le> t) ps) (w, m)))
          in t0 \<le> x \<and> x \<le> a \<and> (\<forall>(now, p) \<in> set ps. active_poll p \<and> t0 \<le> now \<and> now \<le> t \<longrightarrow> now \<le> x))"
  using assms
proof (induction ps arbitrary: w m)
  case (Cons e ps)
  obtain now p where e: "e = (now, p)" by fastforce
  obtain w1 m1 where s: "watched_step now p (w, m) = (w1, m1)" by fastforce
  define tw where "tw = filter (\<lambda>(now, _). now \<le> t) ps"
  show ?case
  proof (cases "p = PollShutdown ClientHalf True")
    case True
    then have t0: "t0 = now" and w1: "w1 = w\<lparr>last_activity_ns := now, armed := True, permit := True\<rparr>"
      using Cons.prems(2,5) e watched_step_unarmed [of w now p m] s by auto
    have a: "now \<le> a" using Cons.prems(3) e True by (auto simp: active_poll_def)
    have "sorted (last_activity_ns w1 # map fst tw)"
      using Cons.prems(1) e w1 by (auto simp: tw_def sorted_filter)
    note r = armed_run [OF _ this, of m1]
    define x where "x = last_activity_ns (fst (watched_run tw (w1, m1)))"
    have "now \<le> x \<and> x \<le> a \<and> (\<forall>(n, q) \<in> set tw. active_poll q \<longrightarrow> n \<le> x)"
      using r w1 a Cons.prems(3) e by (auto simp: x_def tw_def)
    then show ?thesis
      using t0 Cons.prems(4) e s by (auto simp: Let_def x_def tw_def)
  next
    case False
    then have w1: "w1 = w" and n: "notified_at ps = Some t0"
      using Cons.prems(2,5) e watched_step_unarmed [of w now p m] s
      by (auto split: watched_poll.splits half.splits bool.splits)
    have "t0 \<in> fst ` set ps" using n by (induction ps) (auto split: watched_poll.splits half.splits bool.splits)
    then have "now \<le> t0" using Cons.prems(1) e by auto
    then have run: "watched_run (filter (\<lambda>(now, _). now \<le> t) (e # ps)) (w, m) = watched_run tw (w, m1)"
      using Cons.prems(4) e s w1 by (simp add: tw_def)
    have "t0 \<le> last_activity_ns (fst (watched_run tw (w, m1)))"
      using Cons.IH [of w m1] Cons.prems n by (simp add: Let_def tw_def)
    then show ?thesis
      unfolding run using Cons.IH [of w m1] Cons.prems n e \<open>now \<le> t0\<close> by (auto simp: Let_def tw_def)
  qed
qed simp

lemma activity_before:
  "notified_at ps = Some t0 \<Longrightarrow> sorted (map fst ps) \<Longrightarrow> t < t0 \<Longrightarrow> \<not> armed w \<Longrightarrow>
   last_activity_ns (fst (watched_run (filter (\<lambda>(now, _). now \<le> t) ps) (w, m))) = last_activity_ns w"
proof (induction ps arbitrary: w m)
  case (Cons e ps)
  obtain now p where e: "e = (now, p)" by fastforce
  obtain w1 m1 where s: "watched_step now p (w, m) = (w1, m1)" by fastforce
  show ?case
  proof (cases "now \<le> t")
    case True
    then have "p \<noteq> PollShutdown ClientHalf True" using Cons.prems e by auto
    then have w1: "w1 = w" and n: "notified_at ps = Some t0"
      using Cons.prems(1,4) e watched_step_unarmed [of w now p m] s
      by (auto split: watched_poll.splits half.splits bool.splits)
    then show ?thesis using Cons.IH [of w m1] Cons.prems e s True by simp
  next
    case False
    then have "filter (\<lambda>(now, _). now \<le> t) ps = []" using Cons.prems(2) e by (auto simp: filter_empty_conv)
    then show ?thesis using False e by simp
  qed
qed simp

subsection \<open>Reclaiming half-closed connections\<close>

text \<open>C25. A connection whose write half to the client was shut down is reclaimed within the window (and the
  timer's delay) of the last byte it carried, and never while bytes flow: nothing was read in the window
  before it is reclaimed.\<close>

theorem half_closed_reclaimed:
  assumes "sorted (map fst polls)" "notified_at polls = Some t0"
    and "\<forall>(now, p) \<in> set polls. active_poll p \<longrightarrow> now \<le> a" and "\<And>t. late t \<le> l"
  shows "\<exists>t'. expired (activity_of polls) late (notified_at polls) window = Some t' \<and> t0 \<le> t' \<and> t' \<le> a + window + l \<and>
    (\<forall>(now, p) \<in> set polls. active_poll p \<and> t0 \<le> now \<and> now \<le> t' \<longrightarrow> now + window \<le> t')"
proof -
  have bound: "activity_of polls t \<le> a" for t
    using activity_within [OF assms(1,2,3), of t half_close_watch_new listener_metrics_default]
      activity_before [OF assms(2,1), of t half_close_watch_new listener_metrics_default]
    by (cases "t0 \<le> t") (auto simp: activity_of_def Let_def half_close_watch_new_def)
  obtain t' where t': "expired_loop (activity_of polls) late window t0 = Some t'" "t' \<le> max t0 (a + window + l)"
    using expired_loop_returns [of "activity_of polls" a late l window t0] bound assms(4) by blast
  note q = expired_loop_quiet [OF t'(1)]
  have act: "t0 \<le> activity_of polls t'" "activity_of polls t' \<le> a"
      "\<And>now p. (now, p) \<in> set polls \<Longrightarrow> active_poll p \<Longrightarrow> t0 \<le> now \<Longrightarrow> now \<le> t' \<Longrightarrow> now \<le> activity_of polls t'"
    using activity_within [OF assms(1,2,3), of t' half_close_watch_new listener_metrics_default] q
    by (auto simp: activity_of_def Let_def half_close_watch_new_def)
  have "now + window \<le> t'" if "(now, p) \<in> set polls" "active_poll p" "t0 \<le> now" "now \<le> t'" for now p
    using act(3) [OF that] q that(4) by linarith
  moreover have "t' \<le> a + window + l" using t'(2) act(1,2) by auto
  ultimately show ?thesis using t'(1) q assms(2) by (auto simp: expired_def)
qed

definition drained_polls :: "(nat \<times> watched_poll) list" where
  "drained_polls = [(10, PollRead ClientHalf (Some 3)), (20, PollShutdown ClientHalf True), (70, PollRead ClientHalf (Some 1))]"

theorem half_closed_reclaimed_witness:
  "\<exists>t'. expired (activity_of drained_polls) (\<lambda>_. 5) (notified_at drained_polls) 100 = Some t' \<and> 170 \<le> t' \<and> t' \<le> 175"
  using half_closed_reclaimed [of drained_polls 20 70 "\<lambda>_. 5" 5 100]
  by (auto simp: drained_polls_def active_poll_def)

end
