(* ===== verification/Conn.thy ===== *)
theory Conn
  imports Suspended Liveness Http
begin

text \<open>
  Connection handling (\<open>proxy_conn.rs\<close>). \<open>handle\<close> is an async function: here it is the state machine that
  it denotes, one \<open>phase\<close> per await point with the values that live across it, and \<open>handle_step\<close> runs the
  code from one await point to the next when the awaited \<open>answer\<close> arrives. The shared state (counters,
  limiters, route table, registry) is threaded through, so that the steps of many connections interleave.
  A connect and a forward take effect on the shared state when they answer.
\<close>

section \<open>Definitions\<close>

subsection \<open>Forwarding the source address\<close>

record tls_forward =
  tf_version :: "bytes option"
  tf_cipher :: "bytes option"
  tf_alpn :: "bytes option"
  tf_client_cert_chain :: "bytes list"

record source_forwarding =
  sf_mode :: source_address_mode
  sf_fingerprint :: forward_fingerprint
  sf_protocol :: route_protocol
  sf_ja3 :: bytes
  sf_ja4 :: bytes
  sf_sni :: "bytes option"
  sf_tls :: "tls_forward option"
  sf_peer_addr :: socket_addr
  sf_local_addr :: "socket_addr option"

definition push_sub_tlv :: "bytes \<Rightarrow> u8 \<Rightarrow> bytes \<Rightarrow> bytes" where
  "push_sub_tlv b ty v = b @ [ty] @ u16_to_be (of_nat (length v)) @ v"

definition build_ssl_tlv :: "tls_forward \<Rightarrow> bytes" where
  "build_ssl_tlv tls =
     (let has_cert = (tf_client_cert_chain tls \<noteq> []);
          ssl = [PP2_CLIENT_SSL OR (if has_cert then PP2_CLIENT_CERT_CONN else 0)] @
            u32_to_be (if has_cert then 0 else 1);
          ssl1 = (case tf_version tls of Some v \<Rightarrow> push_sub_tlv ssl PP2_SUBTYPE_SSL_VERSION v | None \<Rightarrow> ssl)
      in case tf_cipher tls of Some c \<Rightarrow> push_sub_tlv ssl1 PP2_SUBTYPE_SSL_CIPHER c | None \<Rightarrow> ssl1)"

text \<open>What \<open>rustls\<close> reports of a session.\<close>

datatype tls_version = TLSv1_2 | TLSv1_3 | OtherVersion

record tls_session =
  se_version :: "tls_version option"
  se_cipher :: "bytes option"
  se_alpn :: "bytes option"
  se_peer_certificates :: "bytes list option"

definition collect_tls_forward :: "tls_session \<Rightarrow> tls_forward" where
  "collect_tls_forward s =
     \<lparr>tf_version = (case se_version s of
        Some TLSv1_3 \<Rightarrow> Some (str ''TLSv1.3'') | Some TLSv1_2 \<Rightarrow> Some (str ''TLSv1.2'') | _ \<Rightarrow> None),
      tf_cipher = se_cipher s, tf_alpn = se_alpn s,
      tf_client_cert_chain = (case se_peer_certificates s of Some certs \<Rightarrow> certs | None \<Rightarrow> [])\<rparr>"

record forwarded_fingerprint =
  ff_pp2_type :: u8
  ff_header_name :: bytes
  ff_value :: bytes

definition forwarded_fingerprints :: "source_forwarding \<Rightarrow> forwarded_fingerprint list" where
  "forwarded_fingerprints sf =
     (if fp_ja3 (sf_fingerprint sf)
      then [\<lparr>ff_pp2_type = PP2_TYPE_JA3, ff_header_name = str ''X-JA3'', ff_value = sf_ja3 sf\<rparr>] else []) @
     (if fp_ja4 (sf_fingerprint sf)
      then [\<lparr>ff_pp2_type = PP2_TYPE_JA4, ff_header_name = str ''X-JA4'', ff_value = sf_ja4 sf\<rparr>] else [])"

text \<open>The TLVs of a PROXY v2 header, and the length they take.\<close>

definition tlvs_len :: "(u8 \<times> bytes) list \<Rightarrow> nat" where
  "tlvs_len tlvs = sum_list (map (\<lambda>(_, v). 3 + length v) tlvs)"

definition base_tlvs :: "source_forwarding \<Rightarrow> (u8 \<times> bytes) list" where
  "base_tlvs sf =
     map (\<lambda>fp. (ff_pp2_type fp, ff_value fp)) (forwarded_fingerprints sf) @
     (case sf_sni sf of Some name \<Rightarrow> [(PP2_TYPE_AUTHORITY, name)] | None \<Rightarrow> []) @
     (case sf_tls sf of
        Some tls \<Rightarrow>
          (case tf_alpn tls of Some alpn \<Rightarrow> [(PP2_TYPE_ALPN, alpn)] | None \<Rightarrow> []) @
          [(PP2_TYPE_SSL, build_ssl_tlv tls)]
      | None \<Rightarrow> [])"

definition chain_tlvs :: "source_forwarding \<Rightarrow> (u8 \<times> bytes) list" where
  "chain_tlvs sf =
     (case sf_tls sf of
        Some tls \<Rightarrow>
          let chain = tf_client_cert_chain tls; chain_len = sum_list (map (\<lambda>c. 3 + length c) chain)
          in if tlvs_len (base_tlvs sf) + chain_len + 36 \<le> 65535 \<and> list_all (\<lambda>c. length c \<le> 65535) chain
             then map (\<lambda>c. (PP2_TYPE_CLIENT_CERT, c)) chain else []
      | None \<Rightarrow> [])"

text \<open>The bytes of the prefix; \<open>None\<close> is the error of a header that cannot be encoded.\<close>

definition connection_prefix :: "source_forwarding \<Rightarrow> bytes option" where
  "connection_prefix sf =
     (case sf_mode sf of
        NoSourceAddress \<Rightarrow> Some []
      | XForwardedFor \<Rightarrow> Some []
      | ProxyProtocol \<Rightarrow> Some (proxy_v1_header (sf_peer_addr sf))
      | ProxyProtocolV2 \<Rightarrow>
          proxy_v2_header (sf_peer_addr sf) (sf_local_addr sf) (base_tlvs sf @ chain_tlvs sf))"

definition eligible_for_header_rewriting :: "route_protocol \<Rightarrow> bool \<Rightarrow> bool" where
  "eligible_for_header_rewriting protocol negotiated_h2 \<longleftrightarrow> protocol = Http \<and> \<not> negotiated_h2"

definition header_rewrites :: "source_forwarding \<Rightarrow> bool \<Rightarrow> header_rewrite list" where
  "header_rewrites sf l7_http1 =
     (if \<not> l7_http1 then []
      else
        (if sf_mode sf = XForwardedFor
         then [\<lparr>hr_name = str ''X-Forwarded-For'', hr_value = Some (fmt_ip (sa_ip (sf_peer_addr sf)))\<rparr>] else []) @
        (if sf_mode sf \<noteq> ProxyProtocolV2
         then map (\<lambda>fp. \<lparr>hr_name = ff_header_name fp, hr_value = (if ff_value fp = [] then None else Some (ff_value fp))\<rparr>)
           (forwarded_fingerprints sf) else []))"

subsection \<open>Proxying\<close>

text \<open>The data of \<open>forward\<close>: the prefix, then either pump. A pump reads from one side and writes to the other.\<close>

definition copy_both_ways :: "pump \<Rightarrow> pump \<Rightarrow> (pump_error + unit) \<times> pump \<times> pump" where
  "copy_both_ways client upstream =
     (case (copy_to_end client, copy_to_end upstream) of
        ((a, client1), (b, upstream1)) \<Rightarrow> (case a of Inl e \<Rightarrow> Inl e | Inr _ \<Rightarrow> b, client1, upstream1))"

datatype forward_error = InvalidPrefix | PumpError pump_error

text \<open>\<open>None\<close>: the copy waits for ever, until one of the timeouts of \<open>forward\<close> drops it.\<close>

definition copy_result :: "pump_outcome \<Rightarrow> (forward_error + unit) option" where
  "copy_result q =
     (case q of
        Returned (Inl e) \<Rightarrow> Some (Inl (PumpError e))
      | Returned (Inr u) \<Rightarrow> Some (Inr u)
      | _ \<Rightarrow> None)"

text \<open>The result comes with what the upstream decided on each tunnel request it answered.\<close>

definition forward_copy ::
    "source_forwarding \<Rightarrow> bool \<Rightarrow> pump \<Rightarrow> pump \<Rightarrow>
     ((forward_error + unit) option \<times> pump \<times> pump \<times> verdict list) option" where
  "forward_copy sf l7_http1 client upstream =
     (case connection_prefix sf of
        None \<Rightarrow> Some (Some (Inl InvalidPrefix), client, upstream, [])
      | Some pre \<Rightarrow>
          (case write_all pre client of
             (Inl e, client1) \<Rightarrow> Some (Some (Inl (PumpError e)), client1, upstream, [])
           | (Inr _, client1) \<Rightarrow>
               let rewrites = header_rewrites sf l7_http1
               in if rewrites = []
                  then (case copy_both_ways client1 upstream of (a, c, u) \<Rightarrow> Some (copy_result (Returned a), c, u, []))
                  else map_option (\<lambda>(q, c, u, ch). (copy_result q, c, u, ch_verdicts ch))
                    (proxy_http1_rewriting rewrites client1 upstream)))"

text \<open>The time of \<open>forward\<close>: when the copy ends by itself and how, the polls of its watched streams, the delays
  of the timer, and which of two futures that are ready at once \<open>select!\<close> takes.\<close>

datatype copy_failure = CopyTimedOut | CopyOther

fun classify_copy_failure :: "copy_failure \<Rightarrow> conn_error" where
  "classify_copy_failure CopyTimedOut = PeerTimeout"
| "classify_copy_failure CopyOther = StreamError"

record flow =
  fl_copy :: "(nat \<times> copy_failure option) option"
  fl_polls :: "(nat \<times> watched_poll) list"
  fl_late :: "nat \<Rightarrow> nat"
  fl_copy_first :: bool

definition forward_body :: "nat \<Rightarrow> flow \<Rightarrow> (nat \<times> conn_error option) option" where
  "forward_body half_close_timeout fl =
     (let copied = map_option (\<lambda>(t, r). (t, map_option classify_copy_failure r)) (fl_copy fl)
      in if half_close_timeout = 0 then copied
         else case (copied, expired (activity_of (fl_polls fl)) (fl_late fl) (notified_at (fl_polls fl)) half_close_timeout) of
           (None, None) \<Rightarrow> None
         | (Some (t, r), None) \<Rightarrow> Some (t, r)
         | (None, Some t') \<Rightarrow> Some (t', Some HalfClosed)
         | (Some (t, r), Some t') \<Rightarrow>
             if t < t' \<or> t = t' \<and> fl_copy_first fl then Some (t, r) else Some (t', Some HalfClosed))"

definition forward :: "nat \<Rightarrow> nat \<Rightarrow> flow \<Rightarrow> (nat \<times> conn_error option) option" where
  "forward idle_timeout half_close_timeout fl =
     (if idle_timeout = 0 then forward_body half_close_timeout fl
      else case forward_body half_close_timeout fl of
        Some (t, r) \<Rightarrow> if t \<le> idle_timeout then Some (t, r) else Some (idle_timeout, Some IdleTimeout)
      | None \<Rightarrow> Some (idle_timeout, Some IdleTimeout))"

subsection \<open>The connection\<close>

record effective_route =
  er_destination :: destination
  er_destination_h2 :: "destination option"
  er_tls_config :: "nat option"
  er_terminate_tls :: bool
  er_source_address_mode :: source_address_mode
  er_forward_fingerprint :: forward_fingerprint
  er_protocol :: route_protocol

definition destination_for :: "effective_route \<Rightarrow> bool \<Rightarrow> destination" where
  "destination_for er h2 = (case er_destination_h2 er of Some dest \<Rightarrow> if h2 then dest else er_destination er
     | None \<Rightarrow> er_destination er)"

datatype js_event =
    Blocked bytes bytes bytes bytes bytes
  | SuspendedEvent u64 bytes bytes u16 bytes

text \<open>The context of a listener. \<open>cx_contains\<close> and \<open>cx_spill_hash\<close> are the crates' network membership and
  the hash of a client address.\<close>

record conn_context =
  cx_listener_addr :: bytes
  cx_idle_timeout :: nat
  cx_half_close_timeout :: nat
  cx_upstream_connect_timeout :: nat
  cx_ingress :: "source_allowlist option"
  cx_contains :: "ip_network \<Rightarrow> ipaddr \<Rightarrow> bool"
  cx_spill_hash :: "socket_addr \<Rightarrow> u64"

record shared =
  sh_table :: route_table
  sh_world :: world
  sh_tls :: tls_state
  sh_protection :: "protection_state option"
  sh_registry :: suspended_registry
  sh_global :: global_metrics
  sh_listener :: listener_metrics
  sh_events :: "js_event list"

datatype phase =
    AwaitHeader
  | AwaitLoadAnswer bytes
  | AwaitPeek
  | AwaitForward nat forward_mode u64
  | AwaitResolve u64 nat
  | AwaitLocal effective_route bool "(nat \<times> nat) option" nat
  | AwaitPeers nat nat u64
  | AwaitHandshake effective_route bool
  | AwaitUpstream effective_route tls_session
  | AwaitProxy source_forwarding bool
  | Finished

record conn =
  cn_phase :: phase
  cn_peer :: socket_addr
  cn_local :: "socket_addr option"
  cn_ip_state :: "nat option"
  cn_route :: "route option"
  cn_peek :: peek_info
  cn_hs_timeout :: nat
  cn_upstream :: "upstream_stream option"

datatype answer =
    HeaderRead "header_reject + header"
  | AnswerWritten
  | Peeked peek_info u64
  | Forwarded forward_env
  | Woken
  | ConnectAnswer connect_env
  | HandshakeEnded "tls_session option" bool
  | ProxyEnded "io_event list" flow

subsection \<open>Counters and guards\<close>

definition blocked :: "block_kind \<Rightarrow> shared \<Rightarrow> shared" where
  "blocked k sh = sh\<lparr>sh_listener := lm_inc_blocked k (sh_listener sh)\<rparr>"

definition on_route ::
    "(listener_metrics \<times> route_metrics \<Rightarrow> listener_metrics \<times> route_metrics) \<Rightarrow> nat \<Rightarrow> shared \<Rightarrow> shared" where
  "on_route f i sh =
     (let idn = identities (sh_world sh) ! i; (l, r) = f (sh_listener sh, id_counters idn)
      in sh\<lparr>sh_listener := l,
            sh_world := (sh_world sh)\<lparr>identities := (identities (sh_world sh))[i := idn\<lparr>id_counters := r\<rparr>]\<rparr>\<rparr>)"

definition emit :: "js_event \<Rightarrow> shared \<Rightarrow> shared" where
  "emit e sh = sh\<lparr>sh_events := sh_events sh @ [e]\<rparr>"

text \<open>\<open>RouteActiveGuard\<close>.\<close>

definition route_guard_new :: "nat \<Rightarrow> shared \<Rightarrow> shared" where
  "route_guard_new = on_route (\<lambda>(l, r). (l, rm_inc_active r))"

definition route_guard_drop :: "nat \<Rightarrow> shared \<Rightarrow> shared" where
  "route_guard_drop = on_route (\<lambda>(l, r). (l, rm_dec_active r))"

definition active_guard_drop :: "nat option \<Rightarrow> shared \<Rightarrow> shared" where
  "active_guard_drop ip_state sh =
     sh\<lparr>sh_global := gm_dec_active (sh_global sh), sh_listener := lm_dec_active (sh_listener sh),
        sh_protection := (case ip_state of Some ref \<Rightarrow> map_option (release ref) (sh_protection sh) | None \<Rightarrow> sh_protection sh)\<rparr>"

definition drop_upstream :: "upstream_stream option \<Rightarrow> shared \<Rightarrow> shared" where
  "drop_upstream up sh =
     (case up of
        Some s \<Rightarrow> sh\<lparr>sh_world := (sh_world sh)\<lparr>base := close_upstream s (base (sh_world sh))\<rparr>\<rparr>
      | None \<Rightarrow> sh)"

text \<open>Leaving \<open>handle\<close>: everything the connection holds is dropped.\<close>

definition return :: "conn \<Rightarrow> shared \<Rightarrow> conn \<times> shared" where
  "return c sh =
     (c\<lparr>cn_phase := Finished, cn_upstream := None, cn_route := None, cn_ip_state := None\<rparr>,
      active_guard_drop (cn_ip_state c)
        (case cn_route c of Some r \<Rightarrow> route_guard_drop (rt_identity r) (drop_upstream (cn_upstream c) sh)
         | None \<Rightarrow> drop_upstream (cn_upstream c) sh))"

definition return_error :: "conn_error \<Rightarrow> conn \<Rightarrow> shared \<Rightarrow> conn \<times> shared" where
  "return_error k c sh = return c (on_route (inc_route_error k) (rt_identity (the (cn_route c))) sh)"

definition return_blocked :: "block_kind \<Rightarrow> conn \<Rightarrow> shared \<Rightarrow> conn \<times> shared" where
  "return_blocked k c sh = return c (on_route (inc_route_blocked k) (rt_identity (the (cn_route c))) sh)"

subsection \<open>Accepting\<close>

definition handshake_timeout :: "shared \<Rightarrow> nat" where
  "handshake_timeout sh =
     (case sh_protection sh of
        Some p \<Rightarrow> unat (tls_handshake_timeout (config p)) * 1000000
      | None \<Rightarrow> 10000000000)"

text \<open>Steps 0 and 0b up to the first await.\<close>

definition handle_start ::
    "conn_context \<Rightarrow> socket_addr \<Rightarrow> socket_addr option \<Rightarrow> shared \<Rightarrow> conn \<times> shared" where
  "handle_start ctx peer local_addr sh =
     (let sh1 = sh\<lparr>sh_listener := lm_inc_active (sh_listener sh), sh_global := gm_inc_active (sh_global sh)\<rparr>;
          c = \<lparr>cn_phase = AwaitPeek, cn_peer = peer, cn_local = local_addr, cn_ip_state = None, cn_route = None,
               cn_peek = peek_info_default, cn_hs_timeout = handshake_timeout sh1, cn_upstream = None\<rparr>
      in case cx_ingress ctx of
           None \<Rightarrow> (c, sh1)
         | Some trusted \<Rightarrow>
             if trusts (cx_contains ctx) trusted (sa_ip peer) then (c\<lparr>cn_phase := AwaitHeader\<rparr>, sh1)
             else return c (blocked KUntrustedSource sh1))"

definition answer_load_query :: "u64 \<Rightarrow> bytes option list \<Rightarrow> shared \<Rightarrow> bytes \<times> shared" where
  "answer_load_query now names sh =
     (encode_load_answer (map (\<lambda>name. Option.bind name (table_load_answer (sh_world sh) now (sh_table sh))) names),
      sh\<lparr>sh_listener := lm_inc_load_query (sh_listener sh)\<rparr>)"

definition header_read :: "nat \<Rightarrow> header_reject + header \<Rightarrow> conn \<Rightarrow> shared \<Rightarrow> conn \<times> shared" where
  "header_read t res c sh =
     (case res of
        Inl reject \<Rightarrow> return c (blocked (kind_of_reject reject) sh)
      | Inr (ProxyHeader source) \<Rightarrow> (c\<lparr>cn_peer := source, cn_phase := AwaitPeek\<rparr>, sh)
      | Inr (LoadQuery names) \<Rightarrow>
          (case answer_load_query (of_nat t) names sh of
             (ans, sh1) \<Rightarrow> (c\<lparr>cn_phase := AwaitLoadAnswer ans\<rparr>, sh1)))"

subsection \<open>Serving\<close>

definition predicts_h2 :: "server_config \<Rightarrow> bool \<Rightarrow> bool" where
  "predicts_h2 cfg offers \<longleftrightarrow> offers \<and> (case sc_alpn cfg of p # _ \<Rightarrow> p = str ''h2'' | [] \<Rightarrow> False)"

text \<open>The health cell a local TCP connect reports to, and the failover whose peers may take the connection.\<close>

definition failover_of :: "route \<Rightarrow> nat option" where
  "failover_of r = (if rt_suspended r then None else rt_failover r)"

definition tcp_health_of :: "conn \<Rightarrow> shared \<Rightarrow> nat option" where
  "tcp_health_of c sh = Option.bind (failover_of (the (cn_route c))) (\<lambda>f. tcp_health (failovers (sh_world sh) ! f))"

definition sf_of :: "conn \<Rightarrow> effective_route \<Rightarrow> source_forwarding" where
  "sf_of c er =
     \<lparr>sf_mode = er_source_address_mode er, sf_fingerprint = er_forward_fingerprint er, sf_protocol = er_protocol er,
      sf_ja3 = ja3 (cn_peek c), sf_ja4 = ja4 (cn_peek c), sf_sni = sni (cn_peek c), sf_tls = None,
      sf_peer_addr = cn_peer c, sf_local_addr = cn_local c\<rparr>"

text \<open>Step 5 up to its first await: connect first, or shake hands first. A failover carries its deadline.\<close>

definition serve :: "conn_context \<Rightarrow> nat \<Rightarrow> effective_route \<Rightarrow> conn \<Rightarrow> shared \<Rightarrow> conn \<times> shared" where
  "serve ctx t er c sh =
     (let r = the (cn_route c);
          may_forward = (if cx_ingress ctx = None then map_option (\<lambda>f. (f, t + cn_hs_timeout c)) (failover_of r) else None);
          shared_timeout = min (cx_upstream_connect_timeout ctx) (cn_hs_timeout c div 2)
      in if er_terminate_tls er then
           (case er_tls_config er of
              None \<Rightarrow> return_error TlsMissingCert c sh
            | Some cfg \<Rightarrow>
                let predicted = predicts_h2 (configs (sh_tls sh) ! cfg) (offers_h2 (cn_peek c))
                in if may_forward \<noteq> None \<and> complete (cn_peek c) \<and> \<not> rt_requires_client_cert r
                   then (c\<lparr>cn_phase := AwaitLocal er predicted may_forward shared_timeout\<rparr>, sh)
                   else (c\<lparr>cn_phase := AwaitHandshake er predicted\<rparr>, sh))
         else (c\<lparr>cn_phase := AwaitLocal er False may_forward
                (if may_forward = None then cx_upstream_connect_timeout ctx else shared_timeout)\<rparr>, sh))"

definition effective_of_route :: "route \<Rightarrow> effective_route" where
  "effective_of_route r =
     \<lparr>er_destination = rt_destination r, er_destination_h2 = rt_destination_h2 r, er_tls_config = rt_tls_config r,
      er_terminate_tls = rt_terminate_tls r, er_source_address_mode = rt_source_address_mode r,
      er_forward_fingerprint = rt_forward_fingerprint r, er_protocol = rt_protocol r\<rparr>"

definition effective_of_resolved :: "resolved_route \<Rightarrow> effective_route" where
  "effective_of_resolved r =
     \<lparr>er_destination = rr_destination r, er_destination_h2 = None, er_tls_config = rr_tls_config r,
      er_terminate_tls = rr_terminate_tls r, er_source_address_mode = rr_source_address_mode r,
      er_forward_fingerprint = rr_forward_fingerprint r, er_protocol = rr_protocol r\<rparr>"

definition permitted :: "conn_context \<Rightarrow> source_allowlist option \<Rightarrow> conn \<Rightarrow> bool" where
  "permitted ctx allowed c \<longleftrightarrow>
     (case allowed of Some a \<Rightarrow> permits (cx_contains ctx) a (sa_ip (cn_peer c)) | None \<Rightarrow> True)"

text \<open>Step 4.\<close>

definition suspend_or_serve :: "conn_context \<Rightarrow> nat \<Rightarrow> conn \<Rightarrow> shared \<Rightarrow> conn \<times> shared" where
  "suspend_or_serve ctx t c sh =
     (let r = the (cn_route c)
      in if rt_suspended r then
           (case register (sh_registry sh) of
              ((i, ch), reg) \<Rightarrow>
                (c\<lparr>cn_phase := AwaitResolve i ch\<rparr>,
                 emit (SuspendedEvent i (case sni (cn_peek c) of Some name \<Rightarrow> name | None \<Rightarrow> [])
                    (fmt_ip (sa_ip (cn_peer c))) (sa_port (cn_peer c)) (cx_listener_addr ctx))
                   (sh\<lparr>sh_global := gm_inc_suspended (sh_global sh), sh_registry := reg\<rparr>)))
         else serve ctx t (effective_of_route r) c sh)"

definition resumed :: "conn_context \<Rightarrow> nat \<Rightarrow> u64 \<Rightarrow> nat \<Rightarrow> conn \<Rightarrow> shared \<Rightarrow> conn \<times> shared" where
  "resumed ctx t i ch c sh =
     (case channels (sh_registry sh) ! ch of
        Sent (Some r) \<Rightarrow>
          let sh1 = sh\<lparr>sh_global := gm_dec_suspended True (sh_global sh)\<rparr>
          in if permitted ctx (rr_allowed_sources r) c then serve ctx t (effective_of_resolved r) c sh1
             else return_blocked KSourceNotAllowed c sh1
      | _ \<Rightarrow>
          return_error SuspendUnresolved c
            (sh\<lparr>sh_registry := remove_pending i (sh_registry sh), sh_global := gm_dec_suspended False (sh_global sh)\<rparr>))"

subsection \<open>Admission and routing\<close>

text \<open>Step 3d, decided before the handshake.\<close>

definition choose_server :: "conn_context \<Rightarrow> nat \<Rightarrow> conn \<Rightarrow> shared \<Rightarrow> conn \<times> shared" where
  "choose_server ctx t c sh =
     (let r = the (cn_route c); w = sh_world sh
      in case rt_failover r of
           None \<Rightarrow> suspend_or_serve ctx t c sh
         | Some f \<Rightarrow>
             let fo = failovers w ! f;
                 spill = (\<lambda>w. case fo_spill fo of
                   Some (_, ref) \<Rightarrow> spill_target (cx_spill_hash ctx) (of_nat t) fo ref (cn_peer c) w | None \<Rightarrow> (None, w))
             in (case decide (cx_ingress ctx \<noteq> None) (rt_suspended r)
                     (locally_down w fo (rt_destination r) (rt_destination_h2 r)) (drain fo) spill w of
                   (Refuse, w1) \<Rightarrow> return_error LocallyDown c (sh\<lparr>sh_world := w1\<rparr>)
                 | (Forward mode, w1) \<Rightarrow> (c\<lparr>cn_phase := AwaitForward f mode (of_nat t)\<rparr>, sh\<lparr>sh_world := w1\<rparr>)
                 | (ServeLocal, w1) \<Rightarrow> suspend_or_serve ctx t c (sh\<lparr>sh_world := w1\<rparr>)))"

text \<open>Steps 3b and 3c: the source allowlist before the rate limiter.\<close>

definition admit_route :: "conn_context \<Rightarrow> nat \<Rightarrow> conn \<Rightarrow> shared \<Rightarrow> conn \<times> shared" where
  "admit_route ctx t c sh =
     (let r = the (cn_route c)
      in if \<not> permitted ctx (rt_allowed_sources r) c then return_blocked KSourceNotAllowed c sh
         else case rt_rate_limiter r of
           None \<Rightarrow> choose_server ctx t c sh
         | Some b \<Rightarrow>
             (case try_acquire (of_nat t) (buckets (sh_world sh) ! b) of
                (ok, b1) \<Rightarrow>
                  let sh1 = sh\<lparr>sh_world := (sh_world sh)\<lparr>buckets := (buckets (sh_world sh))[b := b1]\<rparr>\<rparr>
                  in if ok then choose_server ctx t c sh1 else return_error RouteRateLimited c sh1))"

text \<open>Step 3.\<close>

definition route_lookup :: "conn_context \<Rightarrow> nat \<Rightarrow> conn \<Rightarrow> shared \<Rightarrow> conn \<times> shared" where
  "route_lookup ctx t c sh =
     (case resolve_with (sni (cn_peek c)) (cx_ingress ctx = None) (sh_table sh) of
        None \<Rightarrow> return c (sh\<lparr>sh_listener := lm_inc_error NoRoute (sh_listener sh)\<rparr>)
      | Some r \<Rightarrow> admit_route ctx t (c\<lparr>cn_route := Some r\<rparr>) (route_guard_new (rt_identity r) sh))"

text \<open>Steps 1 and 2.\<close>

definition peeked :: "conn_context \<Rightarrow> nat \<Rightarrow> peek_info \<Rightarrow> u64 \<Rightarrow> conn \<Rightarrow> shared \<Rightarrow> conn \<times> shared" where
  "peeked ctx t peek alloc_now c0 sh =
     (let c = c0\<lparr>cn_peek := peek\<rparr>
      in case sh_protection sh of
           None \<Rightarrow> route_lookup ctx t c sh
         | Some p \<Rightarrow>
             (case check_at (cx_contains ctx) (sa_ip (cn_peer c)) peek (of_nat t) alloc_now p of
                (Block reason, p1) \<Rightarrow>
                  return c (emit (Blocked (fmt_ip (sa_ip (cn_peer c))) (block_reason_as_str reason) (cx_listener_addr ctx)
                      (ja3 peek) (ja4 peek))
                    (blocked (kind_of_reason reason) (sh\<lparr>sh_protection := Some p1\<rparr>)))
              | (AllowBypassed, p1) \<Rightarrow> route_lookup ctx t c (sh\<lparr>sh_protection := Some p1\<rparr>)
              | (Allow ref, p1) \<Rightarrow>
                  route_lookup ctx t (c\<lparr>cn_ip_state := Some ref\<rparr>) (sh\<lparr>sh_protection := Some p1\<rparr>)))"

subsection \<open>Forwarding, connecting, shaking hands\<close>

definition forward_answered :: "conn_context \<Rightarrow> nat \<Rightarrow> nat \<Rightarrow> forward_mode \<Rightarrow> u64 \<Rightarrow> forward_env \<Rightarrow> conn \<Rightarrow> shared \<Rightarrow> conn \<times> shared" where
  "forward_answered ctx t f mode now env c sh =
     (case forward_to_peers env (complete (cn_peek c)) (hello_len (cn_peek c)) f mode (cn_hs_timeout c) now
          (cn_peer c) (cn_local c) (sh_world sh) of
        (Done None, w) \<Rightarrow> return c (sh\<lparr>sh_world := w\<rparr>)
      | (Done (Some k), w) \<Rightarrow> return_error k c (sh\<lparr>sh_world := w\<rparr>)
      | (ServeLocally left, w) \<Rightarrow> suspend_or_serve ctx t (c\<lparr>cn_hs_timeout := left\<rparr>) (sh\<lparr>sh_world := w\<rparr>))"

text \<open>\<open>connect_or_forward\<close>, up to the forward of a failed connect.\<close>

definition local_connected ::
    "conn_context \<Rightarrow> nat \<Rightarrow> effective_route \<Rightarrow> bool \<Rightarrow> (nat \<times> nat) option \<Rightarrow> connect_env \<Rightarrow> conn \<Rightarrow> shared \<Rightarrow> conn \<times> shared" where
  "local_connected ctx t er predicted may_forward env c sh =
     (case connect env (destination_for er predicted) (Some (sa_ip (cn_peer c))) (tcp_health_of c sh) (base (sh_world sh)) of
        (Inr up, st) \<Rightarrow>
          let sh1 = sh\<lparr>sh_world := (sh_world sh)\<lparr>base := st\<rparr>\<rparr>
          in if er_terminate_tls er
             then (c\<lparr>cn_upstream := Some up, cn_phase := AwaitHandshake er predicted,
                     cn_hs_timeout := (case may_forward of Some (_, deadline) \<Rightarrow> deadline - t | None \<Rightarrow> cn_hs_timeout c)\<rparr>, sh1)
             else (c\<lparr>cn_upstream := Some up, cn_phase := AwaitProxy (sf_of c er) False\<rparr>, sh1)
      | (Inl _, st) \<Rightarrow>
          let sh1 = on_route (inc_route_error UpstreamConnect) (rt_identity (the (cn_route c)))
                (sh\<lparr>sh_world := (sh_world sh)\<lparr>base := st\<rparr>\<rparr>)
          in (case may_forward of
                None \<Rightarrow> return c sh1
              | Some (f, deadline) \<Rightarrow> (c\<lparr>cn_phase := AwaitPeers f (deadline - t) (of_nat t)\<rparr>, sh1)))"

definition peers_answered :: "nat \<Rightarrow> nat \<Rightarrow> u64 \<Rightarrow> forward_env \<Rightarrow> conn \<Rightarrow> shared \<Rightarrow> conn \<times> shared" where
  "peers_answered f budget now env c sh =
     (case forward_to_peers env (complete (cn_peek c)) (hello_len (cn_peek c)) f Down budget now
          (cn_peer c) (cn_local c) (sh_world sh) of
        (Done (Some k), w) \<Rightarrow>
          if k = UpstreamConnect then return c (sh\<lparr>sh_world := w\<rparr>) else return_error k c (sh\<lparr>sh_world := w\<rparr>)
      | (_, w) \<Rightarrow> return c (sh\<lparr>sh_world := w\<rparr>))"

definition negotiated_h2 :: "tls_session \<Rightarrow> bool" where
  "negotiated_h2 s \<longleftrightarrow> se_alpn s = Some (str ''h2'')"

text \<open>Whether two protocols select the same field of the route, compared by address.\<close>

definition same_destination :: "effective_route \<Rightarrow> bool \<Rightarrow> bool \<Rightarrow> bool" where
  "same_destination er a b \<longleftrightarrow> er_destination_h2 er = None \<or> a = b"

text \<open>\<open>proxy_via_tls\<close> up to \<open>forward\<close>.\<close>

definition proxy_via_tls :: "effective_route \<Rightarrow> tls_session \<Rightarrow> conn \<Rightarrow> conn" where
  "proxy_via_tls er s c =
     (let sf = sf_of c er;
          sf1 = sf\<lparr>sf_tls := (if sf_mode sf = ProxyProtocolV2 then Some (collect_tls_forward s) else None)\<rparr>
      in c\<lparr>cn_phase := AwaitProxy sf1 (eligible_for_header_rewriting (sf_protocol sf1) (negotiated_h2 s))\<rparr>)"

definition handshake_ended ::
    "effective_route \<Rightarrow> bool \<Rightarrow> tls_session option \<Rightarrow> bool \<Rightarrow> conn \<Rightarrow> shared \<Rightarrow> conn \<times> shared" where
  "handshake_ended er predicted session up_closed c sh =
     (case session of
        None \<Rightarrow> return_error TlsHandshake c sh
      | Some s \<Rightarrow>
          let stale = (\<not> same_destination er predicted (negotiated_h2 s) \<or> up_closed);
              c1 = (if stale then c\<lparr>cn_upstream := None\<rparr> else c);
              sh1 = (if stale then drop_upstream (cn_upstream c) sh else sh)
          in if cn_upstream c1 = None then (c1\<lparr>cn_phase := AwaitUpstream er s\<rparr>, sh1)
             else (proxy_via_tls er s c1, sh1))"

definition upstream_connected :: "effective_route \<Rightarrow> tls_session \<Rightarrow> connect_env \<Rightarrow> conn \<Rightarrow> shared \<Rightarrow> conn \<times> shared" where
  "upstream_connected er s env c sh =
     (case connect env (destination_for er (negotiated_h2 s)) (Some (sa_ip (cn_peer c))) (tcp_health_of c sh)
          (base (sh_world sh)) of
        (Inr up, st) \<Rightarrow> (proxy_via_tls er s (c\<lparr>cn_upstream := Some up\<rparr>), sh\<lparr>sh_world := (sh_world sh)\<lparr>base := st\<rparr>\<rparr>)
      | (Inl _, st) \<Rightarrow> return_error UpstreamConnect c (sh\<lparr>sh_world := (sh_world sh)\<lparr>base := st\<rparr>\<rparr>))"

text \<open>The end of \<open>forward\<close>: the watch and the counting stream are dropped, and the result is counted.\<close>

definition counted :: "io_event list \<Rightarrow> listener_metrics \<times> route_metrics \<Rightarrow> listener_metrics \<times> route_metrics" where
  "counted evs = (\<lambda>(l, r).
     let cs = counting_drop (fold io_step evs (counting_stream_new l (Some r))) in (cs_listener cs, the (cs_route cs)))"

definition watched_end :: "(nat \<times> watched_poll) list \<Rightarrow> shared \<Rightarrow> shared" where
  "watched_end polls sh = sh\<lparr>sh_listener := watch_drop (watched_run polls (half_close_watch_new, sh_listener sh))\<rparr>"

definition proxy_ended :: "conn_context \<Rightarrow> io_event list \<Rightarrow> flow \<Rightarrow> conn \<Rightarrow> shared \<Rightarrow> conn \<times> shared" where
  "proxy_ended ctx evs fl c sh =
     (case forward (cx_idle_timeout ctx) (cx_half_close_timeout ctx) fl of
        None \<Rightarrow> (c, sh)
      | Some (t, res) \<Rightarrow>
          let sh1 = on_route (counted evs) (rt_identity (the (cn_route c)))
                (watched_end (filter (\<lambda>(now, _). now \<le> t) (fl_polls fl)) sh)
          in (case res of None \<Rightarrow> return c sh1 | Some k \<Rightarrow> return_error k c sh1))"

subsection \<open>The state machine\<close>

definition handle_step :: "conn_context \<Rightarrow> nat \<Rightarrow> answer \<Rightarrow> conn \<Rightarrow> shared \<Rightarrow> conn \<times> shared" where
  "handle_step ctx t a c sh =
     (case cn_phase c of
        AwaitHeader \<Rightarrow> (case a of HeaderRead res \<Rightarrow> header_read t res c sh | _ \<Rightarrow> (c, sh))
      | AwaitLoadAnswer _ \<Rightarrow> (case a of AnswerWritten \<Rightarrow> return c sh | _ \<Rightarrow> (c, sh))
      | AwaitPeek \<Rightarrow> (case a of Peeked peek alloc_now \<Rightarrow> peeked ctx t peek alloc_now c sh | _ \<Rightarrow> (c, sh))
      | AwaitForward f mode now \<Rightarrow>
          (case a of Forwarded env \<Rightarrow> forward_answered ctx t f mode now env c sh | _ \<Rightarrow> (c, sh))
      | AwaitResolve i ch \<Rightarrow> (case a of Woken \<Rightarrow> resumed ctx t i ch c sh | _ \<Rightarrow> (c, sh))
      | AwaitLocal er predicted may_forward _ \<Rightarrow>
          (case a of ConnectAnswer env \<Rightarrow> local_connected ctx t er predicted may_forward env c sh | _ \<Rightarrow> (c, sh))
      | AwaitPeers f budget now \<Rightarrow>
          (case a of Forwarded env \<Rightarrow> peers_answered f budget now env c sh | _ \<Rightarrow> (c, sh))
      | AwaitHandshake er predicted \<Rightarrow>
          (case a of HandshakeEnded session up_closed \<Rightarrow> handshake_ended er predicted session up_closed c sh | _ \<Rightarrow> (c, sh))
      | AwaitUpstream er s \<Rightarrow>
          (case a of ConnectAnswer env \<Rightarrow> upstream_connected er s env c sh | _ \<Rightarrow> (c, sh))
      | AwaitProxy _ _ \<Rightarrow> (case a of ProxyEnded evs fl \<Rightarrow> proxy_ended ctx evs fl c sh | _ \<Rightarrow> (c, sh))
      | Finished \<Rightarrow> (c, sh))"

text \<open>A whole run of \<open>handle\<close>, with the answers and their times.\<close>

fun handle_run :: "conn_context \<Rightarrow> (nat \<times> answer) list \<Rightarrow> conn \<Rightarrow> shared \<Rightarrow> conn \<times> shared" where
  "handle_run ctx [] c sh = (c, sh)"
| "handle_run ctx ((t, a) # as) c sh = (case handle_step ctx t a c sh of (c1, sh1) \<Rightarrow> handle_run ctx as c1 sh1)"

end
