(* ===== verification/Conn_Gauges.thy ===== *)
theory Conn_Gauges
  imports Conn
begin

text \<open>
  The gauges of connection handling: whatever the interleaving of connections, reloads, evictions and
  resolutions, each gauge counts exactly the connections that hold it.
\<close>

section \<open>What each operation leaves alone\<close>

lemma connect_identities [simp]: "identities (w\<lparr>base := st\<rparr>) = identities w"
  by simp

lemma update_identities [simp]:
  "identities (update_peer i f w) = identities w"
  "identities (update_status i g w) = identities w"
  "identities (update_spill i h w) = identities w"
  by (simp_all add: update_peer_def update_status_def update_spill_def)

lemma spill_target_identities: "identities (snd (spill_target hash now f ref client w)) = identities w"
  by (simp add: spill_target_def Let_def split: option.split)

lemma decide_identities:
  assumes "decide ing susp down drn sp w = (d, w')" "\<And>w. identities (snd (sp w)) = identities w"
  shows "identities w' = identities w"
  using assms(1) assms(2) [of w] by (auto simp: decide_def split: if_splits option.splits prod.splits)

lemma peer_loop_identities: "identities (snd (peer_loop env f mode hs pre n k is w)) = identities w"
  by (induction env f mode hs pre n k "is" w rule: peer_loop.induct) (auto simp: give_up_def Let_def split: option.split)

lemma forward_to_peers_identities: "identities (snd (forward_to_peers env hc hl f mode hs now p l w)) = identities w"
  by (simp add: forward_to_peers_def give_up_def Let_def peer_loop_identities split: prod.split option.split)

text \<open>Reloads add identities and touch none.\<close>

lemma adopt_peers_identities: "identities (snd (adopt_peers previous addrs w)) = identities w"
  by (induction previous addrs w rule: adopt_peers.induct) (auto simp: Let_def split: option.split prod.split)

lemma failover_new_identities: "identities (snd (failover_new pol previous h same w)) = identities w"
  using adopt_peers_identities [of previous "fp_peers pol" w]
  by (auto simp: failover_new_def adopt_spill_def Let_def split: option.split prod.split)

lemma tcp_health_for_identities: "identities (snd (tcp_health_for now pd pr dest w)) = identities w"
  by (simp add: tcp_health_for_def split: option.split destination.split)

lemma route_failover_identities: "identities (snd (route_failover now pd pr pol r w)) = identities w"
  by (simp add: route_failover_def Let_def case_prod_unfold failover_new_identities tcp_health_for_identities split: option.split)

lemma finish_route_identities:
  assumes "finish_route env now carried pd pr src pol grp r w = (r', w')"
  shows "identities w' = identities w \<and>
   (rt_identity r' = rt_identity r \<or> (\<exists>p. pr = Some p \<and> rt_identity r' = rt_identity p))"
proof -
  have w': "w' = snd (finish_route env now carried pd pr src pol grp r w)"
    and r': "r' = fst (finish_route env now carried pd pr src pol grp r w)" using assms by simp_all
  have "identities w' = identities w"
    by (simp add: w' finish_route_def Let_def case_prod_unfold route_failover_identities split: option.split)
  moreover have "rt_identity r' = rt_identity r \<or> (\<exists>p. pr = Some p \<and> rt_identity r' = rt_identity p)"
    by (simp add: r' finish_route_def Let_def case_prod_unfold split: option.split)
  ultimately show ?thesis by blast
qed

definition unused :: "metric_identity list \<Rightarrow> bool" where
  "unused ids \<longleftrightarrow> (\<forall>x \<in> set ids. rm_active (id_counters x) = 0)"

lemma unused_append [simp]: "unused (xs @ ys) \<longleftrightarrow> unused xs \<and> unused ys" "unused []"
  by (auto simp: unused_def)

lemma build_route_identities:
  "build_route env held now spec ltls inh ts w = (q, ts', w') \<Longrightarrow>
   (\<exists>new. identities w' = identities w @ new \<and> unused new) \<and> (\<forall>r. q = Inr r \<longrightarrow> rt_identity r < length (identities w'))"
  by (auto simp: build_route_def unused_def metric_identity_new_def route_metrics_default_def Let_def split: sum.splits prod.splits if_splits option.splits)

definition routes_in :: "world \<Rightarrow> route_table \<Rightarrow> bool" where
  "routes_in w t \<longleftrightarrow> (\<forall>r \<in> set (table_routes t). rt_identity r < length (identities w))"

lemma get_for_spec_sni_routes: "get_for_spec_sni name t = Some r \<Longrightarrow> r \<in> set (table_routes t)"
  by (auto simp: get_for_spec_sni_def table_routes_def find_Some_iff dest!: map_of_SomeD
      split: option.splits if_splits intro: rev_image_eqI nth_mem)

lemma resolve_with_routes: "resolve_with name dflt t = Some r \<Longrightarrow> r \<in> set (table_routes t)"
  by (auto simp: resolve_with_def table_routes_def Let_def find_Some_iff dest!: map_of_SomeD
      split: option.splits if_splits intro: rev_image_eqI nth_mem)

lemma install_route_routes: "set (table_routes (install_route st name a r t)) \<subseteq> insert r (set (table_routes t))"
  by (auto simp: install_route_def table_routes_def Let_def split: option.splits)

lemma bookkeeping_routes [simp]:
  "table_routes (fail_sni name t) = table_routes t" "table_routes (tombstone name t) = table_routes t"
  "table_routes (note_invalid name x y t) = table_routes t"
  by (simp_all add: table_routes_def fail_sni_def tombstone_def note_invalid_def split: option.split)

definition building_in :: "world \<Rightarrow> building \<Rightarrow> bool" where
  "building_in w b \<longleftrightarrow> (\<exists>new. identities (bw b) = identities w @ new \<and> unused new) \<and> routes_in (bw b) (bt b)"

lemma install_in:
  assumes "building_in w b" "finish_route env now carried pd pr src pol grp r w1 = (r', w')"
    and "identities w1 = identities (bw b) @ new" "unused new" "rt_identity r < length (identities w1)"
    and "\<And>p. pr = Some p \<Longrightarrow> rt_identity p < length (identities w1)" "table_routes t = table_routes (bt b)"
  shows "building_in w (b\<lparr>bt := install_route (base w') name a r' t, bts := ts, bw := w'\<rparr>)"
proof -
  have f: "identities w' = identities w1" "rt_identity r' < length (identities w1)"
    using finish_route_identities [OF assms(2)] assms(5,6) by auto
  have "routes_in w' (install_route (base w') name a r' t)"
    using install_route_routes [of "base w'" name a r' t] f assms(1,3,7)
    by (fastforce simp: routes_in_def building_in_def)
  then show ?thesis using assms(1,3,4) f by (auto simp: building_in_def)
qed

lemma decide_route_in:
  assumes "building_in w b" "\<And>p. previous = Some p \<Longrightarrow> routes_in w p"
  shows "building_in w (decide_route env held now ltls previous spec src b)"
proof -
  define name where "name = rs_sni spec"
  define pr where "pr = (case previous of Some p \<Rightarrow> get_for_spec_sni name p | None \<Rightarrow> None)"
  obtain pol bf bs where pol: "failover_policy_of spec = (pol, bf, bs)" by (metis prod_cases3)
  define pd where "pd = (case pr of Some p \<Rightarrow> is_route_down (bw b) p | None \<Rightarrow> False)"
  define inh where "inh = \<lparr>in_previous = pr, in_track_health = (pol \<noteq> None), in_refuse_new = pd\<rparr>"
  obtain q ts1 w1 where q: "build_route env (\<lambda>c. held c \<or> in_table (bt b) c) now spec ltls inh (bts b) (bw b) = (q, ts1, w1)"
    by (metis prod_cases3)
  obtain new where new: "identities w1 = identities (bw b) @ new" and unused: "unused new" and fresh: "\<And>r. q = Inr r \<Longrightarrow> rt_identity r < length (identities w1)"
    using build_route_identities [OF q] by blast
  have known: "rt_identity p < length (identities w1)" if "pr = Some p" for p
    using that assms get_for_spec_sni_routes new by (fastforce simp: pr_def routes_in_def building_in_def split: option.splits)
  have good: "rt_identity p < length (identities w1)" if "last_good previous name a = Some (p, True)" for p a
    using that assms get_for_spec_sni_routes new
    by (fastforce simp: last_good_def routes_in_def building_in_def split: option.splits)
  have inst: "building_in w (b\<lparr>bt := install_route (base w') name a r' t, bts := ts, bw := w'\<rparr>)"
    if "finish_route env now carried pd pr src pol (rs_metrics_group spec) r w1 = (r', w')"
      "rt_identity r < length (identities w1)" "table_routes t = table_routes (bt b)" for carried r t ts r' w' a
    using install_in [OF assms(1) that(1) new unused that(2) known that(3)] .
  have keep: "building_in w (b\<lparr>bt := t, bts := ts, bw := w1\<rparr>)" if "table_routes t = table_routes (bt b)" for t ts
    using assms(1) new unused that by (auto simp: building_in_def routes_in_def)
  define install where "install = (\<lambda>carried r t ts w.
     let (r', w') = finish_route env now carried pd pr src pol (rs_metrics_group spec) r w
     in b\<lparr>bt := install_route (base w') name (client_auth_of (be_sha256 env) spec ltls) r' t, bts := ts, bw := w'\<rparr>)"
  define t where "t = note_invalid name bf bs (bt b)"
  have inst': "building_in w (install carried r u ts w1)"
    if "rt_identity r < length (identities w1)" "table_routes u = table_routes (bt b)" for carried r u ts
    using inst [OF _ that] by (auto simp: install_def Let_def split: prod.split)
  have eq: "decide_route env held now ltls previous spec src b = (case q of Inr r \<Rightarrow> install False r t ts1 w1
      | Inl e \<Rightarrow> (case last_good previous name (client_auth_of (be_sha256 env) spec ltls) of
            Some (p, True) \<Rightarrow> install True p (fail_sni name t) ts1 w1
          | _ \<Rightarrow> b\<lparr>bt := tombstone name (fail_sni name t), bts := ts1, bw := w1\<rparr>))"
    unfolding decide_route_def Let_def pol prod.case name_def [symmetric] pr_def [symmetric] pd_def [symmetric]
      inh_def [symmetric] t_def [symmetric] install_def q by (auto split: sum.splits)
  have t: "table_routes t = table_routes (bt b)" by (simp add: t_def)
  show ?thesis
  proof (cases q)
    case (Inr r)
    then show ?thesis using inst' [OF fresh t] by (simp add: eq)
  next
    case (Inl e)
    have "table_routes (fail_sni name t) = table_routes (bt b)" "table_routes (tombstone name (fail_sni name t)) = table_routes (bt b)"
      using t by simp_all
    then show ?thesis using Inl keep inst' good by (auto simp: eq split: option.split prod.split bool.split)
  qed
qed

lemma add_spec_in:
  assumes "building_in w b" "\<And>p. previous = Some p \<Longrightarrow> routes_in w p"
  shows "building_in w (add_spec env held clock ltls previous specs x b)"
proof -
  have adm: "building_in w (admit_spec env held now ltls previous spec b')" if "building_in w b'" for now spec b'
    using decide_route_in [OF that assms(2)] that
    by (auto simp: admit_spec_def building_in_def routes_in_def split: option.split sum.split)
  have "building_in w (b\<lparr>configured_wildcards := S\<rparr>)" "building_in w (b\<lparr>bt := fail_sni n (bt b)\<rparr>)" for S n
    using assms(1) by (simp_all add: building_in_def routes_in_def)
  then show ?thesis using adm assms(1) by (auto simp: add_spec_def Let_def split: prod.split option.split)
qed

lemma build_route_table_in:
  assumes "build_route_table env held clock specs ltls (Some t) ts w = (t', ts', w')" "routes_in w t"
  shows "(\<exists>new. identities w' = identities w @ new \<and> unused new) \<and> routes_in w' t'"
proof -
  define b0 where "b0 = \<lparr>bt = route_table_empty, configured_wildcards = {},
    bts = ts\<lparr>tcache := clear_used held (tcache ts)\<rparr>, bw = w\<rparr>"
  have "building_in w (fold (add_spec env held clock ltls (Some t) specs) xs b)" if "building_in w b" for xs b
    using that
  proof (induction xs arbitrary: b)
    case (Cons x xs)
    then show ?case using add_spec_in [OF Cons.prems, of "Some t"] assms(2) by simp
  qed simp
  moreover have "building_in w b0" by (simp add: b0_def building_in_def routes_in_def table_routes_def route_table_empty_def)
  moreover define b where "b = fold (add_spec env held clock ltls (Some t) specs) (enumerate 0 specs) b0"
  ultimately have "building_in w b" by blast
  moreover obtain ids where "t' = (bt b)\<lparr>metric_identities := ids\<rparr>" "w' = bw b"
    using assms(1) unfolding build_route_table_def Let_def b0_def [symmetric] b_def [symmetric] by blast
  moreover have "table_routes (x\<lparr>metric_identities := ids\<rparr>) = table_routes x" for x by (simp add: table_routes_def)
  ultimately show ?thesis by (simp add: building_in_def routes_in_def)
qed

section \<open>Gauges\<close>

definition live :: "conn \<Rightarrow> bool" where
  "live c \<longleftrightarrow> cn_phase c \<noteq> Finished"

definition awaiting :: "conn \<Rightarrow> bool" where
  "awaiting c = (case cn_phase c of AwaitResolve _ _ \<Rightarrow> True | _ \<Rightarrow> False)"

definition on_identity :: "nat \<Rightarrow> conn \<Rightarrow> bool" where
  "on_identity i c = (case cn_route c of Some r \<Rightarrow> rt_identity r = i | None \<Rightarrow> False)"

definition route_count_of :: "shared \<Rightarrow> nat" where
  "route_count_of sh = length (identities (sh_world sh))"

definition listener_gauge :: "shared \<Rightarrow> u64" where
  "listener_gauge sh = lm_active (sh_listener sh)"

definition global_gauge :: "shared \<Rightarrow> u64" where
  "global_gauge sh = gm_active (sh_global sh)"

definition suspended_gauge :: "shared \<Rightarrow> u64" where
  "suspended_gauge sh = gm_pending_suspended (sh_global sh)"

definition route_gauge :: "nat \<Rightarrow> shared \<Rightarrow> u64" where
  "route_gauge i sh = rm_active (id_counters (identities (sh_world sh) ! i))"

lemmas gauge_defs = route_count_of_def listener_gauge_def global_gauge_def suspended_gauge_def route_gauge_def

text \<open>\<open>same_gauges\<close>: an update of the shared state that no gauge sees. \<open>moved\<close>: the gauges change by exactly
  what the connection takes and gives up.\<close>

definition same_gauges :: "shared \<Rightarrow> shared \<Rightarrow> bool" where
  "same_gauges sh sh' \<longleftrightarrow> route_count_of sh' = route_count_of sh \<and> listener_gauge sh' = listener_gauge sh \<and>
     global_gauge sh' = global_gauge sh \<and> suspended_gauge sh' = suspended_gauge sh \<and>
     (\<forall>i < route_count_of sh. route_gauge i sh' = route_gauge i sh)"

definition moved :: "conn \<Rightarrow> shared \<Rightarrow> conn \<times> shared \<Rightarrow> bool" where
  "moved c sh = (\<lambda>(c', sh').
     route_count_of sh' = route_count_of sh \<and>
     listener_gauge sh' = listener_gauge sh + of_bool (live c') - of_bool (live c) \<and>
     global_gauge sh' = global_gauge sh + of_bool (live c') - of_bool (live c) \<and>
     suspended_gauge sh' = suspended_gauge sh + of_bool (awaiting c') - of_bool (awaiting c) \<and>
     (\<forall>i < route_count_of sh. route_gauge i sh' = route_gauge i sh + of_bool (on_identity i c') - of_bool (on_identity i c)))"

definition route_ok :: "conn \<Rightarrow> shared \<Rightarrow> bool" where
  "route_ok c sh = (case cn_route c of
     Some r \<Rightarrow> rt_identity r < route_count_of sh \<and> route_gauge (rt_identity r) sh \<noteq> 0 | None \<Rightarrow> True)"

definition settled :: "conn \<Rightarrow> shared \<Rightarrow> bool" where
  "settled c sh \<longleftrightarrow> live c \<and> \<not> awaiting c \<and> route_ok c sh"

lemma moved_trans: "moved c sh (c1, sh1) \<Longrightarrow> moved c1 sh1 x \<Longrightarrow> moved c sh x"
  by (cases x) (auto simp: moved_def)

lemma moved_quiet: "same_gauges sh sh1 \<Longrightarrow> moved c sh1 x \<Longrightarrow> moved c sh x"
  by (cases x) (auto simp: moved_def same_gauges_def)

lemma settled_quiet: "same_gauges sh sh1 \<Longrightarrow> settled c sh \<Longrightarrow> settled c sh1"
  by (auto simp: settled_def route_ok_def same_gauges_def split: option.splits)

lemma same_gauges_trans: "same_gauges a b \<Longrightarrow> same_gauges b c \<Longrightarrow> same_gauges a c"
  by (simp add: same_gauges_def)

lemma same_gauges_updates [simp]:
  "same_gauges sh sh" "same_gauges sh (sh\<lparr>sh_protection := p\<rparr>)" "same_gauges sh (sh\<lparr>sh_registry := r\<rparr>)"
  "same_gauges sh (emit e sh)" "same_gauges sh (blocked k sh)"
  "same_gauges sh (sh\<lparr>sh_listener := lm_inc_error k2 (sh_listener sh)\<rparr>)"
  "same_gauges sh (sh\<lparr>sh_listener := lm_inc_load_query (sh_listener sh)\<rparr>)"
  by (simp_all add: same_gauges_def gauge_defs emit_def blocked_def lm_inc_blocked_def lm_inc_error_def lm_inc_load_query_def)

lemma same_gauges_world: "identities w = identities (sh_world sh) \<Longrightarrow> same_gauges sh (sh\<lparr>sh_world := w\<rparr>)"
  by (simp add: same_gauges_def gauge_defs)

lemma on_route_gauges:
  assumes "\<And>l r. lm_active (fst (f (l, r))) = lm_active l \<and> rm_active (snd (f (l, r))) = rm_active r"
  shows "same_gauges sh (on_route f i sh)"
  using assms [of "sh_listener sh" "id_counters (identities (sh_world sh) ! i)"]
  by (auto simp: same_gauges_def gauge_defs on_route_def Let_def case_prod_unfold nth_list_update_at)

lemma count_gauges [simp]: "same_gauges sh (on_route (inc_route_error k) i sh)" "same_gauges sh (on_route (inc_route_blocked b) i sh)"
  by (rule on_route_gauges,
      simp add: inc_route_error_def lm_inc_error_def rm_inc_error_def inc_route_blocked_def lm_inc_blocked_def rm_inc_blocked_def)+

lemma io_step_active: "lm_active (cs_listener (fold io_step evs cs)) = lm_active (cs_listener cs) \<and>
    map_option rm_active (cs_route (fold io_step evs cs)) = map_option rm_active (cs_route cs)"
proof (induction evs arbitrary: cs)
  case (Cons e evs)
  have "lm_active (cs_listener (io_step e cs)) = lm_active (cs_listener cs) \<and>
      map_option rm_active (cs_route (io_step e cs)) = map_option rm_active (cs_route cs)"
    by (cases e) (auto simp: counting_poll_read_def counting_poll_write_def record_in_def record_out_def publish_in_def
        publish_out_def lm_add_bytes_in_def lm_add_bytes_out_def rm_add_bytes_in_def rm_add_bytes_out_def Let_def
        option.map_comp comp_def split: option.split)
  then show ?case using Cons.IH [of "io_step e cs"] by simp
qed simp

lemma counted_gauges [simp]: "same_gauges sh (on_route (counted evs) i sh)"
proof (rule on_route_gauges)
  fix l r
  define cs where "cs = fold io_step evs (counting_stream_new l (Some r))"
  have "lm_active (cs_listener cs) = lm_active l" "map_option rm_active (cs_route cs) = Some (rm_active r)"
    using io_step_active [of evs "counting_stream_new l (Some r)"] by (simp_all add: cs_def counting_stream_new_def)
  then obtain r1 where "lm_active (cs_listener cs) = lm_active l" "cs_route cs = Some r1" "rm_active r1 = rm_active r" by auto
  then show "lm_active (fst (counted evs (l, r))) = lm_active l \<and> rm_active (snd (counted evs (l, r))) = rm_active r"
    unfolding counted_def Let_def prod.case cs_def [symmetric]
    by (simp add: counting_drop_def publish_in_def publish_out_def lm_add_bytes_in_def lm_add_bytes_out_def
        rm_add_bytes_in_def rm_add_bytes_out_def Let_def)
qed

lemma watched_gauges [simp]: "same_gauges sh (watched_end polls sh)"
proof -
  have "lm_active (snd (watched_run polls (w, m))) = lm_active m" for w m
    using watched_run_gauge [of polls w m] by (simp add: lm_inc_half_closed_def)
  then show ?thesis
    by (auto simp: same_gauges_def gauge_defs watched_end_def watch_drop_def lm_dec_half_closed_def case_prod_unfold)
qed

section \<open>Every step is balanced\<close>

lemma return_moved:
  assumes "settled c sh"
  shows "moved c sh (return c sh)"
proof -
  define sh1 where "sh1 = drop_upstream (cn_upstream c) sh"
  have g1: "same_gauges sh sh1"
    by (simp add: sh1_def drop_upstream_def same_gauges_world split: option.split)
  have "moved c sh1 (return c sh)"
  proof (cases "cn_route c")
    case None
    then show ?thesis using assms
      by (simp add: return_def sh1_def [symmetric] moved_def gauge_defs active_guard_drop_def live_def awaiting_def on_identity_def
          settled_def gm_dec_active_def lm_dec_active_def split: phase.splits)
  next
    case (Some r)
    then have r: "rt_identity r < route_count_of sh1" "route_gauge (rt_identity r) sh1 \<noteq> 0"
      using settled_quiet [OF g1 assms] by (simp_all add: settled_def route_ok_def)
    then show ?thesis using assms Some
      by (auto simp: return_def sh1_def [symmetric] moved_def gauge_defs active_guard_drop_def live_def awaiting_def on_identity_def
          settled_def gm_dec_active_def lm_dec_active_def route_guard_drop_def on_route_def Let_def rm_dec_active_def
          nth_list_update_at split: phase.splits)
  qed
  then show ?thesis by (rule moved_quiet [OF g1])
qed

lemma return_count_moved:
  assumes "settled c sh"
  shows "moved c sh (return_error k c sh)" "moved c sh (return_blocked b c sh)"
  by (simp_all add: return_error_def return_blocked_def moved_quiet [OF _ return_moved] settled_quiet [OF _ assms])

lemma moved_phase:
  assumes "settled c sh" "cn_route c' = cn_route c" "live c'" "\<not> awaiting c'"
  shows "moved c sh (c', sh)"
  using assms by (simp add: moved_def settled_def on_identity_def)

lemma serve_moved: "settled c sh \<Longrightarrow> moved c sh (serve ctx t er c sh)"
  by (auto simp: serve_def Let_def return_count_moved live_def awaiting_def intro!: moved_phase split: option.split)

lemma suspend_or_serve_moved:
  assumes "settled c sh"
  shows "moved c sh (suspend_or_serve ctx t c sh)"
proof (cases "rt_suspended (the (cn_route c))")
  case True
  obtain i ch reg where "register (sh_registry sh) = ((i, ch), reg)" by (metis prod.collapse)
  then show ?thesis using assms True
    by (auto simp: suspend_or_serve_def moved_def settled_def gauge_defs emit_def live_def awaiting_def on_identity_def
        gm_inc_suspended_def split: phase.splits)
next
  case False
  then show ?thesis using serve_moved [OF assms] by (simp add: suspend_or_serve_def)
qed

lemma choose_server_moved:
  assumes "settled c sh"
  shows "moved c sh (choose_server ctx t c sh)"
proof (cases "rt_failover (the (cn_route c))")
  case None
  then show ?thesis by (simp add: choose_server_def suspend_or_serve_moved [OF assms])
next
  case (Some f)
  define fo where "fo = failovers (sh_world sh) ! f"
  define sp where "sp = (\<lambda>w. case fo_spill fo of
    Some (_, ref) \<Rightarrow> spill_target (cx_spill_hash ctx) (of_nat t) fo ref (cn_peer c) w | None \<Rightarrow> (None, w))"
  have sp: "identities (snd (sp w)) = identities w" for w
    by (simp add: sp_def spill_target_identities split: option.split prod.split)
  obtain d w where d: "decide (cx_ingress ctx \<noteq> None) (rt_suspended (the (cn_route c)))
      (locally_down (sh_world sh) fo (rt_destination (the (cn_route c))) (rt_destination_h2 (the (cn_route c)))) (drain fo)
      sp (sh_world sh) = (d, w)" by fastforce
  have g: "same_gauges sh (sh\<lparr>sh_world := w\<rparr>)" by (rule same_gauges_world) (rule decide_identities [OF d sp])
  note s = settled_quiet [OF g assms]
  have "moved c (sh\<lparr>sh_world := w\<rparr>) (choose_server ctx t c sh)"
    using d return_count_moved [OF s] suspend_or_serve_moved [OF s] moved_phase [OF s]
    by (cases d) (simp_all add: choose_server_def Let_def Some fo_def [symmetric] sp_def [symmetric] live_def awaiting_def)
  then show ?thesis by (rule moved_quiet [OF g])
qed

lemma admit_route_moved:
  assumes "settled c sh"
  shows "moved c sh (admit_route ctx t c sh)"
proof -
  have g: "same_gauges sh (sh\<lparr>sh_world := (sh_world sh)\<lparr>buckets := bs\<rparr>\<rparr>)" for bs
    by (rule same_gauges_world) simp
  show ?thesis
    using return_count_moved [OF assms] choose_server_moved [OF assms]
      moved_quiet [OF g choose_server_moved] moved_quiet [OF g return_count_moved(1)] settled_quiet [OF g assms]
    by (auto simp: admit_route_def Let_def split: option.split prod.split)
qed

text \<open>A guard is new for its connection: the gauge goes up by one.\<close>

lemma route_guard_new_moved:
  assumes "settled c sh" "cn_route c = None" "rt_identity r < route_count_of sh" "\<And>i. i < route_count_of sh \<Longrightarrow> route_gauge i sh \<noteq> - 1"
  shows "moved c sh (c\<lparr>cn_route := Some r\<rparr>, route_guard_new (rt_identity r) sh)"
    and "settled (c\<lparr>cn_route := Some r\<rparr>) (route_guard_new (rt_identity r) sh)"
proof -
  have g: "route_gauge i (route_guard_new (rt_identity r) sh) = route_gauge i sh + of_bool (rt_identity r = i)"
    if "i < route_count_of sh" for i
    using that by (simp add: route_guard_new_def on_route_def gauge_defs Let_def rm_inc_active_def nth_list_update_at)
  have o: "route_count_of (route_guard_new (rt_identity r) sh) = route_count_of sh"
      "listener_gauge (route_guard_new (rt_identity r) sh) = listener_gauge sh"
      "global_gauge (route_guard_new (rt_identity r) sh) = global_gauge sh"
      "suspended_gauge (route_guard_new (rt_identity r) sh) = suspended_gauge sh"
    by (simp_all add: route_guard_new_def on_route_def gauge_defs Let_def)
  show "moved c sh (c\<lparr>cn_route := Some r\<rparr>, route_guard_new (rt_identity r) sh)"
    using assms(2) by (simp add: moved_def o g live_def awaiting_def on_identity_def)
  have "route_gauge (rt_identity r) sh + 1 \<noteq> 0" using assms(4) [OF assms(3)] by (metis add.commute add_eq_0_iff)
  then show "settled (c\<lparr>cn_route := Some r\<rparr>) (route_guard_new (rt_identity r) sh)"
    using assms(1,3) by (simp add: settled_def route_ok_def o g live_def awaiting_def)
qed

text \<open>The steps before a route is chosen start from a connection without one.\<close>

definition fits :: "shared \<Rightarrow> bool" where
  "fits sh \<longleftrightarrow> routes_in (sh_world sh) (sh_table sh) \<and> (\<forall>i < route_count_of sh. route_gauge i sh \<noteq> - 1)"

lemma fits_protection [simp]: "fits (sh\<lparr>sh_protection := p\<rparr>) = fits sh"
  by (simp add: fits_def gauge_defs)

lemma route_lookup_moved:
  assumes "settled c sh" "cn_route c = None" "fits sh"
  shows "moved c sh (route_lookup ctx t c sh)"
proof (cases "resolve_with (sni (cn_peek c)) (cx_ingress ctx = None) (sh_table sh)")
  case None
  have g: "same_gauges sh (sh\<lparr>sh_listener := lm_inc_error NoRoute (sh_listener sh)\<rparr>)" by simp
  show ?thesis using moved_quiet [OF g return_moved [OF settled_quiet [OF g assms(1)]]] None by (simp add: route_lookup_def)
next
  case (Some r)
  have "rt_identity r < route_count_of sh"
    using resolve_with_routes [OF Some] assms(3) by (simp add: fits_def routes_in_def route_count_of_def)
  then have m: "moved c sh (c\<lparr>cn_route := Some r\<rparr>, route_guard_new (rt_identity r) sh)"
      "settled (c\<lparr>cn_route := Some r\<rparr>) (route_guard_new (rt_identity r) sh)"
    using route_guard_new_moved assms by (auto simp: fits_def)
  show ?thesis using moved_trans [OF m(1) admit_route_moved [OF m(2)]] Some by (simp add: route_lookup_def)
qed

lemma peeked_moved:
  assumes "settled c sh" "cn_route c = None" "fits sh"
  shows "moved c sh (peeked ctx t peek alloc_now c sh)"
proof -
  have c1: "moved c sh (c\<lparr>cn_peek := peek, cn_ip_state := s\<rparr>, sh)" "settled (c\<lparr>cn_peek := peek, cn_ip_state := s\<rparr>) sh" for s
    using assms(1) by (simp_all add: moved_def settled_def live_def awaiting_def on_identity_def route_ok_def)
  have c2: "moved c sh (c\<lparr>cn_peek := peek\<rparr>, sh)" "settled (c\<lparr>cn_peek := peek\<rparr>) sh"
    using assms(1) by (simp_all add: moved_def settled_def live_def awaiting_def on_identity_def route_ok_def)
  have p: "same_gauges sh (sh\<lparr>sh_protection := p1\<rparr>)" for p1 by simp
  have look: "moved c sh (route_lookup ctx t (c\<lparr>cn_peek := peek, cn_ip_state := s\<rparr>) (sh\<lparr>sh_protection := p1\<rparr>))" for s p1
    by (rule moved_trans [OF c1(1)], rule moved_quiet [OF p], rule route_lookup_moved)
       (use assms settled_quiet [OF p c1(2)] in simp_all)
  have look2: "moved c sh (route_lookup ctx t (c\<lparr>cn_peek := peek\<rparr>) (sh\<lparr>sh_protection := p1\<rparr>))" for p1
    by (rule moved_trans [OF c2(1)], rule moved_quiet [OF p], rule route_lookup_moved)
       (use assms settled_quiet [OF p c2(2)] in simp_all)
  have look3: "moved c sh (route_lookup ctx t (c\<lparr>cn_peek := peek\<rparr>) sh)"
    by (rule moved_trans [OF c2(1)], rule route_lookup_moved) (use assms c2(2) in simp_all)
  have q: "same_gauges sh (emit e (blocked k (sh\<lparr>sh_protection := p1\<rparr>)))" for e k p1
    using same_gauges_trans [OF same_gauges_trans [OF p same_gauges_updates(5)] same_gauges_updates(4)] .
  have blk: "moved c sh (return (c\<lparr>cn_peek := peek\<rparr>) (emit e (blocked k (sh\<lparr>sh_protection := p1\<rparr>))))" for e k p1
    by (rule moved_trans [OF c2(1)], rule moved_quiet [OF q], rule return_moved, rule settled_quiet [OF q c2(2)])
  show ?thesis
    using look look2 look3 blk by (auto simp: peeked_def Let_def split: option.split prod.split decision.split)
qed

lemma header_read_moved:
  assumes "settled c sh"
  shows "moved c sh (header_read t res c sh)"
proof -
  have g: "same_gauges sh (blocked k sh)" for k by simp
  have l: "same_gauges sh (snd (answer_load_query now names sh))" for now names by (simp add: answer_load_query_def)
  have "moved c sh (c\<lparr>cn_phase := AwaitLoadAnswer (fst (answer_load_query now names sh))\<rparr>, snd (answer_load_query now names sh))"
    for now names
    by (rule moved_quiet [OF l], rule moved_phase [OF settled_quiet [OF l assms]]) (simp_all add: live_def awaiting_def)
  moreover have "moved c sh (c\<lparr>cn_peer := p, cn_phase := AwaitPeek\<rparr>, sh)" for p
    by (rule moved_phase [OF assms]) (simp_all add: live_def awaiting_def)
  moreover have "moved c sh (return c (blocked k sh))" for k
    by (rule moved_quiet [OF g], rule return_moved, rule settled_quiet [OF g assms])
  ultimately show ?thesis by (simp add: header_read_def case_prod_unfold split: sum.split header.split)
qed

lemma forward_answered_moved:
  assumes "settled c sh"
  shows "moved c sh (forward_answered ctx t f mode now env c sh)" "moved c sh (peers_answered f budget now env c sh)"
proof -
  have s: "moved c sh (X (sh\<lparr>sh_world := w\<rparr>))" if "identities w = identities (sh_world sh)" "\<And>sh'. settled c sh' \<Longrightarrow> moved c sh' (X sh')"
    for w and X :: "shared \<Rightarrow> conn \<times> shared"
    using moved_quiet [OF same_gauges_world] settled_quiet [OF same_gauges_world assms] that by blast
  have loc: "settled c sh' \<Longrightarrow> moved c sh' (suspend_or_serve ctx t (c\<lparr>cn_hs_timeout := left\<rparr>) sh')" for sh' left
  proof -
    assume a: "settled c sh'"
    then have "moved c sh' (c\<lparr>cn_hs_timeout := left\<rparr>, sh')" "settled (c\<lparr>cn_hs_timeout := left\<rparr>) sh'"
      by (simp_all add: moved_def settled_def live_def awaiting_def on_identity_def route_ok_def)
    then show ?thesis using moved_trans suspend_or_serve_moved by blast
  qed
  define r where "r = forward_to_peers env (complete (cn_peek c)) (hello_len (cn_peek c)) f mode (cn_hs_timeout c) now
          (cn_peer c) (cn_local c) (sh_world sh)"
  have i: "identities (snd r) = identities (sh_world sh)" by (simp add: r_def forward_to_peers_identities)
  have "forward_answered ctx t f mode now env c sh = (case r of
        (Done None, w) \<Rightarrow> return c (sh\<lparr>sh_world := w\<rparr>)
      | (Done (Some k), w) \<Rightarrow> return_error k c (sh\<lparr>sh_world := w\<rparr>)
      | (ServeLocally left, w) \<Rightarrow> suspend_or_serve ctx t (c\<lparr>cn_hs_timeout := left\<rparr>) (sh\<lparr>sh_world := w\<rparr>))"
    by (simp add: forward_answered_def r_def)
  then show "moved c sh (forward_answered ctx t f mode now env c sh)"
    using s [of "snd r" "return c", OF i return_moved] s [of "snd r" "return_error k c" for k, OF i return_count_moved(1)]
      s [of "snd r" "suspend_or_serve ctx t (c\<lparr>cn_hs_timeout := left\<rparr>)" for left, OF i loc]
    by (cases r) (auto split: forwarded.split option.split)
  define r2 where "r2 = forward_to_peers env (complete (cn_peek c)) (hello_len (cn_peek c)) f Down budget now
          (cn_peer c) (cn_local c) (sh_world sh)"
  have i2: "identities (snd r2) = identities (sh_world sh)" by (simp add: r2_def forward_to_peers_identities)
  then show "moved c sh (peers_answered f budget now env c sh)"
    using s [of "snd r2" "return c", OF i2 return_moved] s [of "snd r2" "return_error k c" for k, OF i2 return_count_moved(1)]
    unfolding peers_answered_def r2_def [symmetric]
    by (cases r2) (auto split: forwarded.split option.split)
qed

lemma moved_phase_quiet:
  assumes "settled c sh" "same_gauges sh sh'" "cn_route c' = cn_route c" "live c'" "\<not> awaiting c'"
  shows "moved c sh (c', sh')"
  using moved_quiet [OF assms(2) moved_phase [OF settled_quiet [OF assms(2,1)] assms(3-5)]] .

lemma return_quiet:
  assumes "settled c sh" "same_gauges sh sh'"
  shows "moved c sh (return c sh')" "moved c sh (return_error k c sh')"
  using moved_quiet [OF assms(2) return_moved] moved_quiet [OF assms(2) return_count_moved(1)] settled_quiet [OF assms(2,1)] by blast+

lemma same_gauges_base [simp]: "same_gauges sh (sh\<lparr>sh_world := (sh_world sh)\<lparr>base := st\<rparr>\<rparr>)"
  by (rule same_gauges_world) simp

lemma same_gauges_base_error [simp]:
  "same_gauges sh (on_route (inc_route_error k) i (sh\<lparr>sh_world := (sh_world sh)\<lparr>base := st\<rparr>\<rparr>))"
  by (rule same_gauges_trans [OF same_gauges_base count_gauges(1)])

lemma local_connected_moved:
  assumes "settled c sh"
  shows "moved c sh (local_connected ctx t er predicted may_forward env c sh)"
  by (auto simp: local_connected_def Let_def live_def awaiting_def intro!: moved_phase_quiet [OF assms] return_quiet [OF assms]
      split: prod.split sum.split option.split)

lemma handshake_ended_moved:
  assumes "settled c sh"
  shows "moved c sh (handshake_ended er predicted session up_closed c sh)"
proof -
  have "same_gauges sh (drop_upstream u sh)" for u by (simp add: drop_upstream_def split: option.split)
  then show ?thesis
    by (auto simp: handshake_ended_def proxy_via_tls_def Let_def live_def awaiting_def
        intro!: moved_phase_quiet [OF assms] return_count_moved [OF assms] split: option.split)
qed

lemma upstream_connected_moved:
  assumes "settled c sh"
  shows "moved c sh (upstream_connected er s env c sh)"
  by (auto simp: upstream_connected_def proxy_via_tls_def Let_def live_def awaiting_def
      intro!: moved_phase_quiet [OF assms] return_quiet [OF assms] split: prod.split sum.split)

lemma proxy_ended_moved:
  assumes "settled c sh"
  shows "moved c sh (proxy_ended ctx evs fl c sh)"
proof -
  have g: "same_gauges sh (on_route (counted evs) i (watched_end polls sh))" for i polls
    by (rule same_gauges_trans [OF watched_gauges counted_gauges])
  show ?thesis
  proof (cases "forward (cx_idle_timeout ctx) (cx_half_close_timeout ctx) fl")
    case None
    have "moved c sh (c, sh)" by (simp add: moved_def)
    then show ?thesis by (simp add: proxy_ended_def None)
  next
    case (Some tr)
    obtain u res where "tr = (u, res)" by fastforce
    then show ?thesis by (cases res) (simp_all add: proxy_ended_def Some Let_def return_quiet [OF assms g])
  qed
qed

text \<open>A suspended connection leaves the gauge of suspended connections whichever way it goes on.\<close>

lemma phase_irrelevant:
  "serve ctx t er (c\<lparr>cn_phase := p\<rparr>) sh = serve ctx t er c sh"
  "return_error k (c\<lparr>cn_phase := p\<rparr>) sh = return_error k c sh"
  "return_blocked b (c\<lparr>cn_phase := p\<rparr>) sh = return_blocked b c sh"
  by (simp_all add: serve_def return_error_def return_blocked_def return_def Let_def cong: option.case_cong if_cong)

lemma resumed_moved:
  assumes "cn_phase c = AwaitResolve i ch" "route_ok c sh"
  shows "moved c sh (resumed ctx t i ch c sh)"
proof -
  define c1 where "c1 = c\<lparr>cn_phase := AwaitPeek\<rparr>"
  have step: "moved c sh (X (sh\<lparr>sh_registry := reg, sh_global := gm_dec_suspended b (sh_global sh)\<rparr>))"
    if "\<And>sh'. settled c1 sh' \<Longrightarrow> moved c1 sh' (X sh')" for X b reg
  proof -
    let ?sh = "sh\<lparr>sh_registry := reg, sh_global := gm_dec_suspended b (sh_global sh)\<rparr>"
    have "moved c sh (c1, ?sh)"
      using assms(1) by (simp add: moved_def gauge_defs c1_def live_def awaiting_def on_identity_def gm_dec_suspended_def Let_def)
    moreover have "settled c1 ?sh"
      using assms(2) by (auto simp: settled_def c1_def live_def awaiting_def route_ok_def gauge_defs split: option.splits)
    ultimately show ?thesis using moved_trans that by blast
  qed
  have s: "moved c sh (serve ctx t er c (sh\<lparr>sh_global := gm_dec_suspended b (sh_global sh)\<rparr>))" for er b
    using step [of "serve ctx t er c" b "sh_registry sh"] serve_moved [of c1] by (simp add: c1_def phase_irrelevant)
  have k: "moved c sh (return_blocked k c (sh\<lparr>sh_global := gm_dec_suspended b (sh_global sh)\<rparr>))" for k b
    using step [of "return_blocked k c" b "sh_registry sh"] return_count_moved(2) [of c1] by (simp add: c1_def phase_irrelevant)
  have e: "moved c sh (return_error k c (sh\<lparr>sh_registry := reg, sh_global := gm_dec_suspended b (sh_global sh)\<rparr>))" for k b reg
    using step [of "return_error k c"] return_count_moved(1) [of c1] by (simp add: c1_def phase_irrelevant)
  show ?thesis using s k e by (auto simp: resumed_def Let_def split: oneshot.split option.split)
qed

lemma handle_step_moved:
  assumes "route_ok c sh" "fits sh" "cn_phase c \<in> {AwaitHeader, AwaitPeek} \<Longrightarrow> cn_route c = None"
  shows "moved c sh (handle_step ctx t a c sh)"
proof -
  have idle: "moved c sh (c, sh)" by (simp add: moved_def)
  have s: "settled c sh" if "cn_phase c \<noteq> Finished" "\<And>i ch. cn_phase c \<noteq> AwaitResolve i ch"
    using that assms(1) by (auto simp: settled_def live_def awaiting_def split: phase.split)
  show ?thesis
    using idle s assms
    by (cases "cn_phase c"; cases a)
       (simp_all add: handle_step_def header_read_moved return_moved peeked_moved forward_answered_moved resumed_moved
         local_connected_moved handshake_ended_moved upstream_connected_moved proxy_ended_moved)
qed

section \<open>Where a connection stands\<close>

text \<open>The route of a connection is set once, after the checks, and given up when it ends.\<close>

definition phase_ok :: "conn \<Rightarrow> bool" where
  "phase_ok c \<longleftrightarrow> (cn_phase c \<in> {AwaitHeader, AwaitPeek, Finished} \<longrightarrow> cn_route c = None)"

definition kept :: "route option \<Rightarrow> conn \<times> shared \<Rightarrow> bool" where
  "kept r = (\<lambda>(c', _). phase_ok c' \<and> (cn_route c' = None \<or> cn_route c' = r))"

lemma kept_pair: "kept r (c', sh') \<longleftrightarrow> phase_ok c' \<and> (cn_route c' = None \<or> cn_route c' = r)"
  by (simp add: kept_def)

lemma kept_return: "kept r (return c sh)" "kept r (return_error k c sh)" "kept r (return_blocked b c sh)"
  by (simp_all add: kept_pair return_def return_error_def return_blocked_def phase_ok_def)

lemma kept_serve: "kept (cn_route c) (serve ctx t er c sh)"
  by (cases "er_tls_config er") (auto simp: serve_def Let_def kept_return kept_pair phase_ok_def)

lemma kept_suspend_or_serve: "kept (cn_route c) (suspend_or_serve ctx t c sh)"
  by (auto simp: suspend_or_serve_def Let_def kept_serve split: prod.split) (simp_all add: kept_pair phase_ok_def)

lemma kept_choose_server: "kept (cn_route c) (choose_server ctx t c sh)"
  by (auto simp: choose_server_def Let_def kept_suspend_or_serve kept_return split: option.split prod.split route_decision.split)
     (simp_all add: kept_pair phase_ok_def)

lemma kept_admit_route: "kept (cn_route c) (admit_route ctx t c sh)"
  by (auto simp: admit_route_def Let_def kept_choose_server kept_return split: option.split prod.split)

lemma kept_route_lookup:
  "kept (resolve_with (sni (cn_peek c)) (cx_ingress ctx = None) (sh_table sh)) (route_lookup ctx t c sh)"
  using kept_admit_route [of "c\<lparr>cn_route := Some r\<rparr>" for r] by (simp add: route_lookup_def kept_return split: option.split)

definition in_shared :: "shared \<Rightarrow> conn \<Rightarrow> bool" where
  "in_shared sh c \<longleftrightarrow> phase_ok c \<and> (\<forall>r. cn_route c = Some r \<longrightarrow> rt_identity r < route_count_of sh)"

lemma kept_in_shared:
  "kept r x \<Longrightarrow> (\<And>r'. r = Some r' \<Longrightarrow> rt_identity r' < route_count_of sh) \<Longrightarrow> in_shared sh (fst x)"
  by (cases x) (auto simp: kept_pair in_shared_def)

lemma kept_peeked:
  assumes "fits sh"
  shows "in_shared sh (fst (peeked ctx t peek alloc_now c sh))"
proof -
  have r: "in_shared sh (fst (route_lookup ctx t c' sh'))" if "sh_table sh' = sh_table sh" for c' sh'
    using resolve_with_routes assms that
    by (intro kept_in_shared [OF kept_route_lookup]) (fastforce simp: fits_def routes_in_def route_count_of_def)
  have b: "in_shared sh (fst (return c' sh'))" for c' sh'
    by (rule kept_in_shared [OF kept_return(1) [of None]]) simp
  show ?thesis using r b by (auto simp: peeked_def Let_def split: option.split prod.split decision.split)
qed

lemma handle_step_in_shared:
  assumes "in_shared sh c" "fits sh"
  shows "in_shared sh (fst (handle_step ctx t a c sh))"
proof -
  have k: "in_shared sh (fst x)" if "kept (cn_route c) x" for x
    by (rule kept_in_shared [OF that]) (use assms(1) in \<open>simp add: in_shared_def\<close>)
  have idle: "in_shared sh (fst (c, sh))" using assms(1) by simp
  have hd: "in_shared sh (fst (header_read t res c sh))" if "cn_phase c = AwaitHeader" for res
    using assms(1) that
    by (intro k) (auto simp: header_read_def kept_return case_prod_unfold kept_pair phase_ok_def in_shared_def return_def split: sum.split header.split)
  have fa: "kept (cn_route c) (forward_answered ctx t f mode now env c sh)" for f mode now env
    using kept_suspend_or_serve [of "c\<lparr>cn_hs_timeout := left\<rparr>" for left]
    by (simp add: forward_answered_def kept_return case_prod_unfold split: forwarded.split option.split)
  have pa: "kept (cn_route c) (peers_answered f b now env c sh)" for f b now env
    by (simp add: peers_answered_def kept_return case_prod_unfold split: forwarded.split option.split)
  have re: "kept (cn_route c) (resumed ctx t i ch c sh)" for i ch
    by (simp add: resumed_def kept_return kept_serve Let_def split: oneshot.split option.split)
  have lo: "kept (cn_route c) (local_connected ctx t er p mf env c sh)" for er p mf env
    by (simp add: local_connected_def kept_return Let_def case_prod_unfold split: sum.split option.split)
       (simp add: kept_pair phase_ok_def)
  have hs: "kept (cn_route c) (handshake_ended er p se cl c sh)" for er p se cl
    by (simp add: handshake_ended_def kept_return Let_def split: option.split)
       (simp add: kept_pair phase_ok_def proxy_via_tls_def Let_def)
  have up: "kept (cn_route c) (upstream_connected er s env c sh)" for er s env
    by (simp add: upstream_connected_def kept_return case_prod_unfold split: sum.split)
       (simp add: kept_pair phase_ok_def proxy_via_tls_def Let_def)
  have pe: "in_shared sh (fst (proxy_ended ctx evs fl c sh))" for evs fl
    using k [OF kept_return(1)] k [OF kept_return(2)] idle
    by (simp add: proxy_ended_def Let_def split: option.split prod.split)
  show ?thesis
    using idle hd k [OF kept_return(1)] kept_peeked [OF assms(2)] k [OF fa] k [OF pa] k [OF re] k [OF lo] k [OF hs] k [OF up] pe
    by (cases "cn_phase c"; cases a) (simp_all add: handle_step_def)
qed

section \<open>The node\<close>

text \<open>No step of a connection replaces the route table.\<close>

lemma table_updates [simp]:
  "sh_table (on_route f i sh) = sh_table sh" "sh_table (emit e sh) = sh_table sh" "sh_table (blocked k sh) = sh_table sh"
  "sh_table (route_guard_new i sh) = sh_table sh" "sh_table (snd (return c sh)) = sh_table sh"
  "sh_table (snd (return_error k2 c sh)) = sh_table sh" "sh_table (snd (return_blocked b c sh)) = sh_table sh"
  "sh_table (drop_upstream u sh) = sh_table sh" "sh_table (watched_end ps sh) = sh_table sh"
  by (simp_all add: on_route_def emit_def blocked_def route_guard_new_def return_def return_error_def return_blocked_def
      active_guard_drop_def route_guard_drop_def drop_upstream_def watched_end_def Let_def case_prod_unfold split: option.split)

lemma serve_table [simp]: "sh_table (snd (serve ctx t er c sh)) = sh_table sh"
  by (simp add: serve_def Let_def split: option.split)

lemma suspend_or_serve_table [simp]: "sh_table (snd (suspend_or_serve ctx t c sh)) = sh_table sh"
  by (simp add: suspend_or_serve_def Let_def case_prod_unfold)

lemma choose_server_table [simp]: "sh_table (snd (choose_server ctx t c sh)) = sh_table sh"
  by (simp add: choose_server_def Let_def case_prod_unfold split: option.split route_decision.split)

lemma route_lookup_table [simp]: "sh_table (snd (route_lookup ctx t c sh)) = sh_table sh"
  by (simp add: route_lookup_def admit_route_def Let_def case_prod_unfold split: option.split)

lemma peeked_table [simp]: "sh_table (snd (peeked ctx t peek alloc_now c sh)) = sh_table sh"
  by (simp add: peeked_def Let_def case_prod_unfold split: option.split decision.split)

lemma handle_step_table: "sh_table (snd (handle_step ctx t a c sh)) = sh_table sh"
  by (cases "cn_phase c"; cases a)
     (simp_all add: handle_step_def header_read_def answer_load_query_def forward_answered_def peers_answered_def resumed_def
       local_connected_def handshake_ended_def upstream_connected_def proxy_ended_def Let_def case_prod_unfold
       split: option.split sum.split header.split forwarded.split oneshot.split)

text \<open>One listener: its connections and what they share. Connections are accepted and take steps, JavaScript
  answers suspended ones, tables are reloaded, and background tasks change the world but no counter of a route.
  The kernel's limit on descriptors keeps the connections below the range of the counters.\<close>

inductive node_step :: "conn_context \<Rightarrow> conn list \<times> shared \<Rightarrow> conn list \<times> shared \<Rightarrow> bool" for ctx where
  accept: "length (filter live cs) + 2 < 2 ^ 64 \<Longrightarrow> handle_start ctx peer local_addr sh = (c, sh') \<Longrightarrow>
    node_step ctx (cs, sh) (cs @ [c], sh')"
| run: "i < length cs \<Longrightarrow> handle_step ctx t a (cs ! i) sh = (c, sh') \<Longrightarrow> node_step ctx (cs, sh) (cs[i := c], sh')"
| resolved: "build_resolved_route env held spec (sh_tls sh) (base (sh_world sh)) = (Inr r, ts, st) \<Longrightarrow>
    node_step ctx (cs, sh) (cs, sh\<lparr>sh_registry := resolve_pending k (Some r) (sh_registry sh), sh_tls := ts,
      sh_world := (sh_world sh)\<lparr>base := st\<rparr>\<rparr>)"
| rejected: "node_step ctx (cs, sh) (cs, sh\<lparr>sh_registry := resolve_pending k None (sh_registry sh)\<rparr>)"
| reload: "build_route_table env held clock specs ltls (Some (sh_table sh)) (sh_tls sh) (sh_world sh) = (t, ts, w) \<Longrightarrow>
    node_step ctx (cs, sh) (cs, sh\<lparr>sh_table := t, sh_tls := ts\<lparr>tcache := retain_used held' (tcache ts)\<rparr>, sh_world := w\<rparr>)"
| protect: "node_step ctx (cs, sh) (cs, sh\<lparr>sh_protection := p\<rparr>)"
| background: "identities w = identities (sh_world sh) \<Longrightarrow> node_step ctx (cs, sh) (cs, sh\<lparr>sh_world := w\<rparr>)"

definition node_inv :: "conn list \<times> shared \<Rightarrow> bool" where
  "node_inv = (\<lambda>(cs, sh).
     listener_gauge sh = of_nat (length (filter live cs)) \<and> global_gauge sh = of_nat (length (filter live cs)) \<and>
     suspended_gauge sh = of_nat (length (filter awaiting cs)) \<and>
     (\<forall>i < route_count_of sh. route_gauge i sh = of_nat (length (filter (on_identity i) cs))) \<and>
     (\<forall>c \<in> set cs. in_shared sh c) \<and> routes_in (sh_world sh) (sh_table sh) \<and> length (filter live cs) + 1 < 2 ^ 64)"

lemma count_update:
  assumes "i < length cs"
  shows "(of_nat (length (filter P (cs[i := c]))) :: u64) =
    of_nat (length (filter P cs)) + of_bool (P c) - of_bool (P (cs ! i))"
proof -
  have d: "cs = take i cs @ cs ! i # drop (Suc i) cs" using assms by (simp add: id_take_nth_drop)
  have "length (filter P cs) = length (filter P (take i cs)) + of_bool (P (cs ! i)) + length (filter P (drop (Suc i) cs))"
    by (subst d) simp
  moreover have "length (filter P (cs[i := c])) =
      length (filter P (take i cs)) + of_bool (P c) + length (filter P (drop (Suc i) cs))"
    using assms by (simp add: upd_conv_take_nth_drop)
  ultimately show ?thesis by simp
qed

lemma live_update_le:
  assumes "i < length cs" "live c \<Longrightarrow> live (cs ! i)"
  shows "length (filter live (cs[i := c])) \<le> length (filter live cs)"
proof -
  have d: "cs = take i cs @ cs ! i # drop (Suc i) cs" using assms by (simp add: id_take_nth_drop)
  have "length (filter live cs) = length (filter live (take i cs)) + of_bool (live (cs ! i)) + length (filter live (drop (Suc i) cs))"
    by (subst d) simp
  moreover have "length (filter live (cs[i := c])) =
      length (filter live (take i cs)) + of_bool (live c) + length (filter live (drop (Suc i) cs))"
    using assms(1) by (simp add: upd_conv_take_nth_drop)
  ultimately show ?thesis using assms(2) by auto
qed

lemma on_identity_live: "in_shared sh c \<Longrightarrow> on_identity i c \<Longrightarrow> live c"
  by (auto simp: in_shared_def phase_ok_def on_identity_def live_def split: option.splits)

lemma identity_count_le:
  "(\<forall>c \<in> set cs. in_shared sh c) \<Longrightarrow> length (filter (on_identity i) cs) \<le> length (filter live cs)"
  by (induction cs) (auto dest: on_identity_live)

lemma of_nat_64_eq: "n < 2 ^ 64 \<Longrightarrow> m < 2 ^ 64 \<Longrightarrow> (of_nat n :: u64) = of_nat m \<longleftrightarrow> n = m"
  by (simp add: word_of_nat_eq_iff take_bit_nat_eq_self)

lemma node_inv_fits:
  assumes "node_inv (cs, sh)"
  shows "fits sh" "c \<in> set cs \<Longrightarrow> route_ok c sh"
proof -
  have inv: "\<And>i. i < route_count_of sh \<Longrightarrow> route_gauge i sh = of_nat (length (filter (on_identity i) cs))"
      "\<forall>c \<in> set cs. in_shared sh c" "routes_in (sh_world sh) (sh_table sh)" "length (filter live cs) + 1 < 2 ^ 64"
    using assms by (simp_all add: node_inv_def)
  have b: "length (filter (on_identity i) cs) + 1 < 2 ^ 64" for i
    using identity_count_le [OF inv(2), of i] inv(4) by simp
  have "(of_nat (length (filter (on_identity i) cs)) :: u64) \<noteq> - 1" for i
  proof
    assume "(of_nat (length (filter (on_identity i) cs)) :: u64) = - 1"
    then have "(of_nat (length (filter (on_identity i) cs) + 1) :: u64) = of_nat 0" by simp
    then show False using b [of i] of_nat_64_eq [of "length (filter (on_identity i) cs) + 1" 0] by simp
  qed
  then show "fits sh" using inv(1,3) by (simp add: fits_def)
  show "route_ok c sh" if "c \<in> set cs"
  proof (cases "cn_route c")
    case (Some r)
    have i: "rt_identity r < route_count_of sh" using inv(2) that Some by (auto simp: in_shared_def)
    have "c \<in> set (filter (on_identity (rt_identity r)) cs)" using that Some by (simp add: on_identity_def)
    then have "length (filter (on_identity (rt_identity r)) cs) \<noteq> 0" by (metis length_0_conv list.set(1) empty_iff)
    then have "(of_nat (length (filter (on_identity (rt_identity r)) cs)) :: u64) \<noteq> 0"
      using of_nat_64_eq [of "length (filter (on_identity (rt_identity r)) cs)" 0] b [of "rt_identity r"] by simp
    then show ?thesis using i inv(1) Some by (simp add: route_ok_def)
  qed (simp add: route_ok_def)
qed

lemma handle_step_live: "live (fst (handle_step ctx t a c sh)) \<Longrightarrow> live c"
  by (cases "cn_phase c") (auto simp: handle_step_def live_def)

lemma node_inv_quiet:
  assumes "node_inv (cs, sh)" "same_gauges sh sh'" "routes_in (sh_world sh') (sh_table sh')"
  shows "node_inv (cs, sh')"
  using assms by (simp add: node_inv_def same_gauges_def in_shared_def)

lemma node_inv_run:
  assumes "node_inv (cs, sh)" "i < length cs" "handle_step ctx t a (cs ! i) sh = (c, sh')"
  shows "node_inv (cs[i := c], sh')"
proof -
  have inv: "\<forall>c \<in> set cs. in_shared sh c" "routes_in (sh_world sh) (sh_table sh)" "length (filter live cs) + 1 < 2 ^ 64"
    using assms(1) by (simp_all add: node_inv_def)
  have c0: "in_shared sh (cs ! i)" using inv(1) assms(2) by simp
  have m: "moved (cs ! i) sh (c, sh')"
    using handle_step_moved [OF node_inv_fits(2) [OF assms(1)] node_inv_fits(1) [OF assms(1)], of "cs ! i" ctx t a] assms(2,3) c0
    by (auto simp: in_shared_def phase_ok_def)
  have rc: "route_count_of sh' = route_count_of sh" using m by (simp add: moved_def)
  have "in_shared sh c" using handle_step_in_shared [OF c0 node_inv_fits(1) [OF assms(1)], of ctx t a] assms(3) by simp
  then have "\<forall>c \<in> set (cs[i := c]). in_shared sh' c"
    using inv(1) rc set_update_subset_insert [of cs i c] by (auto simp: in_shared_def)
  moreover have "routes_in (sh_world sh') (sh_table sh')"
    using inv(2) rc handle_step_table [of ctx t a "cs ! i" sh] assms(3) by (simp add: routes_in_def route_count_of_def)
  moreover have "length (filter live (cs[i := c])) + 1 < 2 ^ 64"
    using live_update_le [OF assms(2), of c] handle_step_live [of ctx t a "cs ! i" sh] assms(3) inv(3) by simp
  ultimately show ?thesis using assms(1) m count_update [OF assms(2)] by (simp add: node_inv_def moved_def)
qed

lemma node_inv_accept:
  assumes "node_inv (cs, sh)" "length (filter live cs) + 2 < 2 ^ 64" "handle_start ctx peer local_addr sh = (c, sh')"
  shows "node_inv (cs @ [c], sh')"
proof -
  have c: "cn_route c = None" "\<not> awaiting c" and s: "sh_table sh' = sh_table sh" "identities (sh_world sh') = identities (sh_world sh)"
      "lm_active (sh_listener sh') = lm_active (sh_listener sh) + of_bool (live c)"
      "gm_active (sh_global sh') = gm_active (sh_global sh) + of_bool (live c)"
      "gm_pending_suspended (sh_global sh') = gm_pending_suspended (sh_global sh)"
    using assms(3)
    by (auto simp: handle_start_def Let_def return_def blocked_def active_guard_drop_def drop_upstream_def awaiting_def live_def
        lm_inc_active_def lm_dec_active_def lm_inc_blocked_def gm_inc_active_def gm_dec_active_def split: option.splits if_splits)
  have "in_shared sh' c" using c by (simp add: in_shared_def phase_ok_def)
  then show ?thesis using assms(1,2) c s
    by (auto simp: node_inv_def gauge_defs in_shared_def routes_in_def on_identity_def)
qed

lemma node_inv_reload:
  assumes "node_inv (cs, sh)" "identities w = identities (sh_world sh) @ new" "unused new" "routes_in w t"
  shows "node_inv (cs, sh\<lparr>sh_table := t, sh_tls := ts, sh_world := w\<rparr>)"
proof -
  have none: "filter (on_identity i) cs = []" if "length (identities (sh_world sh)) \<le> i" for i
    using assms(1) that by (fastforce simp: node_inv_def in_shared_def on_identity_def gauge_defs filter_empty_conv split: option.splits)
  have "rm_active (id_counters (identities w ! i)) = of_nat (length (filter (on_identity i) cs))" if "i < length (identities w)" for i
  proof (cases "i < length (identities (sh_world sh))")
    case True
    then show ?thesis using assms(1,2) by (simp add: node_inv_def gauge_defs nth_append)
  next
    case False
    then show ?thesis using none [of i] assms(2,3) that by (auto simp: nth_append unused_def)
  qed
  then show ?thesis using assms by (fastforce simp: node_inv_def gauge_defs in_shared_def)
qed

lemma node_step_inv:
  assumes "node_step ctx x y" "node_inv x"
  shows "node_inv y"
  using assms
proof (induction rule: node_step.induct)
  case (resolved env held spec sh r ts st cs k)
  have "same_gauges sh (sh\<lparr>sh_registry := resolve_pending k (Some r) (sh_registry sh), sh_tls := ts,
      sh_world := (sh_world sh)\<lparr>base := st\<rparr>\<rparr>)" by (simp add: same_gauges_def gauge_defs)
  then show ?case using node_inv_quiet [OF resolved(2)] resolved(2) by (simp add: node_inv_def routes_in_def)
next
  case (reload env held clock specs ltls sh t ts w cs held')
  have "routes_in (sh_world sh) (sh_table sh)" using reload(2) by (simp add: node_inv_def)
  from build_route_table_in [OF reload(1) this] show ?case using node_inv_reload [OF reload(2)] by blast
next
  case (rejected cs sh k)
  show ?case using node_inv_quiet [OF rejected same_gauges_updates(3)] rejected by (simp add: node_inv_def)
next
  case (protect cs sh p)
  show ?case using node_inv_quiet [OF protect same_gauges_updates(2)] protect by (simp add: node_inv_def)
next
  case (background w sh cs)
  show ?case using node_inv_quiet [OF background(2) same_gauges_world [OF background(1)]] background by (simp add: node_inv_def routes_in_def)
qed (simp_all add: node_inv_accept node_inv_run)

end
