(* ===== verification/Conn_Properties.thy ===== *)
theory Conn_Properties
  imports Conn_Gauges Router_Properties Http_Properties
begin

text \<open>
  Properties of connection handling: the gauges count exactly the connections that hold them, whatever the
  interleaving; nothing is sent to an upstream or a peer before the checks that guard it; and what an HTTP
  upstream is told about the client is what the proxy observed.
\<close>

section \<open>Gauges\<close>

definition unoccupied :: "shared \<Rightarrow> bool" where
  "unoccupied sh \<longleftrightarrow> listener_gauge sh = 0 \<and> global_gauge sh = 0 \<and> suspended_gauge sh = 0 \<and>
     routes_in (sh_world sh) (sh_table sh) \<and> unused (identities (sh_world sh))"

lemma unoccupied_inv: "unoccupied sh \<Longrightarrow> node_inv ([], sh)"
  by (auto simp: unoccupied_def node_inv_def gauge_defs unused_def)

text \<open>C6. Whatever the interleaving of accepted connections, their steps, resolutions, reloads and background
  tasks, the gauge of active connections is the number of connections that have not ended, the gauge of
  suspended ones the number that wait for JavaScript, and the gauge of every route the number of connections
  it serves. So every way out of \<open>handle\<close> gives back what the connection took.\<close>

theorem gauges_exact:
  assumes "(node_step ctx)\<^sup>*\<^sup>* ([], sh0) (cs, sh)" "unoccupied sh0"
  shows "listener_gauge sh = of_nat (length (filter live cs)) \<and> global_gauge sh = of_nat (length (filter live cs)) \<and>
    suspended_gauge sh = of_nat (length (filter awaiting cs)) \<and>
    (\<forall>i < route_count_of sh. route_gauge i sh = of_nat (length (filter (on_identity i) cs)))"
proof -
  have "node_inv (cs, sh)"
    using assms(1) unoccupied_inv [OF assms(2)] by (induction rule: rtranclp_induct) (auto intro: node_step_inv)
  then show ?thesis by (simp add: node_inv_def)
qed

definition plain_context :: conn_context where
  "plain_context = \<lparr>cx_listener_addr = [], cx_idle_timeout = 0, cx_half_close_timeout = 0, cx_upstream_connect_timeout = 1,
     cx_ingress = None, cx_contains = (\<lambda>_ _. True), cx_spill_hash = (\<lambda>_. 0)\<rparr>"

definition fresh_shared :: shared where
  "fresh_shared = \<lparr>sh_table = route_table_empty, sh_world = sample_world, sh_tls = \<lparr>configs = [], tcache = tls_cache_new\<rparr>,
     sh_protection = None, sh_registry = registry_new,
     sh_global = \<lparr>gm_active = 0, gm_pending_suspended = 0, gm_suspended_resolved = 0, gm_suspended_unresolved = 0\<rparr>,
     sh_listener = listener_metrics_default, sh_events = []\<rparr>"

definition some_peer :: socket_addr where
  "some_peer = \<lparr>sa_ip = V4 [10, 0, 0, 9], sa_port = 4000\<rparr>"

definition accepted_conn :: conn where
  "accepted_conn = fst (handle_start plain_context some_peer None fresh_shared)"

definition accepted_shared :: shared where
  "accepted_shared = snd (handle_start plain_context some_peer None fresh_shared)"

definition ended :: "conn \<times> shared" where
  "ended = handle_step plain_context 5 (Peeked peek_info_default 5) accepted_conn accepted_shared"

theorem gauges_exact_witness:
  "listener_gauge accepted_shared = 1 \<and> listener_gauge (snd ended) = 0 \<and> \<not> live (fst ended)"
proof -
  have u: "unoccupied fresh_shared"
    by (simp add: unoccupied_def gauge_defs fresh_shared_def listener_metrics_default_def routes_in_def table_routes_def
        route_table_empty_def sample_world_def)
  have a: "node_step plain_context ([], fresh_shared) ([] @ [accepted_conn], accepted_shared)"
    by (rule accept) (simp_all add: accepted_conn_def accepted_shared_def)
  have "node_step plain_context ([accepted_conn], accepted_shared) ([accepted_conn][0 := fst ended], snd ended)"
    by (rule run [where t = 5 and a = "Peeked peek_info_default 5"]) (simp_all add: ended_def)
  then have b: "(node_step plain_context)\<^sup>*\<^sup>* ([], fresh_shared) ([fst ended], snd ended)" using a by simp
  have l: "live accepted_conn" "\<not> live (fst ended)"
    by (simp_all add: live_def ended_def accepted_conn_def accepted_shared_def handle_start_def handle_step_def peeked_def route_lookup_def
        resolve_with_def route_table_empty_def plain_context_def fresh_shared_def peek_info_default_def return_def Let_def)
  show ?thesis using gauges_exact [of plain_context fresh_shared "[accepted_conn]" accepted_shared, OF _ u]
      gauges_exact [OF b u] a l by (simp add: r_into_rtranclp)
qed

section \<open>Checks before contact\<close>

text \<open>A connection as it can be at any moment: every step may find the shared state changed by others in any way.\<close>

inductive reached :: "conn_context \<Rightarrow> conn \<Rightarrow> bool" for ctx where
  begun: "handle_start ctx peer local_addr sh = (c, sh') \<Longrightarrow> reached ctx c"
| stepped: "reached ctx c \<Longrightarrow> handle_step ctx t a c sh = (c', sh') \<Longrightarrow> reached ctx c'"

text \<open>The phases in which an upstream or a peer is contacted, those in which a peer is, and those in which the
  upstream of a terminating route is contacted before the handshake.\<close>

definition contacting :: "conn \<Rightarrow> bool" where
  "contacting c = (case cn_phase c of
     AwaitForward _ _ _ \<Rightarrow> True | AwaitLocal _ _ _ _ \<Rightarrow> True | AwaitPeers _ _ _ \<Rightarrow> True | AwaitUpstream _ _ \<Rightarrow> True
   | AwaitProxy _ _ \<Rightarrow> True | _ \<Rightarrow> cn_upstream c \<noteq> None)"

definition forwarding :: "conn \<Rightarrow> bool" where
  "forwarding c = (case cn_phase c of AwaitForward _ _ _ \<Rightarrow> True | AwaitPeers _ _ _ \<Rightarrow> True | _ \<Rightarrow> False)"

definition connected_early :: "conn \<Rightarrow> bool" where
  "connected_early c = (case cn_phase c of
     AwaitLocal er _ _ _ \<Rightarrow> er_terminate_tls er | AwaitHandshake _ _ \<Rightarrow> cn_upstream c \<noteq> None | _ \<Rightarrow> False)"

definition early_ok :: "route \<Rightarrow> bool" where
  "early_ok r \<longleftrightarrow> \<not> rt_requires_client_cert r \<and> \<not> rt_suspended r"

definition phase_guarded :: "conn_context \<Rightarrow> route \<Rightarrow> upstream_stream option \<Rightarrow> phase \<Rightarrow> bool" where
  "phase_guarded ctx r up p =
     (case p of
        AwaitForward _ _ _ \<Rightarrow> cx_ingress ctx = None \<and> up = None
      | AwaitPeers _ _ _ \<Rightarrow> cx_ingress ctx = None \<and> up = None
      | AwaitResolve _ _ \<Rightarrow> up = None
      | AwaitLocal er _ mf _ \<Rightarrow> (er_terminate_tls er \<longrightarrow> early_ok r) \<and> (mf \<noteq> None \<longrightarrow> cx_ingress ctx = None) \<and> up = None
      | AwaitHandshake er _ \<Rightarrow> up \<noteq> None \<longrightarrow> early_ok r
      | AwaitUpstream _ _ \<Rightarrow> True
      | AwaitProxy _ _ \<Rightarrow> True
      | _ \<Rightarrow> False)"

definition guarded :: "conn_context \<Rightarrow> conn \<Rightarrow> bool" where
  "guarded ctx c =
     (case cn_route c of
        None \<Rightarrow> cn_upstream c = None \<and>
          (case cn_phase c of AwaitHeader \<Rightarrow> True | AwaitLoadAnswer _ \<Rightarrow> True | AwaitPeek \<Rightarrow> True | Finished \<Rightarrow> True | _ \<Rightarrow> False)
      | Some r \<Rightarrow> permitted ctx (rt_allowed_sources r) c \<and> phase_guarded ctx r (cn_upstream c) (cn_phase c))"

lemma guarded_return [simp]: "guarded ctx (fst (return c sh))" "guarded ctx (fst (return_error k c sh))" "guarded ctx (fst (return_blocked b c sh))"
  by (simp_all add: guarded_def return_def return_error_def return_blocked_def)

definition routed :: "conn_context \<Rightarrow> conn \<Rightarrow> bool" where
  "routed ctx c \<longleftrightarrow> cn_upstream c = None \<and> (\<exists>r. cn_route c = Some r \<and> permitted ctx (rt_allowed_sources r) c)"

lemma permitted_cong: "cn_peer c' = cn_peer c \<Longrightarrow> permitted ctx a c' = permitted ctx a c"
  by (simp add: permitted_def split: option.split)

lemma guarded_phase:
  "routed ctx c \<Longrightarrow> guarded ctx (c\<lparr>cn_phase := p\<rparr>) \<longleftrightarrow> phase_guarded ctx (the (cn_route c)) None p"
  by (auto simp: routed_def guarded_def permitted_cong [of "c\<lparr>cn_phase := p\<rparr>" c])

lemma guarded_serve: "routed ctx c \<Longrightarrow> guarded ctx (fst (serve ctx t er c sh))"
  by (cases "er_tls_config er")
     (auto simp: serve_def Let_def guarded_phase phase_guarded_def early_ok_def failover_of_def)

lemma guarded_suspend_or_serve: "routed ctx c \<Longrightarrow> guarded ctx (fst (suspend_or_serve ctx t c sh))"
  by (simp add: suspend_or_serve_def Let_def case_prod_unfold guarded_serve guarded_phase phase_guarded_def)

lemma guarded_choose_server:
  assumes "routed ctx c"
  shows "guarded ctx (fst (choose_server ctx t c sh))"
proof -
  have "guarded ctx (c\<lparr>cn_phase := AwaitForward f mode now\<rparr>)"
    if "fst (decide (cx_ingress ctx \<noteq> None) s d dr sp w) = Forward mode" for s d dr sp w f mode now
  proof -
    have "cx_ingress ctx = None" using that by (auto simp: decide_def split: if_splits)
    then show ?thesis by (simp add: guarded_phase [OF assms] phase_guarded_def)
  qed
  then show ?thesis using guarded_suspend_or_serve [OF assms]
    by (auto simp: choose_server_def Let_def case_prod_unfold split: option.split route_decision.split)
qed

lemma guarded_route_lookup:
  assumes "cn_upstream c = None"
  shows "guarded ctx (fst (route_lookup ctx t c sh))"
proof -
  have "guarded ctx (fst (admit_route ctx t (c\<lparr>cn_route := Some r\<rparr>) sh'))" for r sh'
  proof (cases "permitted ctx (rt_allowed_sources r) c")
    case True
    then have "routed ctx (c\<lparr>cn_route := Some r\<rparr>)"
      using assms by (auto simp: routed_def permitted_cong [of "c\<lparr>cn_route := Some r\<rparr>" c])
    then show ?thesis using True guarded_choose_server
      by (auto simp: admit_route_def Let_def case_prod_unfold split: option.split)
  next
    case False
    then show ?thesis by (simp add: admit_route_def permitted_cong [of "c\<lparr>cn_route := Some r\<rparr>" c])
  qed
  then show ?thesis by (simp add: route_lookup_def split: option.split)
qed

lemma guarded_step:
  assumes "guarded ctx c"
  shows "guarded ctx (fst (handle_step ctx t a c sh))"
proof (cases "cn_route c")
  case None
  have up: "cn_upstream c = None" using assms None by (simp add: guarded_def)
  have "guarded ctx (fst (peeked ctx t peek n c sh))" for peek n
    using guarded_route_lookup up by (auto simp: peeked_def Let_def case_prod_unfold split: option.split decision.split)
  moreover have "guarded ctx (fst (header_read t res c sh))" for res
    using None up by (simp add: header_read_def case_prod_unfold split: sum.split header.split) (simp add: guarded_def)
  ultimately show ?thesis
    using assms None by (cases "cn_phase c"; cases a) (simp_all add: handle_step_def, simp_all add: guarded_def)
next
  case (Some r)
  have p: "permitted ctx (rt_allowed_sources r) c" and g: "phase_guarded ctx r (cn_upstream c) (cn_phase c)"
    using assms Some by (simp_all add: guarded_def)
  have ph: "guarded ctx c'" if "cn_route c' = Some r" "cn_peer c' = cn_peer c" "phase_guarded ctx r (cn_upstream c') (cn_phase c')" for c'
    using that p by (simp add: guarded_def permitted_cong [OF that(2)])
  have rt: "routed ctx c'" if "cn_route c' = Some r" "cn_peer c' = cn_peer c" "cn_upstream c' = None" for c'
    using that p by (auto simp: routed_def permitted_cong [OF that(2)])
  have fa: "guarded ctx (fst (forward_answered ctx t f mode now env c sh))" if "cn_upstream c = None" for f mode now env
    using guarded_suspend_or_serve [OF rt] Some that
    by (simp add: forward_answered_def case_prod_unfold split: forwarded.split option.split)
  have re: "guarded ctx (fst (resumed ctx t i ch c sh))" if "cn_upstream c = None" for i ch
    using guarded_serve [OF rt] Some that by (simp add: resumed_def Let_def split: oneshot.split option.split)
  have pa: "guarded ctx (fst (peers_answered f b now env c sh))" for f b now env
    by (simp add: peers_answered_def case_prod_unfold split: forwarded.split option.split)
  have lo: "guarded ctx (fst (local_connected ctx t er q mf env c sh))"
    if "er_terminate_tls er \<longrightarrow> early_ok r" "mf \<noteq> None \<longrightarrow> cx_ingress ctx = None" "cn_upstream c = None" for er q mf env
    using Some that
    by (auto simp: local_connected_def Let_def case_prod_unfold phase_guarded_def intro!: ph split: sum.split option.split)
  have hs: "guarded ctx (fst (handshake_ended er q se cl c sh))" for er q se cl
    using Some by (auto simp: handshake_ended_def Let_def proxy_via_tls_def phase_guarded_def intro!: ph split: option.split)
  have us: "guarded ctx (fst (upstream_connected er s env c sh))" for er s env
    using Some by (auto simp: upstream_connected_def proxy_via_tls_def Let_def case_prod_unfold phase_guarded_def intro!: ph split: sum.split)
  have pe: "guarded ctx (fst (proxy_ended ctx evs fl c sh))" for evs fl
    using assms by (simp add: proxy_ended_def Let_def split: option.split prod.split)
  show ?thesis
    using g assms fa re pa lo hs us pe
    by (cases "cn_phase c"; cases a) (simp_all add: handle_step_def phase_guarded_def)
qed

lemma reached_guarded: "reached ctx c \<Longrightarrow> guarded ctx c"
proof (induction rule: reached.induct)
  case (begun peer local_addr sh c sh')
  have "guarded ctx (fst (handle_start ctx peer local_addr sh))"
    by (simp add: handle_start_def Let_def split: option.split) (simp add: guarded_def)
  then show ?case using begun by simp
next
  case (stepped c t a sh c' sh')
  then show ?case using guarded_step [OF stepped(3), of t a sh] by simp
qed

text \<open>C4. Whatever other connections, reloads and tasks do meanwhile, a connection that contacts an upstream or a
  peer has a route whose allowlist permits its source; one that came in from a failover peer is never forwarded
  to a peer again; and the upstream of a route that demands a client certificate, or that JavaScript is still to
  choose, is not contacted before the TLS handshake is done.\<close>

theorem checks_before_contact:
  assumes "reached ctx c" "contacting c"
  shows "\<exists>r. cn_route c = Some r \<and> permitted ctx (rt_allowed_sources r) c \<and>
    (forwarding c \<longrightarrow> cx_ingress ctx = None) \<and>
    (connected_early c \<longrightarrow> \<not> rt_requires_client_cert r \<and> \<not> rt_suspended r)"
  using reached_guarded [OF assms(1)] assms(2)
  by (cases "cn_phase c")
     (auto simp: guarded_def phase_guarded_def contacting_def forwarding_def connected_early_def early_ok_def split: option.splits)

definition open_route :: route where
  "open_route = \<lparr>rt_identity = 0, rt_destination = Tcp some_peer, rt_destination_h2 = None, rt_tls_config = None,
     rt_terminate_tls = False, rt_suspended = False, rt_suspend_timeout = 1, rt_rate_limiter = None,
     rt_source_address_mode = NoSourceAddress, rt_forward_fingerprint = forward_none, rt_protocol = Opaque,
     rt_allowed_sources = Some [NetV4 [10, 0, 0, 0] 8], rt_failover = None, rt_requires_client_cert = False\<rparr>"

definition routed_conn :: conn where
  "routed_conn = fst (handle_step plain_context 5 (Peeked peek_info_default 5) accepted_conn
     (accepted_shared\<lparr>sh_table := route_table_empty\<lparr>default_route := Some open_route\<rparr>\<rparr>))"

theorem checks_before_contact_witness:
  "\<exists>r. cn_route routed_conn = Some r \<and> permitted plain_context (rt_allowed_sources r) routed_conn \<and> contacting routed_conn"
proof -
  let ?sh = "accepted_shared\<lparr>sh_table := route_table_empty\<lparr>default_route := Some open_route\<rparr>\<rparr>"
  have b: "reached plain_context accepted_conn"
    by (rule begun [of _ some_peer None fresh_shared _ accepted_shared]) (simp add: accepted_conn_def accepted_shared_def)
  have r: "reached plain_context routed_conn"
    by (rule stepped [OF b, of 5 "Peeked peek_info_default 5" ?sh _ "snd (handle_step plain_context 5 (Peeked peek_info_default 5) accepted_conn ?sh)"])
       (simp add: routed_conn_def)
  have c: "contacting routed_conn"
    by (simp add: routed_conn_def contacting_def handle_step_def accepted_conn_def accepted_shared_def handle_start_def peeked_def
        route_lookup_def admit_route_def choose_server_def suspend_or_serve_def serve_def resolve_with_def plain_context_def
        fresh_shared_def peek_info_default_def open_route_def permitted_def permits_def failover_of_def effective_of_route_def Let_def)
  show ?thesis using checks_before_contact [OF r c] c by blast
qed

section \<open>What the upstream is told\<close>

text \<open>Addresses and fingerprints are printed without a carriage return, so each stays on its own header line.\<close>

definition printable :: "bytes \<Rightarrow> bool" where
  "printable bs \<longleftrightarrow> (\<forall>b \<in> set bs. 0x20 < b)"

lemma printable_simps [simp]:
  "printable []" "printable (b # bs) \<longleftrightarrow> 0x20 < b \<and> printable bs" "printable (xs @ ys) \<longleftrightarrow> printable xs \<and> printable ys"
  by (auto simp: printable_def)

lemma printable_no_cr: "printable bs \<Longrightarrow> 0x0D \<notin> set bs"
  by (auto simp: printable_def)

lemma printable_of_nat: "33 \<le> n \<Longrightarrow> n < 256 \<Longrightarrow> (0x20 :: u8) < of_nat n"
  by (simp add: word_less_nat_alt unat_of_nat)

lemma printable_dec: "printable (dec n)"
proof (induction n rule: dec.induct)
  case (1 n)
  have "(0x20 :: u8) < of_nat (48 + n mod 10)" by (rule printable_of_nat) (simp_all add: le_less_trans [of _ "48 + 9"])
  then show ?case using 1 printable_of_nat [of "48 + n"] by (subst dec.simps) auto
qed

lemma printable_hex_digit: "n < 16 \<Longrightarrow> 0x20 < hex_digit n"
  using printable_of_nat [of "48 + n"] printable_of_nat [of "87 + n"] by (simp add: hex_digit_def)

lemma printable_hex_lower: "printable (hex_lower n)"
proof (induction n rule: hex_lower.induct)
  case (1 n)
  then show ?case using printable_hex_digit [of n] printable_hex_digit [of "n mod 16"] by (subst hex_lower.simps) auto
qed

lemma printable_join: "printable sep \<Longrightarrow> (\<And>x. x \<in> set xs \<Longrightarrow> printable x) \<Longrightarrow> printable (join sep xs)"
  by (induction sep xs rule: join.induct) auto

lemma printable_fmt_ip: "printable (fmt_ip ip)"
proof -
  have v4: "printable (fmt_ipv4 os)" for os
    unfolding fmt_ipv4_def by (rule printable_join) (auto simp: printable_dec str_def)
  have sub: "printable (fmt_subslice ss)" for ss
    unfolding fmt_subslice_def by (rule printable_join) (auto simp: printable_hex_lower str_def)
  show ?thesis
    by (cases ip) (auto simp: v4 sub fmt_ipv6_def str_def Let_def split: option.split prod.split)
qed

lemma printable_hex: "printable (bytes_to_hex bs)"
proof (induction bs)
  case (Cons b bs)
  have "unat b < 256" using unsigned_less [of b] by simp
  then show ?case using Cons printable_hex_digit [of "unat b div 16"] printable_hex_digit [of "unat b mod 16"]
    by (simp add: bytes_to_hex_def less_mult_imp_div_less)
qed (simp add: bytes_to_hex_def)

lemma printable_alnum: "is_ascii_alphanumeric b \<Longrightarrow> 0x20 < to_ascii_lowercase b"
proof -
  assume "is_ascii_alphanumeric b"
  then have "48 \<le> unat b \<and> unat b \<le> 122 \<and> (is_ascii_upper b \<longrightarrow> unat b \<le> 90)"
    by (auto simp: is_ascii_alphanumeric_def is_ascii_digit_def is_ascii_upper_def is_ascii_lower_def word_le_nat_alt)
  moreover from this have "unat (b + 0x20) = unat b + 32" if "is_ascii_upper b" using that by (simp add: unat_word_ariths)
  ultimately show ?thesis by (auto simp: to_ascii_lowercase_def word_less_nat_alt)
qed

lemma printable_alpn_chars: "printable (alpn_chars p)"
proof (cases p)
  case (Some proto)
  have "printable [hd (bytes_to_hex proto), last (bytes_to_hex proto)]" if "proto \<noteq> []"
  proof -
    have "bytes_to_hex proto \<noteq> []" using that by (cases proto) (simp_all add: bytes_to_hex_def)
    then show ?thesis using printable_hex [of proto] by (simp add: printable_def)
  qed
  then show ?thesis using Some by (auto simp: alpn_chars_def printable_alnum Let_def str_def)
qed (simp add: alpn_chars_def str_def)

lemma printable_ja4: "printable (compute_ja4 sha256 v suites exts)"
proof -
  have "printable (dec02 n)" for n by (simp add: dec02_def printable_dec)
  moreover have "printable (ver_str v vs)" for vs by (simp add: ver_str_def str_def Let_def)
  ultimately show ?thesis
    by (simp add: compute_ja4_def ja4_part_a_def ja4_part_b_def ja4_part_c_def sha256_hex12_def printable_hex printable_alpn_chars
        str_def Let_def)
qed

lemma peeked_printable:
  "printable (ja3 (peek_with_timeout md5 sha256 peeks))" "printable (ja4 (peek_with_timeout md5 sha256 peeks))"
  by (auto simp: peek_with_timeout_def parse_client_hello_def peek_info_default_def compute_ja3_def md5_hex_def printable_hex printable_ja4
      split: reassembly.split option.split prod.split)

lemma own_names_good:
  assumes "n \<in> {str ''X-Forwarded-For'', str ''X-JA3'', str ''X-JA4''}" "\<And>x. v = Some x \<Longrightarrow> printable x"
  shows "good_rewrite \<lparr>hr_name = n, hr_value = v\<rparr>"
proof -
  have "list_all (\<lambda>n. n \<noteq> [] \<and> list_all (\<lambda>b. b \<noteq> 0x3A \<and> \<not> is_ascii_whitespace b) n \<and> \<not> framing_name n)
      [str ''X-Forwarded-For'', str ''X-JA3'', str ''X-JA4'']" by code_simp
  then show ?thesis using assms printable_no_cr by (auto simp: good_rewrite_def split: option.split)
qed

lemma header_rewrites_good:
  assumes "printable (sf_ja3 sf)" "printable (sf_ja4 sf)"
  shows "list_all good_rewrite (header_rewrites sf l7)"
  using assms
  by (auto simp: header_rewrites_def forwarded_fingerprints_def list_all_iff printable_fmt_ip intro!: own_names_good
      split: if_splits)

text \<open>The values a request head carries under a name, in any case.\<close>

definition header_values :: "bytes \<Rightarrow> bytes \<Rightarrow> bytes list" where
  "header_values name h = map snd (filter (\<lambda>(n, _). eq_ignore_ascii_case n name) (header_fields h))"

lemma clean_head_values:
  assumes "clean_head rs h" "owned rs name"
  shows "header_values name h = map snd (filter (\<lambda>(n, _). eq_ignore_ascii_case n name) (authoritative rs))"
proof -
  have "eq_ignore_ascii_case n name \<Longrightarrow> owned rs n" for n
    using assms(2) by (auto simp: owned_def list_ex_iff eq_ignore_ascii_case_def)
  then have f: "filter (\<lambda>(n, _). eq_ignore_ascii_case n name) fs =
      filter (\<lambda>(n, _). eq_ignore_ascii_case n name) (filter (\<lambda>(n, _). owned rs n) fs)" for fs :: "(bytes \<times> bytes) list"
    by (induction fs) auto
  show ?thesis unfolding header_values_def f [of "header_fields h"] assms(1) [unfolded clean_head_def] ..
qed

lemma own_names:
  "eq_ignore_ascii_case (str ''X-Forwarded-For'') (str ''X-Forwarded-For'')"
  "\<not> eq_ignore_ascii_case (str ''X-Forwarded-For'') (str ''X-JA3'')"
  "\<not> eq_ignore_ascii_case (str ''X-Forwarded-For'') (str ''X-JA4'')"
  "\<not> eq_ignore_ascii_case (str ''X-JA3'') (str ''X-Forwarded-For'')"
  "eq_ignore_ascii_case (str ''X-JA3'') (str ''X-JA3'')"
  "\<not> eq_ignore_ascii_case (str ''X-JA3'') (str ''X-JA4'')"
  "\<not> eq_ignore_ascii_case (str ''X-JA4'') (str ''X-Forwarded-For'')"
  "\<not> eq_ignore_ascii_case (str ''X-JA4'') (str ''X-JA3'')"
  "eq_ignore_ascii_case (str ''X-JA4'') (str ''X-JA4'')"
  by code_simp+

lemma printable_trim: "printable v \<Longrightarrow> trim_ascii v = v"
  by (rule trim_ascii_id) (auto simp: printable_def list_ex_iff is_ascii_whitespace_def)

text \<open>What a head tells the upstream of the client: its address and the fingerprints of its hello, each as its own
  header, once; nothing for a fingerprint that could not be computed.\<close>

definition fingerprint_values :: "bytes \<Rightarrow> bytes list" where
  "fingerprint_values fp = (if fp = [] then [] else [fp])"

definition tells_truth :: "source_forwarding \<Rightarrow> peek_info \<Rightarrow> bytes \<Rightarrow> bool" where
  "tells_truth sf hello h \<longleftrightarrow>
     (sf_mode sf = XForwardedFor \<longrightarrow> header_values (str ''X-Forwarded-For'') h = [fmt_ip (sa_ip (sf_peer_addr sf))]) \<and>
     (fp_ja3 (sf_fingerprint sf) \<longrightarrow> header_values (str ''X-JA3'') h = fingerprint_values (ja3 hello)) \<and>
     (fp_ja4 (sf_fingerprint sf) \<longrightarrow> header_values (str ''X-JA4'') h = fingerprint_values (ja4 hello))"

lemma clean_tells_truth:
  assumes "clean_head (header_rewrites sf True) h" "sf_mode sf \<noteq> ProxyProtocolV2"
    and "sf_ja3 sf = ja3 hello" "sf_ja4 sf = ja4 hello" "printable (ja3 hello)" "printable (ja4 hello)"
  shows "tells_truth sf hello h"
proof -
  let ?xff = "if sf_mode sf = XForwardedFor then [(str ''X-Forwarded-For'', fmt_ip (sa_ip (sf_peer_addr sf)))] else []"
  let ?ja3 = "if fp_ja3 (sf_fingerprint sf) then map (Pair (str ''X-JA3'')) (fingerprint_values (ja3 hello)) else []"
  let ?ja4 = "if fp_ja4 (sf_fingerprint sf) then map (Pair (str ''X-JA4'')) (fingerprint_values (ja4 hello)) else []"
  have auth: "authoritative (header_rewrites sf True) = ?xff @ ?ja3 @ ?ja4"
    using assms(2-4) printable_trim [OF printable_fmt_ip] printable_trim [OF assms(5)] printable_trim [OF assms(6)]
    by (simp add: authoritative_def header_rewrites_def forwarded_fingerprints_def map_filter_append List.map_filter_simps fingerprint_values_def)
  have own: "owned (header_rewrites sf True) n \<longleftrightarrow>
      sf_mode sf = XForwardedFor \<and> eq_ignore_ascii_case (str ''X-Forwarded-For'') n \<or>
      fp_ja3 (sf_fingerprint sf) \<and> eq_ignore_ascii_case (str ''X-JA3'') n \<or>
      fp_ja4 (sf_fingerprint sf) \<and> eq_ignore_ascii_case (str ''X-JA4'') n" for n
    using assms(2) by (simp add: owned_def header_rewrites_def forwarded_fingerprints_def)
  have one: "filter (\<lambda>(m, _). eq_ignore_ascii_case m n) (map (Pair m) vs) = (if eq_ignore_ascii_case m n then map (Pair m) vs else [])"
    for m n and vs :: "bytes list" by (induction vs) auto
  note v = clean_head_values [OF assms(1), unfolded own auth]
  have "header_values (str ''X-Forwarded-For'') h = [fmt_ip (sa_ip (sf_peer_addr sf))]" if "sf_mode sf = XForwardedFor"
    using v [of "str ''X-Forwarded-For''"] that by (simp add: own_names one comp_def)
  moreover have "header_values (str ''X-JA3'') h = fingerprint_values (ja3 hello)" if "fp_ja3 (sf_fingerprint sf)"
    using v [of "str ''X-JA3''"] that by (simp add: own_names one comp_def)
  moreover have "header_values (str ''X-JA4'') h = fingerprint_values (ja4 hello)" if "fp_ja4 (sf_fingerprint sf)"
    using v [of "str ''X-JA4''"] that by (simp add: own_names one comp_def)
  ultimately show ?thesis by (simp add: tells_truth_def)
qed

lemma forward_copy_clean:
  assumes "list_all good_rewrite (header_rewrites sf l7)" "header_rewrites sf l7 \<noteq> []" "connection_prefix sf = Some pre"
    and "pm_out client = []" "forward_copy sf l7 client upstream = Some (q, client', upstream', verdicts)" "Accepted \<notin> set verdicts"
  shows "strict_prefix (pm_out client') pre \<or> clean_after (header_rewrites sf l7) pre (pm_out client')"
proof -
  obtain e c1 where w: "write_all pre client = (e, c1)" by fastforce
  note ws = write_all_spec [OF w]
  show ?thesis
  proof (cases e)
    case (Inl x)
    then have "client' = c1" using assms(3,5) w by (simp add: forward_copy_def)
    moreover obtain k where "k < length pre" "pm_out c1 = take k pre" using ws(5) [OF Inl] assms(4) by auto
    moreover from this have "take k pre \<noteq> pre" by (metis length_take less_le_not_le min.cobounded2)
    ultimately show ?thesis using take_is_prefix [of k pre] by (simp add: strict_prefix_def)
  next
    case (Inr u)
    then have out: "pm_out c1 = pre" using ws(4) assms(4) by auto
    obtain q1 ch where "proxy_http1_rewriting (header_rewrites sf l7) c1 upstream = Some (q1, client', upstream', ch)"
        "verdicts = ch_verdicts ch"
      using assms(2,3,5) w Inr by (auto simp: forward_copy_def Let_def)
    then show ?thesis using proxy_http1_spec [of "header_rewrites sf l7" c1 upstream] assms(1,6) out by auto
  qed
qed

text \<open>C5. On a plaintext HTTP/1 connection a client cannot forge what the upstream learns of it. In every request head
  the upstream receives, \<open>X-Forwarded-For\<close> (in that mode) is the client's address alone, and \<open>X-JA3\<close> and \<open>X-JA4\<close>
  (each where it is forwarded) are the fingerprints computed from its hello, or absent if there is none, whatever the
  client sent under those names, in whatever pieces, and however many requests it pipelined. This holds without a
  prefix and after a whole PROXY v1 header, as long as the upstream accepted no tunnel; in PROXY v2 mode the prefix
  carries these facts and requests are not rewritten.\<close>

theorem client_cannot_forge_headers:
  assumes "hello = peek_with_timeout md5 sha256 peeks" "sf_ja3 sf = ja3 hello" "sf_ja4 sf = ja4 hello"
    and "sf_mode sf \<noteq> ProxyProtocolV2"
    and "sf_mode sf = XForwardedFor \<or> fp_ja3 (sf_fingerprint sf) \<or> fp_ja4 (sf_fingerprint sf)"
    and "pm_out client = []" "forward_copy sf True client upstream = Some (q, client', upstream', verdicts)"
    and "Accepted \<notin> set verdicts"
    and "pre = (if sf_mode sf = ProxyProtocol then proxy_v1_header (sf_peer_addr sf) else [])"
  shows "strict_prefix (pm_out client') pre \<or>
    (\<exists>sent. pm_out client' = pre @ sent \<and> (\<forall>h \<in> set (upstream_heads sent). tells_truth sf hello h))"
proof -
  have pr: "printable (ja3 hello)" "printable (ja4 hello)" using peeked_printable by (auto simp: assms(1))
  have good: "list_all good_rewrite (header_rewrites sf True)" using header_rewrites_good pr assms(2,3) by metis
  have ne: "header_rewrites sf True \<noteq> []" using assms(4,5) by (auto simp: header_rewrites_def forwarded_fingerprints_def)
  have pre: "connection_prefix sf = Some pre" using assms(4,9) by (cases "sf_mode sf") (auto simp: connection_prefix_def)
  show ?thesis
    using forward_copy_clean [OF good ne pre assms(6-8)] clean_tells_truth [OF _ assms(4,2,3) pr] by (auto simp: clean_after_def)
qed

definition xff_forwarding :: source_forwarding where
  "xff_forwarding = \<lparr>sf_mode = XForwardedFor, sf_fingerprint = \<lparr>fp_ja3 = True, fp_ja4 = False\<rparr>, sf_protocol = Http, sf_ja3 = [],
     sf_ja4 = [], sf_sni = None, sf_tls = None, sf_peer_addr = some_peer, sf_local_addr = None\<rparr>"

definition forging_client :: pump where
  "forging_client = \<lparr>pm_reader = \<lparr>rd_pending = str ''GET / HTTP/1.1'' @ crlf @ str ''x-forwarded-for: 1.2.3.4'' @ crlf @ str ''X-JA3: f'' @ crlf @ crlf,
     rd_cuts = [20, 3], rd_fails = False\<rparr>, pm_carry = [], pm_out = [], pm_room = None\<rparr>"

definition honest_head :: bytes where
  "honest_head = str ''GET / HTTP/1.1'' @ crlf @ str ''X-Forwarded-For: 10.0.0.9'' @ crlf @ crlf"

lemma forging_run:
  "map_option (\<lambda>(_, c, _, vs). (pm_out c, vs)) (forward_copy xff_forwarding True forging_client silent_upstream) = Some (honest_head, [])"
  by code_simp

theorem client_cannot_forge_headers_witness:
  "upstream_heads honest_head = [honest_head] \<and> header_values (str ''X-Forwarded-For'') honest_head = [str ''10.0.0.9''] \<and>
   header_values (str ''X-JA3'') honest_head = []"
proof -
  obtain q c u vs where r: "forward_copy xff_forwarding True forging_client silent_upstream = Some (q, c, u, vs)"
      "pm_out c = honest_head" "vs = []"
    using forging_run by auto
  have h: "upstream_heads honest_head = [honest_head]" by code_simp
  have ip: "fmt_ip (sa_ip some_peer) = str ''10.0.0.9''" by code_simp
  have d: "peek_with_timeout id id [] = peek_info_default" by (simp add: peek_with_timeout_def)
  have "sf_ja3 xff_forwarding = ja3 peek_info_default" "sf_ja4 xff_forwarding = ja4 peek_info_default"
    by (simp_all add: xff_forwarding_def peek_info_default_def)
  from client_cannot_forge_headers [OF d [symmetric] this _ _ _ r(1)] have "tells_truth xff_forwarding peek_info_default honest_head"
    using h r(2,3) by (simp add: xff_forwarding_def forging_client_def)
  then show ?thesis
    using h ip by (simp add: tells_truth_def xff_forwarding_def fingerprint_values_def peek_info_default_def)
qed

end
